(* ===== verification/Kimojio_Prelude.thy ===== *)
theory Kimojio_Prelude
  imports Main "HOL-Library.Word"
begin

text \<open>
  The prelude of the development: the fact collections the component theories fill and
  use, the model of a Rust panic, the view of \<open>u8\<close> and \<open>str\<close> that the byte-level
  components share, and the generic lemmas on lists, options and maps.

  A Rust \<open>u8\<close> of a text is a \<^typ>\<open>char\<close> (eight bits), a Rust \<open>str\<close> or
  \<open>[u8]\<close> holding text is a \<^typ>\<open>string\<close>, and a \<open>usize\<close> that counts elements of a
  slice in memory is a \<^typ>\<open>nat\<close>: slices are at most \<open>isize::MAX\<close> bytes long, so
  the additions on such counters do not overflow. Where the width of a machine integer
  matters (bitmaps, truncating casts, wrapping tags) the component theories use words.
\<close>

section \<open>Fact collections\<close>

named_theorems model_defs \<open>definitions of operations that are unfolded in case analyses\<close>
named_theorems inv_intros \<open>preservation of a component invariant by an operation\<close>
named_theorems wake_simps \<open>what an operation does to wait lists and to wakers\<close>

section \<open>Panics and results\<close>

text \<open>
  Code that may panic (\<open>assert!\<close>, \<open>unwrap\<close>, \<open>expect\<close>, \<open>unreachable!\<close>, indexing
  out of bounds, arithmetic overflow in a debug build) returns \<open>Inl\<close> of the panic.
\<close>

datatype panic = Panic string

type_synonym 'a may_panic = "panic + 'a"

lemma sum_case_Inr_iff [simp]:
  "(case r of Inl e \<Rightarrow> Inl e | Inr x \<Rightarrow> f x) = Inr y \<longleftrightarrow> (\<exists>x. r = Inr x \<and> f x = Inr y)"
  by (cases r) auto

section \<open>Bytes and ASCII classes\<close>

abbreviation byte_val :: "char \<Rightarrow> nat" where
  "byte_val c \<equiv> of_char c"

lemma byte_val_less_256: "byte_val c < 256"
  by (cases c) (simp add: of_char_def split: if_splits)

definition is_ascii_digit :: "char \<Rightarrow> bool" where
  "is_ascii_digit c \<longleftrightarrow> 48 \<le> byte_val c \<and> byte_val c \<le> 57"

definition is_ascii_hexdigit :: "char \<Rightarrow> bool" where
  "is_ascii_hexdigit c \<longleftrightarrow> is_ascii_digit c \<or> (65 \<le> byte_val c \<and> byte_val c \<le> 70)
     \<or> (97 \<le> byte_val c \<and> byte_val c \<le> 102)"

section \<open>Slices\<close>

text \<open>\<open>s.get(i)\<close> and \<open>s.get(a..b)\<close> on a Rust byte slice.\<close>

definition get_at :: "'a list \<Rightarrow> nat \<Rightarrow> 'a option" where
  "get_at s i = (if i < length s then Some (s ! i) else None)"

definition get_range :: "'a list \<Rightarrow> nat \<Rightarrow> nat \<Rightarrow> 'a list option" where
  "get_range s a b = (if a \<le> b \<and> b \<le> length s then Some (take (b - a) (drop a s)) else None)"

lemma get_at_Some_iff: "get_at s i = Some c \<longleftrightarrow> i < length s \<and> s ! i = c"
  by (auto simp: get_at_def)

lemma get_at_None_iff: "get_at s i = None \<longleftrightarrow> length s \<le> i"
  by (auto simp: get_at_def)

lemma get_at_append_left [simp]: "i < length xs \<Longrightarrow> get_at (xs @ ys) i = get_at xs i"
  by (simp add: get_at_def nth_append)

lemma get_at_append_right [simp]: "get_at (xs @ ys) (length xs + i) = get_at ys i"
  by (simp add: get_at_def)

lemma get_at_append_length [simp]: "get_at (xs @ ys) (length xs) = get_at ys 0"
  by (simp add: get_at_def nth_append)

lemma get_at_Cons_0 [simp]: "get_at (x # xs) 0 = Some x"
  by (simp add: get_at_def)

lemma get_at_Nil [simp]: "get_at [] i = None"
  by (simp add: get_at_def)

lemma get_at_Cons_Suc [simp]: "get_at (x # xs) (Suc i) = get_at xs i"
  by (simp add: get_at_def)

section \<open>Lists\<close>

lemma list_update_append_left [simp]:
  "i < length xs \<Longrightarrow> (xs @ ys)[i := x] = xs[i := x] @ ys"
  by (simp add: list_update_append)

lemma filter_neq_id: "x \<notin> set xs \<Longrightarrow> filter (\<lambda>y. y \<noteq> x) xs = xs"
  by (induction xs) auto

lemma distinct_filter_neq: "distinct xs \<Longrightarrow> distinct (filter (\<lambda>y. y \<noteq> x) xs)"
  by simp

lemma length_filter_list_update_less:
  assumes "i < length xs" and "P (xs ! i)" and "\<not> P y"
  shows "Suc (length (filter P (xs[i := y]))) = length (filter P xs)"
  using assms
proof (induction xs arbitrary: i)
  case (Cons x xs)
  then show ?case by (cases i) auto
qed simp

lemma length_filter_list_update_more:
  assumes "i < length xs" and "\<not> P (xs ! i)" and "P y"
  shows "length (filter P (xs[i := y])) = Suc (length (filter P xs))"
  using assms
proof (induction xs arbitrary: i)
  case (Cons x xs)
  then show ?case by (cases i) auto
qed simp

end
