(* ===== verification/Handle_Table.thy ===== *)
theory Handle_Table
  imports Kimojio_Prelude
begin

text \<open>
  \<open>kimojio/src/handle_table.rs\<close>: a vector of slots that hands out reusable one-based
  indices. Free slots are linked through \<open>next_free\<close> from the head \<open>free_list\<close>. An
  \<open>Index\<close> is the positive number inside the source's \<open>NonZeroUsize\<close>. The interface
  locale \<open>handle_map\<close> states what the table promises its users, and the table is shown
  to implement it; the task table of the scheduler uses the same facts.
\<close>

section \<open>Data\<close>

datatype 't slot = Free (next_free: "nat option") | Used (slot_value: 't)

record 't handle_table =
  ht_data :: "'t slot list"
  ht_free_list :: "nat option"
  ht_requests :: nat

section \<open>Operations\<close>

definition ht_new :: "'t handle_table" where
  "ht_new = \<lparr>ht_data = [], ht_free_list = None, ht_requests = 0\<rparr>"

definition ht_clear :: "'t handle_table \<Rightarrow> 't handle_table" where
  "ht_clear t = t\<lparr>ht_data := [], ht_free_list := None, ht_requests := 0\<rparr>"

definition ht_len :: "'t handle_table \<Rightarrow> nat" where
  "ht_len t = ht_requests t"

definition ht_is_empty :: "'t handle_table \<Rightarrow> bool" where
  "ht_is_empty t \<longleftrightarrow> ht_requests t = 0"

definition ht_insert_fn ::
    "'t handle_table \<Rightarrow> (nat \<Rightarrow> 't) \<Rightarrow> (nat \<times> 't handle_table) may_panic" where
  "ht_insert_fn t value_fn =
     (let t = t\<lparr>ht_requests := ht_requests t + 1\<rparr> in
      case ht_free_list t of
        Some index \<Rightarrow>
          (let offset = index - 1 in
           case get_at (ht_data t) offset of
             None \<Rightarrow> Inl (Panic ''index out of bounds'')
           | Some (Free nf) \<Rightarrow>
               Inr (index, t\<lparr>ht_data := (ht_data t)[offset := Used (value_fn index)],
                             ht_free_list := nf\<rparr>)
           | Some (Used _) \<Rightarrow> Inl (Panic ''unreachable''))
      | None \<Rightarrow>
          (let offset = length (ht_data t); index = offset + 1 in
           Inr (index, t\<lparr>ht_data := ht_data t @ [Used (value_fn index)]\<rparr>)))"

definition ht_insert :: "'t handle_table \<Rightarrow> 't \<Rightarrow> (nat \<times> 't handle_table) may_panic" where
  "ht_insert t value = ht_insert_fn t (\<lambda>_. value)"

definition ht_get :: "'t handle_table \<Rightarrow> nat \<Rightarrow> 't option" where
  "ht_get t index =
     (case get_at (ht_data t) (index - 1) of
        Some (Used value) \<Rightarrow> Some value
      | _ \<Rightarrow> None)"

definition ht_remove ::
    "'t handle_table \<Rightarrow> nat \<Rightarrow> ('t option \<times> 't handle_table) may_panic" where
  "ht_remove t index =
     (let offset = index - 1 in
      case get_at (ht_data t) offset of
        None \<Rightarrow> Inr (None, t)
      | Some (Free _) \<Rightarrow> Inr (None, t)
      | Some (Used value) \<Rightarrow>
          if ht_requests t = 0 then Inl (Panic ''attempt to subtract with overflow'')
          else Inr (Some value,
                 t\<lparr>ht_requests := ht_requests t - 1,
                   ht_free_list := Some index,
                   ht_data := (ht_data t)[offset := Free (ht_free_list t)]\<rparr>))"

fun used_from :: "nat \<Rightarrow> 't slot list \<Rightarrow> (nat \<times> 't) list" where
  "used_from offset [] = []"
| "used_from offset (Used value # slots) = (offset + 1, value) # used_from (offset + 1) slots"
| "used_from offset (Free _ # slots) = used_from (offset + 1) slots"

definition ht_iter :: "'t handle_table \<Rightarrow> (nat \<times> 't) list" where
  "ht_iter t = used_from 0 (ht_data t)"

definition ht_indexes :: "'t handle_table \<Rightarrow> nat list" where
  "ht_indexes t = map fst (used_from 0 (ht_data t))"

text \<open>\<open>drain\<close> with its iterator consumed: the pairs, and the emptied table.\<close>

definition ht_drain :: "'t handle_table \<Rightarrow> (nat \<times> 't) list \<times> 't handle_table" where
  "ht_drain t = (used_from 0 (ht_data t),
                 t\<lparr>ht_free_list := None, ht_requests := 0, ht_data := []\<rparr>)"

text \<open>\<open>iter_mut\<close>: a caller that replaces the value at each index it is given.\<close>

definition ht_iter_mut :: "(nat \<Rightarrow> 't \<Rightarrow> 't) \<Rightarrow> 't handle_table \<Rightarrow> 't handle_table" where
  "ht_iter_mut f t = t\<lparr>ht_data :=
     map (\<lambda>(offset, slot). case slot of Used value \<Rightarrow> Used (f (offset + 1) value)
                                       | Free nf \<Rightarrow> Free nf)
         (List.enumerate 0 (ht_data t))\<rparr>"

section \<open>The invariant: the free list links exactly the free slots\<close>

fun free_chain :: "'t slot list \<Rightarrow> nat option \<Rightarrow> nat list \<Rightarrow> bool" where
  "free_chain d None [] = True"
| "free_chain d (Some i) (j # js) \<longleftrightarrow>
     i = j \<and> 0 < i \<and> (case get_at d (i - 1) of Some (Free nf) \<Rightarrow> free_chain d nf js | _ \<Rightarrow> False)"
| "free_chain d _ _ = False"

definition is_used :: "'t slot \<Rightarrow> bool" where
  "is_used s = (case s of Used _ \<Rightarrow> True | Free _ \<Rightarrow> False)"

lemma is_used_simps [simp]: "is_used (Used v)" "\<not> is_used (Free nf)"
  by (simp_all add: is_used_def)

definition ht_inv :: "'t handle_table \<Rightarrow> bool" where
  "ht_inv t \<longleftrightarrow>
     (\<exists>fl. free_chain (ht_data t) (ht_free_list t) fl \<and> distinct fl \<and>
           (\<forall>i < length (ht_data t). \<not> is_used (ht_data t ! i) \<longrightarrow> Suc i \<in> set fl)) \<and>
     ht_requests t = length (filter is_used (ht_data t))"

lemma free_chain_in_range:
  "free_chain d h fl \<Longrightarrow> i \<in> set fl \<Longrightarrow> 0 < i \<and> i \<le> length d \<and> \<not> is_used (d ! (i - 1))"
  by (induction d h fl rule: free_chain.induct)
     (auto simp: get_at_def is_used_def split: option.splits slot.splits if_splits)

lemma free_chain_update_outside:
  "free_chain d h fl \<Longrightarrow> Suc i \<notin> set fl \<Longrightarrow> free_chain (d[i := s]) h fl"
  by (induction d h fl rule: free_chain.induct)
     (auto simp: get_at_def nth_list_update split: option.splits slot.splits if_splits)

lemma free_chain_append: "free_chain d h fl \<Longrightarrow> free_chain (d @ e) h fl"
  by (induction d h fl rule: free_chain.induct)
     (auto simp: get_at_def nth_append split: option.splits slot.splits if_splits)

lemma free_chain_head:
  assumes "free_chain d (Some i) fl"
  obtains nf js where "fl = i # js" "0 < i" "i \<le> length d" "d ! (i - 1) = Free nf"
    "free_chain d nf js"
  using assms
  by (cases fl) (auto simp: get_at_def split: option.splits slot.splits if_splits)

lemma ht_inv_new [inv_intros]: "ht_inv ht_new"
  by (auto simp: ht_inv_def ht_new_def intro: exI [of _ "[]"])


lemma ht_inv_clear [inv_intros]: "ht_inv (ht_clear t)"
  by (auto simp: ht_inv_def ht_clear_def intro: exI [of _ "[]"])

lemma ht_inv_drain [inv_intros]: "ht_inv (snd (ht_drain t))"
  by (auto simp: ht_inv_def ht_drain_def intro: exI [of _ "[]"])

lemma ht_inv_chain:
  assumes "ht_inv t"
  obtains fl where "free_chain (ht_data t) (ht_free_list t) fl" "distinct fl"
    "\<And>i. i < length (ht_data t) \<Longrightarrow> \<not> is_used (ht_data t ! i) \<Longrightarrow> Suc i \<in> set fl"
    "ht_requests t = length (filter is_used (ht_data t))"
  using assms by (auto simp: ht_inv_def)

lemma ht_invI:
  assumes "free_chain (ht_data t) (ht_free_list t) fl" "distinct fl"
    "\<And>i. i < length (ht_data t) \<Longrightarrow> \<not> is_used (ht_data t ! i) \<Longrightarrow> Suc i \<in> set fl"
    "ht_requests t = length (filter is_used (ht_data t))"
  shows "ht_inv t"
  using assms by (auto simp: ht_inv_def)

text \<open>
  Under the invariant an insertion never panics: it either pops the head of the free list
  or appends a slot.
\<close>

lemma ht_insert_fn_cases:
  assumes "ht_inv t"
  obtains (reuse) i nf where "ht_free_list t = Some i" "0 < i" "i \<le> length (ht_data t)"
      "ht_data t ! (i - 1) = Free nf"
      "ht_insert_fn t f = Inr (i, \<lparr>ht_data = (ht_data t)[i - 1 := Used (f i)],
                                   ht_free_list = nf, ht_requests = ht_requests t + 1\<rparr>)"
    | (grow) "ht_free_list t = None"
      "ht_insert_fn t f = Inr (Suc (length (ht_data t)),
          \<lparr>ht_data = ht_data t @ [Used (f (Suc (length (ht_data t))))],
           ht_free_list = None, ht_requests = ht_requests t + 1\<rparr>)"
proof (cases "ht_free_list t")
  case None
  then have "ht_insert_fn t f = Inr (Suc (length (ht_data t)),
          \<lparr>ht_data = ht_data t @ [Used (f (Suc (length (ht_data t))))],
           ht_free_list = None, ht_requests = ht_requests t + 1\<rparr>)"
    by (cases t) (simp add: ht_insert_fn_def Let_def)
  with None show ?thesis by (rule grow)
next
  case (Some i)
  from assms obtain fl where chain: "free_chain (ht_data t) (Some i) fl"
    unfolding Some [symmetric] by (rule ht_inv_chain)
  then obtain nf where i: "0 < i" "i \<le> length (ht_data t)" "ht_data t ! (i - 1) = Free nf"
    by (rule free_chain_head)
  then have "ht_insert_fn t f = Inr (i, \<lparr>ht_data = (ht_data t)[i - 1 := Used (f i)],
                                   ht_free_list = nf, ht_requests = ht_requests t + 1\<rparr>)"
    using Some by (cases t) (simp add: ht_insert_fn_def get_at_def Let_def)
  with Some i show ?thesis by (rule reuse)
qed

lemma ht_insert_fn_inv:
  assumes "ht_inv t" and "ht_insert_fn t f = Inr (i, t')"
  shows "ht_inv t'"
  using assms(1)
proof (cases rule: ht_insert_fn_cases [where f = f])
  case (reuse j nf)
  from assms(1) obtain fl where fl: "free_chain (ht_data t) (ht_free_list t) fl" "distinct fl"
    "\<And>i. i < length (ht_data t) \<Longrightarrow> \<not> is_used (ht_data t ! i) \<Longrightarrow> Suc i \<in> set fl"
    "ht_requests t = length (filter is_used (ht_data t))"
    by (rule ht_inv_chain) blast
  from fl(1) reuse(1,4) obtain js where js: "fl = j # js" "free_chain (ht_data t) nf js"
    by (auto elim!: free_chain_head)
  from js fl(2) reuse(2) have out: "Suc (j - 1) \<notin> set js" by simp
  show ?thesis
  proof (rule ht_invI)
    show "free_chain (ht_data t') (ht_free_list t') js"
      using assms(2) reuse free_chain_update_outside [OF js(2) out] by auto
    show "distinct js" using fl(2) js(1) by simp
    show "Suc k \<in> set js" if "k < length (ht_data t')" "\<not> is_used (ht_data t' ! k)" for k
      using that assms(2) reuse fl(3) [of k] js(1)
      by (cases "k = j - 1") auto
    show "ht_requests t' = length (filter is_used (ht_data t'))"
      using assms(2) reuse fl(4)
      by (auto simp: length_filter_list_update_more)
  qed
next
  case grow
  from assms(1) obtain fl where fl: "free_chain (ht_data t) (ht_free_list t) fl" "distinct fl"
    "\<And>i. i < length (ht_data t) \<Longrightarrow> \<not> is_used (ht_data t ! i) \<Longrightarrow> Suc i \<in> set fl"
    "ht_requests t = length (filter is_used (ht_data t))"
    by (rule ht_inv_chain) blast
  show ?thesis
  proof (rule ht_invI)
    show "free_chain (ht_data t') (ht_free_list t') fl"
      using assms(2) grow fl(1) free_chain_append by auto
    show "Suc k \<in> set fl" if "k < length (ht_data t')" "\<not> is_used (ht_data t' ! k)" for k
      using that assms(2) grow fl(3) [of k] by (auto simp: nth_append split: if_splits)
  qed (use assms(2) grow fl in auto)
qed

lemma ht_remove_cases:
  assumes "ht_inv t"
  obtains (absent) "ht_get t i = None" "ht_remove t i = Inr (None, t)"
    | (present) v where "i - 1 < length (ht_data t)" "ht_data t ! (i - 1) = Used v"
      "ht_get t i = Some v"
      "ht_remove t i = Inr (Some v, \<lparr>ht_data = (ht_data t)[i - 1 := Free (ht_free_list t)],
          ht_free_list = Some i, ht_requests = ht_requests t - 1\<rparr>)"
proof (cases "ht_get t i")
  case None
  then have "ht_remove t i = Inr (None, t)"
    by (auto simp: ht_get_def ht_remove_def split: option.splits slot.splits)
  with None show ?thesis by (rule absent)
next
  case (Some v)
  then have v: "i - 1 < length (ht_data t)" "ht_data t ! (i - 1) = Used v"
    by (auto simp: ht_get_def get_at_def split: option.splits slot.splits if_splits)
  then have "is_used (ht_data t ! (i - 1))" by simp
  with v(1) have "filter is_used (ht_data t) \<noteq> []"
    by (metis filter_empty_conv nth_mem)
  with assms have "ht_requests t \<noteq> 0" by (auto elim: ht_inv_chain)
  with v have "ht_remove t i = Inr (Some v,
      \<lparr>ht_data = (ht_data t)[i - 1 := Free (ht_free_list t)],
       ht_free_list = Some i, ht_requests = ht_requests t - 1\<rparr>)"
    by (cases t) (simp add: ht_remove_def get_at_def)
  with v Some show ?thesis by (intro present)
qed

lemma ht_remove_inv:
  assumes "ht_inv t" and "0 < i" and "ht_remove t i = Inr (r, t')"
  shows "ht_inv t'"
  using assms(1)
proof (cases rule: ht_remove_cases [where i = i])
  case absent
  with assms show ?thesis by simp
next
  case (present v)
  from assms(1) obtain fl where fl: "free_chain (ht_data t) (ht_free_list t) fl" "distinct fl"
    "\<And>i. i < length (ht_data t) \<Longrightarrow> \<not> is_used (ht_data t ! i) \<Longrightarrow> Suc i \<in> set fl"
    "ht_requests t = length (filter is_used (ht_data t))"
    by (rule ht_inv_chain) blast
  have out: "i \<notin> set fl"
    using free_chain_in_range [OF fl(1), of i] present by auto
  then have out': "Suc (i - 1) \<notin> set fl" using assms(2) by simp
  show ?thesis
  proof (rule ht_invI)
    show "free_chain (ht_data t') (ht_free_list t') (i # fl)"
      using assms present free_chain_update_outside [OF fl(1) out']
      by (auto simp: get_at_def)
    show "distinct (i # fl)" using out fl(2) by simp
    show "Suc k \<in> set (i # fl)" if "k < length (ht_data t')" "\<not> is_used (ht_data t' ! k)" for k
      using that assms present fl(3) [of k] by (cases "k = i - 1") auto
    have "Suc (length (filter is_used ((ht_data t)[i - 1 := Free (ht_free_list t)])))
          = length (filter is_used (ht_data t))"
      using present by (intro length_filter_list_update_less) auto
    then show "ht_requests t' = length (filter is_used (ht_data t'))"
      using assms(3) present fl(4) by auto
  qed
qed

section \<open>The interface and its implementation\<close>

text \<open>
  What a handle table promises: an insertion succeeds with a positive handle that was not
  in use and changes the lookup function at that handle only, a removal returns what the
  handle names and frees it, and \<open>size\<close> is the number of handles in use.
\<close>

locale handle_map =
  fixes empty :: 's
    and insert :: "'s \<Rightarrow> 'v \<Rightarrow> (nat \<times> 's) may_panic"
    and remove :: "'s \<Rightarrow> nat \<Rightarrow> ('v option \<times> 's) may_panic"
    and lookup :: "'s \<Rightarrow> nat \<Rightarrow> 'v option"
    and size :: "'s \<Rightarrow> nat"
    and invar :: "'s \<Rightarrow> bool"
  assumes invar_empty: "invar empty"
    and lookup_empty: "0 < h \<Longrightarrow> lookup empty h = None"
    and insert_law: "invar s \<Longrightarrow> \<exists>h s'. insert s v = Inr (h, s') \<and> invar s' \<and> 0 < h \<and>
          lookup s h = None \<and> (\<forall>k>0. lookup s' k = (if k = h then Some v else lookup s k))"
    and remove_law: "invar s \<Longrightarrow> 0 < h \<Longrightarrow> \<exists>s'. remove s h = Inr (lookup s h, s') \<and> invar s' \<and>
          (\<forall>k>0. lookup s' k = (if k = h then None else lookup s k))"
    and size_law: "invar s \<Longrightarrow> size s = card {h. 0 < h \<and> lookup s h \<noteq> None}"
begin

lemma insert_no_panic: "invar s \<Longrightarrow> insert s v \<noteq> Inl p"
  using insert_law [of s v] by auto

lemma remove_no_panic: "invar s \<Longrightarrow> 0 < h \<Longrightarrow> remove s h \<noteq> Inl p"
  using remove_law [of s h] by auto

lemma insertE:
  assumes "invar s" and "insert s v = Inr (h, s')"
  shows "invar s'" "0 < h" "lookup s h = None"
    "\<And>k. 0 < k \<Longrightarrow> lookup s' k = (if k = h then Some v else lookup s k)"
  using insert_law [OF assms(1), of v] assms(2) by auto

lemma removeE:
  assumes "invar s" and "0 < h" and "remove s h = Inr (r, s')"
  shows "r = lookup s h" "invar s'"
    "\<And>k. 0 < k \<Longrightarrow> lookup s' k = (if k = h then None else lookup s k)"
  using remove_law [OF assms(1,2)] assms(3) by auto

text \<open>The first removal of a fresh handle returns the value, the second returns nothing.\<close>

lemma remove_after_insert:
  assumes "invar s" and "insert s v = Inr (h, s1)"
  shows "\<exists>s2. remove s1 h = Inr (Some v, s2) \<and> invar s2 \<and>
           (\<forall>k>0. lookup s2 k = lookup s k) \<and>
           (\<exists>s3. remove s2 h = Inr (None, s3) \<and> (\<forall>k>0. lookup s3 k = lookup s k))"
proof -
  note ins = insertE [OF assms]
  from remove_law [OF ins(1,2)] obtain s2 where s2: "remove s1 h = Inr (Some v, s2)" "invar s2"
    "\<forall>k>0. lookup s2 k = (if k = h then None else lookup s1 k)"
    using ins(2,4) by auto
  have same: "\<forall>k>0. lookup s2 k = lookup s k"
    using s2(3) ins(3,4) by auto
  from remove_law [OF s2(2) ins(2)] same ins(2,3) obtain s3 where
    "remove s2 h = Inr (None, s3)" "\<forall>k>0. lookup s3 k = lookup s k"
    by auto
  with s2 same show ?thesis by blast
qed

end

lemma ht_get_update:
  assumes "0 < k" and "0 < i" and "i - 1 < length (ht_data t)"
    and "ht_data t' = (ht_data t)[i - 1 := s]"
  shows "ht_get t' k = (if k = i then (case s of Used v \<Rightarrow> Some v | Free _ \<Rightarrow> None) else ht_get t k)"
  using assms by (auto simp: ht_get_def get_at_def nth_list_update split: slot.splits)

lemma ht_get_range: "0 < k \<Longrightarrow> ht_get t k \<noteq> None \<Longrightarrow> k \<le> length (ht_data t)"
  by (auto simp: ht_get_def get_at_def split: if_splits)

lemma ht_get_grow:
  assumes "0 < k" and "ht_data t' = ht_data t @ [Used v]"
  shows "ht_get t' k = (if k = Suc (length (ht_data t)) then Some v else ht_get t k)"
  using assms
  by (cases k) (auto simp: ht_get_def get_at_def nth_append split: slot.splits)

lemma ht_insert_fn_law:
  assumes "ht_inv t"
  shows "\<exists>h t'. ht_insert_fn t f = Inr (h, t') \<and> ht_inv t' \<and> 0 < h \<and> ht_get t h = None \<and>
           (\<forall>k>0. ht_get t' k = (if k = h then Some (f h) else ht_get t k))"
  using assms
proof (cases rule: ht_insert_fn_cases [where f = f])
  case (reuse i nf)
  then show ?thesis
    using ht_insert_fn_inv [OF assms reuse(5)] ht_get_update [of _ i t]
    by (auto simp: ht_get_def get_at_def)
next
  case grow
  then show ?thesis
    using ht_insert_fn_inv [OF assms grow(2)]
    by (auto simp: ht_get_grow) (simp add: ht_get_def get_at_def)
qed

lemma ht_remove_law:
  assumes "ht_inv t" and "0 < h"
  shows "\<exists>t'. ht_remove t h = Inr (ht_get t h, t') \<and> ht_inv t' \<and>
           (\<forall>k>0. ht_get t' k = (if k = h then None else ht_get t k))"
  using assms(1)
proof (cases rule: ht_remove_cases [where i = h])
  case absent
  then show ?thesis using assms by auto
next
  case (present v)
  then show ?thesis
    using ht_remove_inv [OF assms present(4)] ht_get_update [OF _ assms(2) present(1)] by auto
qed

lemma ht_get_nth: "ht_get t (Suc i) = Some v \<longleftrightarrow> i < length (ht_data t) \<and> ht_data t ! i = Used v"
  by (auto simp: ht_get_def get_at_def split: slot.splits)

lemma ht_used_indices:
  "{h. 0 < h \<and> ht_get t h \<noteq> None} = Suc ` {i. i < length (ht_data t) \<and> is_used (ht_data t ! i)}"
proof (intro set_eqI iffI)
  fix h assume "h \<in> {h. 0 < h \<and> ht_get t h \<noteq> None}"
  then show "h \<in> Suc ` {i. i < length (ht_data t) \<and> is_used (ht_data t ! i)}"
    by (cases h) (auto simp: ht_get_nth)
next
  fix h assume "h \<in> Suc ` {i. i < length (ht_data t) \<and> is_used (ht_data t ! i)}"
  then show "h \<in> {h. 0 < h \<and> ht_get t h \<noteq> None}"
    by (auto simp: ht_get_def get_at_def is_used_def split: slot.splits)
qed

lemma ht_size_law:
  assumes "ht_inv t"
  shows "ht_len t = card {h. 0 < h \<and> ht_get t h \<noteq> None}"
  using assms unfolding ht_used_indices
  by (auto simp: ht_len_def card_image length_filter_conv_card elim!: ht_inv_chain)

interpretation table: handle_map ht_new ht_insert ht_remove ht_get ht_len ht_inv
proof (unfold_locales, goal_cases)
  case 1 show ?case by (rule ht_inv_new)
next
  case 2 show ?case by (simp add: ht_get_def ht_new_def)
next
  case (3 s v) then show ?case unfolding ht_insert_def by (rule ht_insert_fn_law)
next
  case (4 s h) then show ?case by (rule ht_remove_law)
next
  case (5 s) then show ?case by (rule ht_size_law)
qed

section \<open>Scripts of operations against a reference map\<close>

text \<open>
  A script runs the table next to a reference map from handles to values. The run fails if
  an operation panics, if an insertion hands out a handle that the reference map has in
  use, or if a removal or lookup returns something else than the reference map holds.
  \<open>OpRemove n\<close> and \<open>OpGet n\<close> use the index \<open>n + 1\<close>: an index is never zero.
\<close>

datatype 't ht_op = OpInsert 't | OpRemove nat | OpGet nat | OpClear | OpDrain

fun ht_run ::
    "'t ht_op list \<Rightarrow> 't handle_table \<times> (nat \<rightharpoonup> 't) \<Rightarrow> ('t handle_table \<times> (nat \<rightharpoonup> 't)) may_panic"
where
  "ht_run [] s = Inr s"
| "ht_run (OpInsert v # ops) (t, m) =
     (case ht_insert t v of Inl p \<Rightarrow> Inl p
      | Inr (h, t') \<Rightarrow> if m h = None then ht_run ops (t', m(h \<mapsto> v))
                       else Inl (Panic ''handle in use''))"
| "ht_run (OpRemove n # ops) (t, m) =
     (case ht_remove t (Suc n) of Inl p \<Rightarrow> Inl p
      | Inr (r, t') \<Rightarrow> if r = m (Suc n) then ht_run ops (t', m(Suc n := None))
                       else Inl (Panic ''wrong value removed''))"
| "ht_run (OpGet n # ops) (t, m) =
     (if ht_get t (Suc n) = m (Suc n) then ht_run ops (t, m)
      else Inl (Panic ''wrong value found''))"
| "ht_run (OpClear # ops) (t, m) = ht_run ops (ht_clear t, Map.empty)"
| "ht_run (OpDrain # ops) (t, m) =
     (if set (fst (ht_drain t)) = {(h, v). 0 < h \<and> m h = Some v}
      then ht_run ops (snd (ht_drain t), Map.empty) else Inl (Panic ''wrong drain''))"

definition ht_sim :: "'t handle_table \<Rightarrow> (nat \<rightharpoonup> 't) \<Rightarrow> bool" where
  "ht_sim t m \<longleftrightarrow> ht_inv t \<and> m 0 = None \<and> (\<forall>k>0. ht_get t k = m k)"

lemma used_from_iff:
  "(h, v) \<in> set (used_from b d) \<longleftrightarrow> b < h \<and> h - b - 1 < length d \<and> d ! (h - b - 1) = Used v"
proof (induction b d rule: used_from.induct)
  case (2 b w d)
  then show ?case by (auto simp: nth_Cons')
next
  case (3 b nf d)
  then show ?case by (auto simp: nth_Cons')
qed simp

lemma ht_iter_get: "set (ht_iter t) = {(h, v). 0 < h \<and> ht_get t h = Some v}"
proof -
  have "(h, v) \<in> set (ht_iter t) \<longleftrightarrow> 0 < h \<and> ht_get t h = Some v" for h v
    by (cases h) (auto simp: ht_iter_def used_from_iff ht_get_nth)
  then show ?thesis by auto
qed

lemma ht_sim_drain: "ht_sim t m \<Longrightarrow> set (fst (ht_drain t)) = {(h, v). 0 < h \<and> m h = Some v}"
  using ht_iter_get [of t] by (auto simp: ht_sim_def ht_drain_def ht_iter_def)

lemma ht_sim_empty [simp]:
  "ht_sim ht_new Map.empty" "ht_sim (ht_clear t) Map.empty" "ht_sim (snd (ht_drain t)) Map.empty"
  by (auto simp: ht_sim_def inv_intros)
     (simp_all add: ht_new_def ht_clear_def ht_drain_def ht_get_def)

lemma ht_sim_insert:
  assumes "ht_sim t m"
  obtains h t' where "ht_insert t v = Inr (h, t')" "m h = None" "ht_sim t' (m(h \<mapsto> v))"
proof -
  from assms have inv: "ht_inv t" by (simp add: ht_sim_def)
  from table.insert_law [OF inv, of v] obtain h t' where h: "ht_insert t v = Inr (h, t')"
    "ht_inv t'" "0 < h" "ht_get t h = None"
    "\<forall>k>0. ht_get t' k = (if k = h then Some v else ht_get t k)"
    by blast
  moreover from assms h(3,4) have "m h = None" by (simp add: ht_sim_def)
  moreover from assms h have "ht_sim t' (m(h \<mapsto> v))" by (auto simp: ht_sim_def)
  ultimately show thesis by (blast intro: that)
qed

lemma ht_sim_remove:
  assumes "ht_sim t m"
  obtains t' where "ht_remove t (Suc n) = Inr (m (Suc n), t')" "ht_sim t' (m(Suc n := None))"
proof -
  from assms have inv: "ht_inv t" by (simp add: ht_sim_def)
  from table.remove_law [OF inv, of "Suc n"] obtain t' where
    h: "ht_remove t (Suc n) = Inr (ht_get t (Suc n), t')" "ht_inv t'"
    "\<forall>k>0. ht_get t' k = (if k = Suc n then None else ht_get t k)"
    by blast
  moreover from assms h have "ht_sim t' (m(Suc n := None))" by (auto simp: ht_sim_def)
  moreover from assms have "ht_get t (Suc n) = m (Suc n)" by (simp add: ht_sim_def)
  ultimately show thesis by (metis that)
qed

lemma ht_run_sim:
  "ht_sim t m \<Longrightarrow> \<exists>t' m'. ht_run ops (t, m) = Inr (t', m') \<and> ht_sim t' m'"
proof (induction ops "(t, m)" arbitrary: t m rule: ht_run.induct)
  case (2 v ops t m)
  from 2(2) obtain h t' where h: "ht_insert t v = Inr (h, t')" "m h = None"
    "ht_sim t' (m(h \<mapsto> v))" by (rule ht_sim_insert)
  from 2(1) [OF h(1) refl h(2,3)] h show ?case by simp
next
  case (3 n ops t m)
  from 3(2) obtain t' where t': "ht_remove t (Suc n) = Inr (m (Suc n), t')"
    "ht_sim t' (m(Suc n := None))" by (rule ht_sim_remove)
  from 3(1) [OF t'(1) refl refl t'(2)] t' show ?case by simp
next
  case (4 n ops t m)
  then show ?case by (simp add: ht_sim_def)
next
  case (5 ops t m)
  then show ?case by simp
next
  case (6 ops t m)
  from ht_sim_drain [OF 6(2)] 6(1) show ?case by simp
qed simp

text \<open>
  C3: Every script of insertions, removals, lookups, clears and drains of a handle table
  runs without a panic, hands out only handles that are not in use, returns from each
  removal, lookup and drain exactly what a reference map holds, and ends in a table whose
  length is the number of handles in use.
\<close>

theorem handle_table_refines_map:
  "\<exists>t m. ht_run ops (ht_new, Map.empty) = Inr (t, m) \<and>
         (\<forall>n. ht_get t (Suc n) = m (Suc n)) \<and> ht_len t = card (dom m)"
proof -
  obtain t m where run: "ht_run ops (ht_new, Map.empty) = Inr (t, m)" and sim: "ht_sim t m"
    using ht_run_sim [of ht_new Map.empty ops] by auto
  have "h \<in> dom m \<longleftrightarrow> 0 < h \<and> ht_get t h \<noteq> None" for h
    using sim by (cases h) (auto simp: ht_sim_def)
  then have "{h. 0 < h \<and> ht_get t h \<noteq> None} = dom m" by blast
  with sim table.size_law [of t] have "ht_len t = card (dom m)"
    by (simp add: ht_sim_def)
  with run sim show ?thesis by (auto simp: ht_sim_def)
qed

end
