(* ===== verification/Utf8_Text.thy ===== *)
theory Utf8_Text
  imports Kimojio_Prelude
begin

text \<open>
  Rust text as the JSON crate and the resolver see it. A Rust \<open>char\<close> is a Unicode scalar
  value, here a natural number; a \<open>str\<close> is the list of its UTF-8 bytes. This theory
  models what the sources use of the standard library: \<open>char::from_u32\<close>,
  \<open>char::len_utf8\<close>, \<open>char::encode_utf8\<close>, \<open>str::chars\<close>, \<open>str::is_char_boundary\<close>,
  \<open>str::get\<close> with a range, and \<open>str::from_utf8\<close>.
\<close>

section \<open>Unicode scalar values and their encoding\<close>

type_synonym scalar = nat

definition is_scalar :: "scalar \<Rightarrow> bool" where
  "is_scalar c \<longleftrightarrow> c < 0xD800 \<or> (0xE000 \<le> c \<and> c < 0x110000)"

definition from_u32 :: "nat \<Rightarrow> scalar option" where
  "from_u32 n = (if is_scalar n then Some n else None)"

definition len_utf8 :: "scalar \<Rightarrow> nat" where
  "len_utf8 c = (if c < 0x80 then 1 else if c < 0x800 then 2 else if c < 0x10000 then 3 else 4)"

definition encode_utf8 :: "scalar \<Rightarrow> string" where
  "encode_utf8 c =
     (if c < 0x80 then [char_of c]
      else if c < 0x800 then [char_of (0xC0 + c div 64), char_of (0x80 + c mod 64)]
      else if c < 0x10000 then
        [char_of (0xE0 + c div 4096), char_of (0x80 + c div 64 mod 64), char_of (0x80 + c mod 64)]
      else
        [char_of (0xF0 + c div 262144), char_of (0x80 + c div 4096 mod 64),
         char_of (0x80 + c div 64 mod 64), char_of (0x80 + c mod 64)])"

definition utf8 :: "scalar list \<Rightarrow> string" where
  "utf8 cs = concat (map encode_utf8 cs)"

lemma utf8_simps [simp]:
  "utf8 [] = []" "utf8 (c # cs) = encode_utf8 c @ utf8 cs" "utf8 (cs @ ds) = utf8 cs @ utf8 ds"
  by (simp_all add: utf8_def)

lemma length_encode_utf8 [simp]: "length (encode_utf8 c) = len_utf8 c"
  by (simp add: encode_utf8_def len_utf8_def)

lemma len_utf8_pos [simp]: "0 < len_utf8 c" "len_utf8 c \<noteq> 0"
  by (simp_all add: len_utf8_def)

lemma len_utf8_le_4: "len_utf8 c \<le> 4"
  by (simp add: len_utf8_def)

section \<open>Reading characters\<close>

fun next_char :: "string \<Rightarrow> scalar option" where
  "next_char [] = None"
| "next_char (b # r) =
     (let x = byte_val b in
      if x < 0x80 then Some x
      else (case r of [] \<Rightarrow> None
        | y # r2 \<Rightarrow>
            if x < 0xE0 then Some (x mod 32 * 64 + byte_val y mod 64)
            else (case r2 of [] \<Rightarrow> None
              | z # r3 \<Rightarrow>
                  if x < 0xF0
                  then Some (x mod 16 * 4096 + byte_val y mod 64 * 64 + byte_val z mod 64)
                  else (case r3 of [] \<Rightarrow> None
                    | w # r4 \<Rightarrow> Some (x mod 8 * 262144 + byte_val y mod 64 * 4096
                                      + byte_val z mod 64 * 64 + byte_val w mod 64)))))"

function str_chars :: "string \<Rightarrow> scalar list" where
  "str_chars s = (case next_char s of None \<Rightarrow> []
                  | Some c \<Rightarrow> c # str_chars (drop (len_utf8 c) s))"
  by auto
termination
proof (relation "measure length", goal_cases)
  case (2 s c)
  then show ?case by (cases s) simp_all
qed simp

declare str_chars.simps [simp del]

lemma split64: "c div 64 * 64 + c mod 64 = (c :: nat)"
  by simp

lemma split4096: "c div 4096 * 4096 + c div 64 mod 64 * 64 + c mod 64 = (c :: nat)"
proof -
  have "c div 64 = c div 64 div 64 * 64 + c div 64 mod 64" by simp
  then have "c div 64 * 64 = (c div 4096 * 64 + c div 64 mod 64) * 64"
    by (simp add: div_mult2_eq [symmetric])
  then show ?thesis using split64 [of c] by simp
qed

lemma split262144:
  "c div 262144 * 262144 + c div 4096 mod 64 * 4096 + c div 64 mod 64 * 64 + c mod 64 = (c :: nat)"
proof -
  have "c div 4096 = c div 4096 div 64 * 64 + c div 4096 mod 64" by simp
  then have "c div 4096 * 4096 = (c div 262144 * 64 + c div 4096 mod 64) * 4096"
    by (simp add: div_mult2_eq [symmetric])
  then show ?thesis using split4096 [of c] by simp
qed

lemma byte_tags:
  "k < 64 \<Longrightarrow> (128 + k) mod 64 = (k :: nat)" "k < 32 \<Longrightarrow> (192 + k) mod 32 = (k :: nat)"
  "k < 16 \<Longrightarrow> (224 + k) mod 16 = (k :: nat)" "k < 8 \<Longrightarrow> (240 + k) mod 8 = (k :: nat)"
  using mod_mult_self3 [of 2 64 k] mod_mult_self3 [of 6 32 k] mod_mult_self3 [of 14 16 k]
    mod_mult_self3 [of 30 8 k]
  by simp_all

lemma next_char_2:
  "a < 32 \<Longrightarrow> d < 64 \<Longrightarrow>
   next_char (char_of (192 + a) # char_of (128 + d) # s) = Some (a * 64 + d)"
  by (simp add: byte_tags)

lemma next_char_3:
  "a < 16 \<Longrightarrow> b < 64 \<Longrightarrow> d < 64 \<Longrightarrow>
   next_char (char_of (224 + a) # char_of (128 + b) # char_of (128 + d) # s)
     = Some (a * 4096 + b * 64 + d)"
  by (simp add: byte_tags)

lemma next_char_4:
  "a < 8 \<Longrightarrow> b < 64 \<Longrightarrow> e < 64 \<Longrightarrow> d < 64 \<Longrightarrow>
   next_char (char_of (240 + a) # char_of (128 + b) # char_of (128 + e) # char_of (128 + d) # s)
     = Some (a * 262144 + b * 4096 + e * 64 + d)"
  by (simp add: byte_tags)

lemma next_char_encode [simp]:
  assumes "is_scalar c"
  shows "next_char (encode_utf8 c @ s) = Some c"
proof -
  consider "c < 0x80" | "0x80 \<le> c" "c < 0x800" | "0x800 \<le> c" "c < 0x10000"
    | "0x10000 \<le> c" "c < 0x110000"
    using assms unfolding is_scalar_def by linarith
  then show ?thesis
  proof cases
    case 1
    then show ?thesis by (simp add: encode_utf8_def)
  next
    case 2
    with next_char_2 [of "c div 64" "c mod 64" s] split64 [of c] show ?thesis
      by (simp add: encode_utf8_def del: next_char.simps)
  next
    case 3
    with next_char_3 [of "c div 4096" "c div 64 mod 64" "c mod 64" s] split4096 [of c]
    show ?thesis by (simp add: encode_utf8_def del: next_char.simps)
  next
    case 4
    with next_char_4 [of "c div 262144" "c div 4096 mod 64" "c div 64 mod 64" "c mod 64" s]
      split262144 [of c]
    show ?thesis by (simp add: encode_utf8_def del: next_char.simps)
  qed
qed

lemma next_char_ascii [simp]: "byte_val b < 128 \<Longrightarrow> next_char (b # s) = Some (byte_val b)"
  by simp

declare next_char.simps(2) [simp del]

lemma str_chars_Nil [simp]: "str_chars [] = []"
  by (simp add: str_chars.simps)

lemma str_chars_encode [simp]:
  "is_scalar c \<Longrightarrow> str_chars (encode_utf8 c @ s) = c # str_chars s"
  by (subst str_chars.simps) simp

lemma str_chars_utf8 [simp]: "list_all is_scalar cs \<Longrightarrow> str_chars (utf8 cs) = cs"
  by (induction cs) simp_all

section \<open>Well-formed strings\<close>

text \<open>\<open>str::from_utf8\<close> accepts exactly the encodings of lists of scalar values.\<close>

definition valid_utf8 :: "string \<Rightarrow> bool" where
  "valid_utf8 s \<longleftrightarrow> list_all is_scalar (str_chars s) \<and> utf8 (str_chars s) = s"

lemma valid_utf8_utf8 [simp]: "list_all is_scalar cs \<Longrightarrow> valid_utf8 (utf8 cs)"
  by (simp add: valid_utf8_def)

lemma valid_utf8_iff: "valid_utf8 s \<longleftrightarrow> (\<exists>cs. list_all is_scalar cs \<and> s = utf8 cs)"
  by (auto simp: valid_utf8_def intro: exI [of _ "str_chars s"])

lemma valid_utf8E:
  assumes "valid_utf8 s"
  obtains (empty) "s = []"
    | (char) c r where "is_scalar c" "s = encode_utf8 c @ r" "valid_utf8 r"
proof -
  from assms obtain cs where "list_all is_scalar cs" "s = utf8 cs"
    by (auto simp: valid_utf8_iff)
  then show thesis by (cases cs) (auto intro: that)
qed

lemma valid_utf8_Nil [simp]: "valid_utf8 []"
  by (simp add: valid_utf8_def)

lemma valid_utf8_encode_append [simp]:
  assumes "is_scalar c"
  shows "valid_utf8 (encode_utf8 c @ s) \<longleftrightarrow> valid_utf8 s"
  using assms by (auto simp: valid_utf8_def)

lemma encode_utf8_ascii: "c < 128 \<Longrightarrow> encode_utf8 c = [char_of c]"
  by (simp add: encode_utf8_def)

lemma char_of_backslash [simp]: "char_of (0x5C :: nat) = CHR 0x5C"
  by code_simp

lemma valid_utf8_ascii_Cons [simp]:
  assumes "byte_val b < 128"
  shows "valid_utf8 (b # s) \<longleftrightarrow> valid_utf8 s"
proof -
  have "is_scalar (byte_val b)" using assms by (simp add: is_scalar_def)
  then have "valid_utf8 (encode_utf8 (byte_val b) @ s) \<longleftrightarrow> valid_utf8 s" by simp
  then show ?thesis using assms by (simp add: encode_utf8_ascii)
qed

lemma valid_utf8_append:
  assumes "valid_utf8 s"
  shows "valid_utf8 (s @ t) \<longleftrightarrow> valid_utf8 t"
proof -
  have "list_all is_scalar cs \<Longrightarrow> valid_utf8 (utf8 cs @ t) \<longleftrightarrow> valid_utf8 t" for cs
    by (induction cs) simp_all
  with assms show ?thesis by (auto simp: valid_utf8_iff)
qed

lemma valid_utf8_all_ascii: "\<forall>b\<in>set s. byte_val b < 128 \<Longrightarrow> valid_utf8 s"
  by (induction s) simp_all

section \<open>Character boundaries and sub-slices\<close>

definition is_continuation :: "char \<Rightarrow> bool" where
  "is_continuation b \<longleftrightarrow> 0x80 \<le> byte_val b \<and> byte_val b < 0xC0"

definition is_char_boundary :: "string \<Rightarrow> nat \<Rightarrow> bool" where
  "is_char_boundary s i \<longleftrightarrow>
     i = 0 \<or> i = length s \<or> (i < length s \<and> \<not> is_continuation (s ! i))"

definition str_get :: "string \<Rightarrow> nat \<Rightarrow> nat \<Rightarrow> string option" where
  "str_get s a b =
     (if a \<le> b \<and> b \<le> length s \<and> is_char_boundary s a \<and> is_char_boundary s b
      then Some (take (b - a) (drop a s)) else None)"

definition str_get_from :: "string \<Rightarrow> nat \<Rightarrow> string option" where
  "str_get_from s a = (if a \<le> length s \<and> is_char_boundary s a then Some (drop a s) else None)"

lemma hd_encode_not_continuation:
  assumes "is_scalar c"
  shows "\<not> is_continuation (hd (encode_utf8 c))"
proof -
  have c: "c < 0x110000" using assms by (auto simp: is_scalar_def)
  then have "c div 262144 < 8" by simp
  moreover have "c < 0x10000 \<Longrightarrow> c div 4096 < 16" by simp
  moreover have "c < 0x800 \<Longrightarrow> c div 64 < 32" by simp
  ultimately show ?thesis
    by (auto simp: encode_utf8_def is_continuation_def)
qed

lemma valid_not_continuation:
  assumes "valid_utf8 (b # s)"
  shows "\<not> is_continuation b"
  using assms
proof (cases rule: valid_utf8E)
  case (char c r)
  then obtain e where "encode_utf8 c = b # e"
    by (metis append_eq_Cons_conv len_utf8_pos(2) length_encode_utf8 list.size(3))
  with hd_encode_not_continuation [OF char(1)] show ?thesis by simp
qed simp

lemma char_boundary_append:
  assumes "valid_utf8 t"
  shows "is_char_boundary (s @ t) (length s)"
  using assms by (cases t) (auto simp: is_char_boundary_def valid_not_continuation)

lemma str_get_from_append [simp]:
  "valid_utf8 t \<Longrightarrow> str_get_from (s @ t) (length s) = Some t"
  by (simp add: str_get_from_def char_boundary_append)

lemma str_get_append:
  assumes "valid_utf8 (m @ r)" and "valid_utf8 r"
  shows "str_get (p @ m @ r) (length p) (length p + length m) = Some m"
proof -
  have "is_char_boundary (p @ (m @ r)) (length p)" using assms(1) by (rule char_boundary_append)
  moreover have "is_char_boundary ((p @ m) @ r) (length (p @ m))"
    using assms(2) by (rule char_boundary_append)
  ultimately show ?thesis by (simp add: str_get_def)
qed

end
