(* ===== verification/Json_Escape.thy ===== *)
theory Json_Escape
  imports Utf8_Text
begin

unbundle bit_operations_syntax

text \<open>
  \<open>kimojio-json/src/error.rs\<close> and \<open>kimojio-json/src/escape_string.rs\<close>: the errors of the
  tokenizer, and the lazy decoder of a string body with escape sequences. The iterator
  \<open>Unescape\<close> is a record that \<open>un_next\<close> updates; \<open>un_items\<close> is the list of all
  items a caller that exhausts it receives.
\<close>

section \<open>Errors\<close>

datatype error_kind =
  UnexpectedEof | UnexpectedByte | TrailingData | InvalidNumber | UnterminatedString
| ControlCharacter | InvalidEscape | ExpectedKey | ExpectedColon | DepthExceeded
| LoneSurrogate | BufferTooSmall

datatype json_error = JError (err_kind: error_kind) (err_offset: nat)

fun error_kind_as_str :: "error_kind \<Rightarrow> string" where
  "error_kind_as_str UnexpectedEof = ''input ended unexpectedly''"
| "error_kind_as_str UnexpectedByte = ''unexpected byte''"
| "error_kind_as_str TrailingData = ''trailing data after the top-level value''"
| "error_kind_as_str InvalidNumber = ''invalid number''"
| "error_kind_as_str UnterminatedString = ''unterminated string''"
| "error_kind_as_str ControlCharacter = ''unescaped control character in a string''"
| "error_kind_as_str InvalidEscape = ''invalid escape sequence''"
| "error_kind_as_str ExpectedKey = ''expected an object member name''"
| "error_kind_as_str ExpectedColon = ''expected `:` after an object member name''"
| "error_kind_as_str DepthExceeded = ''maximum nesting depth exceeded''"
| "error_kind_as_str LoneSurrogate = ''lone surrogate in a `'' @ [CHR 0x5C] @ ''u` escape''"
| "error_kind_as_str BufferTooSmall = ''buffer too small''"

section \<open>The iterator\<close>

record unescape =
  un_rest :: string
  un_offset :: nat

definition advance :: "nat \<Rightarrow> unescape \<Rightarrow> unescape" where
  "advance count u =
     u\<lparr>un_rest := (case str_get_from (un_rest u) count of Some r \<Rightarrow> r | None \<Rightarrow> []),
       un_offset := un_offset u + count\<rparr>"

definition hex_nibble :: "char \<Rightarrow> nat option" where
  "hex_nibble digit =
     (let d = byte_val digit in
      if 0x30 \<le> d \<and> d \<le> 0x39 then Some (d - 0x30)
      else if 0x61 \<le> d \<and> d \<le> 0x66 then Some (d - 0x61 + 10)
      else if 0x41 \<le> d \<and> d \<le> 0x46 then Some (d - 0x41 + 10)
      else None)"

fun hex_value :: "nat \<Rightarrow> string \<Rightarrow> nat option" where
  "hex_value value [] = Some value"
| "hex_value value (digit # digits) =
     (case hex_nibble digit of None \<Rightarrow> None
      | Some nibble \<Rightarrow> hex_value (push_bit 4 value OR nibble) digits)"

definition hex4 :: "unescape \<Rightarrow> nat \<Rightarrow> json_error + nat" where
  "hex4 u at =
     (case get_range (un_rest u) at (at + 4) of
        None \<Rightarrow> Inl (JError InvalidEscape (un_offset u))
      | Some digits \<Rightarrow>
          (case hex_value 0 digits of
             None \<Rightarrow> Inl (JError InvalidEscape (un_offset u))
           | Some value \<Rightarrow> Inr value))"

definition decode_unicode_escape :: "unescape \<Rightarrow> (json_error + scalar) \<times> unescape" where
  "decode_unicode_escape u =
     (case hex4 u 2 of Inl e \<Rightarrow> (Inl e, u)
      | Inr leading \<Rightarrow>
          if 0xD800 \<le> leading \<and> leading < 0xDC00 then
            if get_range (un_rest u) 6 8 \<noteq> Some [CHR 0x5C, CHR ''u'']
            then (Inl (JError LoneSurrogate (un_offset u)), u)
            else (case hex4 u 8 of Inl e \<Rightarrow> (Inl e, u)
              | Inr trailing \<Rightarrow>
                  if \<not> (0xDC00 \<le> trailing \<and> trailing < 0xE000)
                  then (Inl (JError LoneSurrogate (un_offset u)), u)
                  else (case from_u32 (0x10000 + push_bit 10 (leading - 0xD800) + (trailing - 0xDC00)) of
                      None \<Rightarrow> (Inl (JError LoneSurrogate (un_offset u)), u)
                    | Some character \<Rightarrow> (Inr character, advance 12 u)))
          else if 0xDC00 \<le> leading \<and> leading < 0xE000
          then (Inl (JError LoneSurrogate (un_offset u)), u)
          else (case from_u32 leading of
              None \<Rightarrow> (Inl (JError LoneSurrogate (un_offset u)), u)
            | Some character \<Rightarrow> (Inr character, advance 6 u)))"

definition simple_escape :: "char \<Rightarrow> scalar option" where
  "simple_escape e =
     (if e = CHR 0x22 then Some 0x22
      else if e = CHR 0x5C then Some 0x5C
      else if e = CHR ''/'' then Some 0x2F
      else if e = CHR ''b'' then Some 0x08
      else if e = CHR ''f'' then Some 0x0C
      else if e = CHR ''n'' then Some 0x0A
      else if e = CHR ''r'' then Some 0x0D
      else if e = CHR ''t'' then Some 0x09
      else None)"

definition un_step :: "unescape \<Rightarrow> (json_error + scalar) option \<times> unescape" where
  "un_step u =
     (case next_char (un_rest u) of None \<Rightarrow> (None, u)
      | Some character \<Rightarrow>
          if character \<noteq> 0x5C then (Some (Inr character), advance (len_utf8 character) u)
          else (case get_at (un_rest u) 1 of
              None \<Rightarrow> (Some (Inl (JError InvalidEscape (un_offset u))), u)
            | Some escape \<Rightarrow>
                if escape = CHR ''u''
                then (case decode_unicode_escape u of (r, u') \<Rightarrow> (Some r, u'))
                else (case simple_escape escape of
                    None \<Rightarrow> (Some (Inl (JError InvalidEscape (un_offset u))), u)
                  | Some simple \<Rightarrow> (Some (Inr simple), advance 2 u))))"

definition un_next :: "unescape \<Rightarrow> (json_error + scalar) option \<times> unescape" where
  "un_next u =
     (case un_step u of
        (Some (Inl e), u') \<Rightarrow> (Some (Inl e), u'\<lparr>un_rest := []\<rparr>)
      | r \<Rightarrow> r)"

lemma length_advance_less:
  "un_rest u \<noteq> [] \<Longrightarrow> 0 < n \<Longrightarrow> length (un_rest (advance n u)) < length (un_rest u)"
  by (auto simp: advance_def str_get_from_def)

lemma un_next_shrinks:
  assumes "un_next u = (Some r, u')"
  shows "length (un_rest u') < length (un_rest u)"
proof -
  from assms have "un_rest u \<noteq> []"
    by (auto simp: un_next_def un_step_def)
  then show ?thesis using assms
    by (auto simp: un_next_def un_step_def decode_unicode_escape_def length_advance_less
        split: option.splits if_splits sum.splits prod.splits)
qed

function un_items :: "unescape \<Rightarrow> (json_error + scalar) list" where
  "un_items u = (case un_next u of (None, _) \<Rightarrow> [] | (Some r, u') \<Rightarrow> r # un_items u')"
  by auto
termination
  by (relation "measure (\<lambda>u. length (un_rest u))") (auto dest: un_next_shrinks [OF sym])

declare un_items.simps [simp del]

section \<open>\<open>EscapeString\<close>\<close>

record escape_string =
  es_raw :: string

definition es_new :: "string \<Rightarrow> escape_string" where
  "es_new raw = \<lparr>es_raw = raw\<rparr>"

definition as_raw_str :: "escape_string \<Rightarrow> string" where
  "as_raw_str s = es_raw s"

definition raw_len :: "escape_string \<Rightarrow> nat" where
  "raw_len s = length (es_raw s)"

definition es_unescape :: "escape_string \<Rightarrow> unescape" where
  "es_unescape s = \<lparr>un_rest = es_raw s, un_offset = 0\<rparr>"

function eq_unescaped_loop :: "unescape \<Rightarrow> scalar list \<Rightarrow> bool" where
  "eq_unescaped_loop u expected =
     (case un_next u of
        (None, _) \<Rightarrow> expected = []
      | (Some (Inl _), _) \<Rightarrow> False
      | (Some (Inr actual), u') \<Rightarrow>
          (case expected of [] \<Rightarrow> False
           | wanted # expected' \<Rightarrow>
               if actual = wanted then eq_unescaped_loop u' expected' else False))"
  by auto
termination
  by (relation "measure (\<lambda>(u, _). length (un_rest u))") (auto dest: un_next_shrinks [OF sym])

declare eq_unescaped_loop.simps [simp del]

definition eq_unescaped :: "escape_string \<Rightarrow> string \<Rightarrow> bool" where
  "eq_unescaped s other = eq_unescaped_loop (es_unescape s) (str_chars other)"

text \<open>
  \<open>unescape_into\<close> returns the updated buffer and, unless the last \<open>expect\<close> panics,
  the error or the decoded text. \<open>get_mut(written..end)\<close> fails when the range is not in
  the buffer.
\<close>

function unescape_into_loop ::
    "unescape \<Rightarrow> string \<Rightarrow> nat \<Rightarrow> string \<times> (json_error + nat)" where
  "unescape_into_loop u buffer written =
     (case un_next u of
        (None, _) \<Rightarrow> (buffer, Inr written)
      | (Some (Inl e), _) \<Rightarrow> (buffer, Inl e)
      | (Some (Inr character), u') \<Rightarrow>
          (let bytes = encode_utf8 character; end = written + length bytes in
           if end \<le> length buffer
           then unescape_into_loop u' (take written buffer @ bytes @ drop end buffer) end
           else (buffer, Inl (JError BufferTooSmall written))))"
  by auto
termination
  by (relation "measure (\<lambda>(u, _). length (un_rest u))") (auto dest: un_next_shrinks [OF sym])

declare unescape_into_loop.simps [simp del]

definition unescape_into ::
    "escape_string \<Rightarrow> string \<Rightarrow> string \<times> (json_error + string) may_panic" where
  "unescape_into s buffer =
     (case unescape_into_loop (es_unescape s) buffer 0 of
        (buffer', Inl e) \<Rightarrow> (buffer', Inr (Inl e))
      | (buffer', Inr written) \<Rightarrow>
          if written \<le> length buffer' then
            (buffer', if valid_utf8 (take written buffer')
                      then Inr (Inr (take written buffer'))
                      else Inl (Panic ''unescaping writes whole characters''))
          else (buffer', Inr (Inl (JError BufferTooSmall written))))"

section \<open>The grammar of escaped bodies\<close>

text \<open>
  RFC 8259 builds a string body from pieces: an unescaped character, a two-character
  escape, a \<open>\u\<close> escape that names a scalar value, and a surrogate pair of two \<open>\u\<close>
  escapes. \<open>piece_text\<close> is the source form and \<open>piece_value\<close> the character it names.
\<close>

datatype piece = Plain scalar | Simple char | Unicode string | Pair string string

definition hex_num :: "string \<Rightarrow> nat" where
  "hex_num ds = foldl (\<lambda>v d. 16 * v + (case hex_nibble d of Some n \<Rightarrow> n | None \<Rightarrow> 0)) 0 ds"

definition hex_quad :: "string \<Rightarrow> bool" where
  "hex_quad ds \<longleftrightarrow> length ds = 4 \<and> list_all (\<lambda>d. hex_nibble d \<noteq> None) ds"

definition is_high :: "nat \<Rightarrow> bool" where "is_high n \<longleftrightarrow> 0xD800 \<le> n \<and> n < 0xDC00"

definition is_low :: "nat \<Rightarrow> bool" where "is_low n \<longleftrightarrow> 0xDC00 \<le> n \<and> n < 0xE000"

fun piece_ok :: "piece \<Rightarrow> bool" where
  "piece_ok (Plain c) \<longleftrightarrow> is_scalar c \<and> c \<noteq> 0x5C"
| "piece_ok (Simple e) \<longleftrightarrow> simple_escape e \<noteq> None"
| "piece_ok (Unicode ds) \<longleftrightarrow> hex_quad ds \<and> \<not> is_high (hex_num ds) \<and> \<not> is_low (hex_num ds)"
| "piece_ok (Pair hs ls) \<longleftrightarrow>
     hex_quad hs \<and> hex_quad ls \<and> is_high (hex_num hs) \<and> is_low (hex_num ls)"

fun piece_text :: "piece \<Rightarrow> string" where
  "piece_text (Plain c) = encode_utf8 c"
| "piece_text (Simple e) = [CHR 0x5C, e]"
| "piece_text (Unicode ds) = CHR 0x5C # CHR ''u'' # ds"
| "piece_text (Pair hs ls) = CHR 0x5C # CHR ''u'' # hs @ CHR 0x5C # CHR ''u'' # ls"

fun piece_value :: "piece \<Rightarrow> scalar" where
  "piece_value (Plain c) = c"
| "piece_value (Simple e) = (case simple_escape e of Some c \<Rightarrow> c | None \<Rightarrow> 0)"
| "piece_value (Unicode ds) = hex_num ds"
| "piece_value (Pair hs ls) = 0x10000 + (hex_num hs - 0xD800) * 1024 + (hex_num ls - 0xDC00)"

definition body_text :: "piece list \<Rightarrow> string" where
  "body_text ps = concat (map piece_text ps)"

lemma body_text_simps [simp]:
  "body_text [] = []" "body_text (p # ps) = piece_text p @ body_text ps"
  by (simp_all add: body_text_def)

subsection \<open>Hexadecimal numbers\<close>

lemma hex_nibble_less: "hex_nibble d = Some n \<Longrightarrow> n < 16"
  by (auto simp: hex_nibble_def Let_def split: if_splits)

lemma hex_nibble_ascii: "hex_nibble d = Some n \<Longrightarrow> byte_val d < 128"
  by (auto simp: hex_nibble_def Let_def split: if_splits)

lemma shift_or_nibble:
  assumes "n < 16"
  shows "push_bit 4 v OR n = 16 * v + (n :: nat)"
proof -
  have "push_bit 4 v AND n = 0"
  proof (rule bit_eqI)
    fix k
    have "n div 2 ^ k = 0" if "4 \<le> k"
    proof -
      have "(2 :: nat) ^ 4 \<le> 2 ^ k" using that by (rule power_increasing) simp
      with assms show ?thesis by simp
    qed
    then show "bit (push_bit 4 v AND n) k \<longleftrightarrow> bit (0 :: nat) k"
      by (auto simp: bit_simps) (simp add: bit_iff_odd)
  qed
  then have "push_bit 4 v OR n = push_bit 4 v + n"
    by (simp add: disjunctive_add_eq_or)
  then show ?thesis by (simp add: push_bit_eq_mult)
qed

lemma hex_value_foldl:
  "list_all (\<lambda>d. hex_nibble d \<noteq> None) ds \<Longrightarrow>
   hex_value v ds = Some (foldl (\<lambda>v d. 16 * v + (case hex_nibble d of Some n \<Rightarrow> n | None \<Rightarrow> 0)) v ds)"
  by (induction ds arbitrary: v) (auto simp: shift_or_nibble hex_nibble_less)

lemma hex_value_Some_iff: "(\<exists>n. hex_value v ds = Some n) \<longleftrightarrow> list_all (\<lambda>d. hex_nibble d \<noteq> None) ds"
  by (induction ds arbitrary: v) (auto split: option.splits)

lemma hex_value_quad [simp]: "hex_quad ds \<Longrightarrow> hex_value 0 ds = Some (hex_num ds)"
  by (simp add: hex_quad_def hex_num_def hex_value_foldl)

lemma hex_num_less:
  assumes "hex_quad ds"
  shows "hex_num ds < 0x10000"
proof -
  have *: "hex_value v ds = Some n \<Longrightarrow> n < (v + 1) * 16 ^ length ds" for v n and ds :: string
  proof (induction ds arbitrary: v)
    case (Cons d ds)
    then obtain k where k: "hex_nibble d = Some k" "k < 16"
      and "hex_value (16 * v + k) ds = Some n"
      by (auto simp: hex_nibble_less shift_or_nibble split: option.splits)
    then have "n < (16 * v + k + 1) * 16 ^ length ds" using Cons.IH by blast
    also have "\<dots> \<le> (v + 1) * 16 * 16 ^ length ds" using k(2) by (intro mult_right_mono) simp_all
    finally show ?case by (simp add: algebra_simps)
  qed simp
  from assms have "length ds = 4" by (simp add: hex_quad_def)
  with * [OF hex_value_quad [OF assms]] show ?thesis by simp
qed

lemma hex_quad_valid [simp]: "hex_quad ds \<Longrightarrow> valid_utf8 (ds @ s) \<longleftrightarrow> valid_utf8 s"
  by (rule valid_utf8_append, rule valid_utf8_all_ascii)
     (auto simp: hex_quad_def list_all_iff dest!: hex_nibble_ascii)

lemma length_hex_quad [simp]: "hex_quad ds \<Longrightarrow> length ds = 4"
  by (simp add: hex_quad_def)

subsection \<open>One item of the iterator is one piece\<close>

lemma advance_append:
  assumes "valid_utf8 t" and "length p = n"
  shows "advance n \<lparr>un_rest = p @ t, un_offset = k\<rparr> = \<lparr>un_rest = t, un_offset = k + n\<rparr>"
  using assms by (auto simp: advance_def)

lemma hex4_quad:
  assumes "un_rest u = p @ ds @ t" and "length p = at" and "hex_quad ds"
  shows "hex4 u at = Inr (hex_num ds)"
  using assms by (auto simp: hex4_def get_range_def)

lemma pair_value_scalar:
  "is_high h \<Longrightarrow> is_low l \<Longrightarrow> is_scalar (0x10000 + (h - 0xD800) * 1024 + (l - 0xDC00))"
  unfolding is_high_def is_low_def is_scalar_def by linarith

lemma simple_escape_facts:
  "simple_escape e = Some c \<Longrightarrow> e \<noteq> CHR ''u'' \<and> byte_val e < 128 \<and> c < 128"
  by (auto simp: simple_escape_def split: if_splits)

lemma piece_value_scalar:
  assumes "piece_ok p"
  shows "is_scalar (piece_value p)"
proof (cases p)
  case (Simple e)
  with assms show ?thesis using simple_escape_facts [of e] by (auto simp: is_scalar_def)
next
  case (Unicode ds)
  with assms show ?thesis
    using hex_num_less [of ds] by (auto simp: is_high_def is_low_def is_scalar_def)
next
  case (Pair hs ls)
  with assms show ?thesis by (simp add: pair_value_scalar)
qed (use assms in simp)

lemma piece_text_valid: "piece_ok p \<Longrightarrow> valid_utf8 (piece_text p @ t) \<longleftrightarrow> valid_utf8 t"
  by (cases p) (auto dest: simple_escape_facts)

lemma piece_value_le:
  assumes "piece_ok p"
  shows "len_utf8 (piece_value p) \<le> length (piece_text p)"
proof (cases p)
  case (Simple e)
  with assms show ?thesis using simple_escape_facts [of e] by (auto simp: len_utf8_def)
next
  case (Unicode ds)
  with assms show ?thesis using hex_num_less [of ds] by (simp add: len_utf8_def)
next
  case (Pair hs ls)
  with assms show ?thesis using len_utf8_le_4 [of "piece_value p"] by simp
qed simp

lemma un_next_plain:
  assumes "is_scalar c" "c \<noteq> 0x5C" "valid_utf8 t"
  shows "un_next \<lparr>un_rest = encode_utf8 c @ t, un_offset = k\<rparr>
       = (Some (Inr c), \<lparr>un_rest = t, un_offset = k + len_utf8 c\<rparr>)"
  using assms by (simp add: un_next_def un_step_def advance_append)

lemma un_next_simple:
  assumes "simple_escape e = Some c" "valid_utf8 t"
  shows "un_next \<lparr>un_rest = CHR 0x5C # e # t, un_offset = k\<rparr>
       = (Some (Inr c), \<lparr>un_rest = t, un_offset = k + 2\<rparr>)"
  using assms advance_append [of t "[CHR 0x5C, e]" 2 k] simple_escape_facts [OF assms(1)]
  by (simp add: un_next_def un_step_def get_at_def)

lemma un_next_unicode:
  assumes "hex_quad ds" "\<not> is_high (hex_num ds)" "\<not> is_low (hex_num ds)" "valid_utf8 t"
  shows "un_next \<lparr>un_rest = CHR 0x5C # CHR ''u'' # ds @ t, un_offset = k\<rparr>
       = (Some (Inr (hex_num ds)), \<lparr>un_rest = t, un_offset = k + 6\<rparr>)"
proof -
  let ?u = "\<lparr>un_rest = CHR 0x5C # CHR ''u'' # ds @ t, un_offset = k\<rparr>"
  have "hex4 ?u 2 = Inr (hex_num ds)"
    using assms(1) by (intro hex4_quad [of _ "[CHR 0x5C, CHR ''u'']"]) simp_all
  moreover have "advance 6 ?u = \<lparr>un_rest = t, un_offset = k + 6\<rparr>"
    using assms advance_append [of t "CHR 0x5C # CHR ''u'' # ds" 6 k] by simp
  moreover have "is_scalar (hex_num ds)"
    using piece_value_scalar [of "Unicode ds"] assms by simp
  ultimately have "decode_unicode_escape ?u = (Inr (hex_num ds), \<lparr>un_rest = t, un_offset = k + 6\<rparr>)"
    using assms(2,3) unfolding is_high_def is_low_def
    by (auto simp: decode_unicode_escape_def from_u32_def)
  then show ?thesis by (simp add: un_next_def un_step_def get_at_def)
qed

lemma un_next_pair:
  assumes "hex_quad hs" "hex_quad ls" "is_high (hex_num hs)" "is_low (hex_num ls)" "valid_utf8 t"
  shows "un_next \<lparr>un_rest = piece_text (Pair hs ls) @ t, un_offset = k\<rparr>
       = (Some (Inr (piece_value (Pair hs ls))), \<lparr>un_rest = t, un_offset = k + 12\<rparr>)"
proof -
  let ?u = "\<lparr>un_rest = piece_text (Pair hs ls) @ t, un_offset = k\<rparr>"
  have "hex4 ?u 2 = Inr (hex_num hs)"
    using assms(1) by (intro hex4_quad [of _ "[CHR 0x5C, CHR ''u'']"]) simp_all
  moreover have "hex4 ?u 8 = Inr (hex_num ls)"
    using assms(1,2)
    by (intro hex4_quad [of _ "CHR 0x5C # CHR ''u'' # hs @ [CHR 0x5C, CHR ''u'']"]) simp_all
  moreover have "get_range (un_rest ?u) 6 8 = Some [CHR 0x5C, CHR ''u'']"
    using assms(1,2) by (simp add: get_range_def)
  moreover have "advance 12 ?u = \<lparr>un_rest = t, un_offset = k + 12\<rparr>"
    using assms by (intro advance_append) simp_all
  ultimately have "decode_unicode_escape ?u
      = (Inr (piece_value (Pair hs ls)), \<lparr>un_rest = t, un_offset = k + 12\<rparr>)"
    using assms(3,4) pair_value_scalar [OF assms(3,4)] unfolding is_high_def is_low_def
    by (simp add: decode_unicode_escape_def from_u32_def push_bit_eq_mult del: piece_text.simps)
  then show ?thesis by (simp add: un_next_def un_step_def get_at_def)
qed

lemma un_next_piece:
  assumes "piece_ok p" "valid_utf8 t"
  shows "un_next \<lparr>un_rest = piece_text p @ t, un_offset = k\<rparr>
       = (Some (Inr (piece_value p)), \<lparr>un_rest = t, un_offset = k + length (piece_text p)\<rparr>)"
  using assms un_next_plain un_next_simple un_next_unicode un_next_pair
  by (cases p) auto

lemma hex4_InrE:
  assumes "hex4 u at = Inr v"
  obtains ds where "hex_quad ds" "v = hex_num ds"
    "un_rest u = take at (un_rest u) @ ds @ drop (at + 4) (un_rest u)"
proof -
  let ?ds = "take 4 (drop at (un_rest u))"
  from assms have len: "at + 4 \<le> length (un_rest u)" and v: "hex_value 0 ?ds = Some v"
    by (auto simp: hex4_def get_range_def split: option.splits if_splits)
  then have quad: "hex_quad ?ds"
    using hex_value_Some_iff [of 0 ?ds] by (auto simp: hex_quad_def)
  show thesis
  proof (rule that [OF quad])
    show "v = hex_num ?ds" using v quad by simp
    have "drop at (un_rest u) = ?ds @ drop (at + 4) (un_rest u)"
      by (metis add.commute append_take_drop_id drop_drop)
    then show "un_rest u = take at (un_rest u) @ ?ds @ drop (at + 4) (un_rest u)"
      by (metis append_take_drop_id)
  qed
qed

lemma get_range_append_eq:
  assumes "get_range (p @ s) (length p) (length p + length m) = Some m"
  shows "\<exists>t. s = m @ t"
proof
  from assms have "take (length m) s = m" by (auto simp: get_range_def split: if_splits)
  then show "s = m @ drop (length m) s" by (metis append_take_drop_id)
qed

lemma decode_unicode_escape_InrE:
  assumes "un_rest u = CHR 0x5C # CHR ''u'' # r" and "valid_utf8 r"
    and "decode_unicode_escape u = (Inr c, u')"
  obtains p t where "piece_ok p" "un_rest u = piece_text p @ t" "valid_utf8 t"
proof -
  from assms(3) obtain lead where lead: "hex4 u 2 = Inr lead"
    by (auto simp: decode_unicode_escape_def split: sum.splits)
  then obtain hs where hs: "hex_quad hs" "lead = hex_num hs"
    "un_rest u = take 2 (un_rest u) @ hs @ drop (2 + 4) (un_rest u)"
    by (rule hex4_InrE)
  with assms(1) obtain t where r: "r = hs @ t" by auto
  with assms(2) hs(1) have t: "valid_utf8 t" by simp
  show thesis
  proof (cases "is_high lead")
    case False
    with assms(3) lead have "\<not> is_low lead"
      by (auto simp: decode_unicode_escape_def is_high_def is_low_def split: if_splits)
    with False hs(1,2) r t assms(1) show thesis
      by (intro that [of "Unicode hs" t]) simp_all
  next
    case True
    from True assms(3) lead have "get_range (un_rest u) 6 8 = Some [CHR 0x5C, CHR ''u'']"
      by (auto simp: decode_unicode_escape_def is_high_def split: if_splits)
    then have "\<exists>t2. t = [CHR 0x5C, CHR ''u''] @ t2"
      using get_range_append_eq [of "CHR 0x5C # CHR ''u'' # hs" t "[CHR 0x5C, CHR ''u'']"]
        assms(1) r hs(1) by simp
    then obtain t2 where t2: "t = CHR 0x5C # CHR ''u'' # t2" by auto
    from True assms(3) lead obtain trail where trail: "hex4 u 8 = Inr trail" "is_low trail"
      by (auto simp: decode_unicode_escape_def is_high_def is_low_def
          split: if_splits sum.splits)
    from trail(1) obtain ls where ls: "hex_quad ls" "trail = hex_num ls"
      "un_rest u = take 8 (un_rest u) @ ls @ drop (8 + 4) (un_rest u)"
      by (rule hex4_InrE)
    then obtain t3 where t3: "t2 = ls @ t3" using assms(1) r hs(1) t2 by auto
    with t t2 ls(1) have "valid_utf8 t3" by simp
    then show thesis using True trail(2) hs(1,2) ls(1,2) assms(1) r t2 t3
      by (intro that [of "Pair hs ls" t3]) simp_all
  qed
qed

lemma un_next_InrE:
  assumes "valid_utf8 (un_rest u)" and "un_next u = (Some (Inr c), u')"
  obtains p where "piece_ok p" "c = piece_value p" "un_rest u = piece_text p @ un_rest u'"
    "valid_utf8 (un_rest u')"
proof -
  have "\<exists>p t. piece_ok p \<and> un_rest u = piece_text p @ t \<and> valid_utf8 t"
    using assms(1)
  proof (cases rule: valid_utf8E)
    case empty
    with assms(2) show ?thesis by (simp add: un_next_def un_step_def)
  next
    case (char d r)
    show ?thesis
    proof (cases "d = 0x5C")
      case False
      with char show ?thesis by (intro exI [of _ "Plain d"]) auto
    next
      case True
      with char have u: "un_rest u = CHR 0x5C # r" by (simp add: encode_utf8_def)
      with assms(2) obtain e t where r: "r = e # t"
        by (cases r) (auto simp: un_next_def un_step_def get_at_def split: if_splits)
      show ?thesis
      proof (cases "e = CHR ''u''")
        case True
        with u r assms(2) have "decode_unicode_escape u = (Inr c, u')"
          by (auto simp: un_next_def un_step_def get_at_def split: prod.splits sum.splits)
        moreover from True r u char(3) have "un_rest u = CHR 0x5C # CHR ''u'' # t" "valid_utf8 t"
          by simp_all
        ultimately show ?thesis by (metis decode_unicode_escape_InrE)
      next
        case False
        with u r assms(2) have "simple_escape e \<noteq> None"
          by (auto simp: un_next_def un_step_def get_at_def split: option.splits)
        with u r char(3) show ?thesis
          by (intro exI [of _ "Simple e"] exI [of _ t]) (auto dest: simple_escape_facts)
      qed
    qed
  qed
  then obtain p t where p: "piece_ok p" "un_rest u = piece_text p @ t" "valid_utf8 t" by blast
  then have "un_next u = (Some (Inr (piece_value p)),
      \<lparr>un_rest = t, un_offset = un_offset u + length (piece_text p)\<rparr>)"
    using un_next_piece [of p t "un_offset u"] by (cases u) simp
  with assms(2) p show thesis by (intro that) auto
qed

section \<open>Correctness of the decoder\<close>

fun first_error :: "(json_error + 'a) list \<Rightarrow> json_error option" where
  "first_error [] = None"
| "first_error (Inl e # _) = Some e"
| "first_error (Inr _ # rs) = first_error rs"

definition decoded :: "(json_error + scalar) list \<Rightarrow> scalar list" where
  "decoded rs = concat (map (\<lambda>r. case r of Inr c \<Rightarrow> [c] | Inl _ \<Rightarrow> []) rs)"

lemma decoded_simps [simp]:
  "decoded [] = []" "decoded (Inr c # rs) = c # decoded rs" "decoded (Inl e # rs) = decoded rs"
  by (simp_all add: decoded_def)

lemma un_items_error:
  assumes "un_next u = (Some (Inl e), u')"
  shows "un_items u = [Inl e]"
proof -
  from assms have "un_rest u' = []"
    by (auto simp: un_next_def split: prod.splits option.splits sum.splits)
  then have "un_next u' = (None, u')" by (simp add: un_next_def un_step_def)
  then have "un_items u' = []" by (subst un_items.simps) simp
  with assms show ?thesis by (subst un_items.simps) simp
qed

lemma un_items_pieces:
  assumes "list_all piece_ok ps" and "valid_utf8 t"
  shows "un_items \<lparr>un_rest = body_text ps @ t, un_offset = k\<rparr>
       = map (Inr \<circ> piece_value) ps
         @ un_items \<lparr>un_rest = t, un_offset = k + length (body_text ps)\<rparr>"
  using assms
proof (induction ps arbitrary: k)
  case (Cons p ps)
  have "valid_utf8 (body_text ps @ t)" using Cons.prems
    by (induction ps) (simp_all add: piece_text_valid)
  then show ?case using Cons
    by (subst un_items.simps) (simp add: un_next_piece add.assoc)
qed simp

lemma un_items_empty [simp]: "un_items \<lparr>un_rest = [], un_offset = k\<rparr> = []"
  by (subst un_items.simps) (simp add: un_next_def un_step_def)

lemma un_next_None_iff: "fst (un_next u) = None \<longleftrightarrow> next_char (un_rest u) = None"
  by (simp add: un_next_def un_step_def split: option.split prod.split sum.split)

lemma un_items_sound:
  assumes "valid_utf8 (un_rest u)" and "un_items u = map Inr cs"
  shows "\<exists>ps. list_all piece_ok ps \<and> un_rest u = body_text ps \<and> map piece_value ps = cs"
  using assms
proof (induction u arbitrary: cs rule: un_items.induct)
  case (1 u)
  show ?case
  proof (cases "un_next u")
    case (Pair r u')
    show ?thesis
    proof (cases r)
      case None
      with Pair un_next_None_iff [of u] have "next_char (un_rest u) = None" by simp
      with 1(2) have "un_rest u = []" by (cases rule: valid_utf8E) simp_all
      moreover have "cs = []" using 1(3) Pair None by (subst (asm) un_items.simps) simp
      ultimately show ?thesis by (intro exI [of _ "[]"]) simp
    next
      case (Some v)
      with 1(3) Pair obtain c cs' where c: "v = Inr c" "cs = c # cs'" "un_items u' = map Inr cs'"
        by (subst (asm) un_items.simps) (auto simp: Cons_eq_map_conv)
      from 1(2) Pair Some c(1) obtain p where p: "piece_ok p" "c = piece_value p"
        "un_rest u = piece_text p @ un_rest u'" "valid_utf8 (un_rest u')"
        by (auto elim: un_next_InrE)
      from 1(1) [OF Pair [symmetric] Some p(4) c(3)] obtain ps where
        "list_all piece_ok ps" "un_rest u' = body_text ps" "map piece_value ps = cs'" by blast
      with p c show ?thesis by (intro exI [of _ "p # ps"]) simp
    qed
  qed
qed

text \<open>
  C12: The decoder accepts exactly the grammar. On a UTF-8 body, exhausting the iterator yields
  the characters \<open>cs\<close> with no error if and only if the body is a concatenation of plain
  characters, two-character escapes, \<open>\u\<close> escapes of scalar values and surrogate pairs
  that name \<open>cs\<close>.
\<close>

theorem unescape_iff_grammar:
  assumes "valid_utf8 raw"
  shows "un_items (es_unescape (es_new raw)) = map Inr cs \<longleftrightarrow>
    (\<exists>ps. list_all piece_ok ps \<and> raw = body_text ps \<and> map piece_value ps = cs)"
proof
  assume "un_items (es_unescape (es_new raw)) = map Inr cs"
  with assms un_items_sound [of "es_unescape (es_new raw)" cs]
  show "\<exists>ps. list_all piece_ok ps \<and> raw = body_text ps \<and> map piece_value ps = cs"
    by (simp add: es_unescape_def es_new_def)
next
  assume "\<exists>ps. list_all piece_ok ps \<and> raw = body_text ps \<and> map piece_value ps = cs"
  then obtain ps where "list_all piece_ok ps" "raw = body_text ps" "map piece_value ps = cs"
    by blast
  then show "un_items (es_unescape (es_new raw)) = map Inr cs"
    using un_items_pieces [of ps "[]" 0] by (auto simp: es_unescape_def es_new_def)
qed

theorem unescape_iff_grammar_witness:
  "un_items (es_unescape (es_new (CHR 0x5C # ''ud83d'' @ CHR 0x5C # ''ude00''))) = map Inr [0x1F600]"
proof (rule unescape_iff_grammar [THEN iffD2])
  show "valid_utf8 (CHR 0x5C # ''ud83d'' @ CHR 0x5C # ''ude00'')"
    by (rule valid_utf8_all_ascii) simp
  have "hex_quad ''d83d''" "hex_quad ''de00''"
    by (simp_all add: hex_quad_def hex_nibble_def)
  moreover have "hex_num ''d83d'' = 0xD83D" "hex_num ''de00'' = 0xDE00"
    by (simp_all add: hex_num_def hex_nibble_def)
  ultimately show "\<exists>ps. list_all piece_ok ps \<and>
      CHR 0x5C # ''ud83d'' @ CHR 0x5C # ''ude00'' = body_text ps \<and> map piece_value ps = [0x1F600]"
    by (intro exI [of _ "[Pair ''d83d'' ''de00'']"]) (simp add: is_high_def is_low_def)
qed

text \<open>
  Collected behaviour of \<open>eq_unescaped\<close> and \<open>unescape_into\<close> in terms of the items of
  the iterator.
\<close>

lemma eq_unescaped_loop_items:
  "eq_unescaped_loop u cs \<longleftrightarrow> un_items u = map Inr cs"
proof (induction u cs rule: eq_unescaped_loop.induct)
  case (1 u cs)
  obtain r u' where nx: "un_next u = (r, u')" by (cases "un_next u")
  consider "r = None" | e where "r = Some (Inl e)" | c where "r = Some (Inr c)"
    by (cases r) (auto elim: sumE)
  then show ?case
  proof cases
    case 1
    with nx show ?thesis by (subst eq_unescaped_loop.simps, subst un_items.simps) auto
  next
    case 2
    with nx show ?thesis by (subst eq_unescaped_loop.simps, subst un_items.simps) auto
  next
    case 3
    with 1 [OF nx [symmetric]] nx show ?thesis
      by (subst eq_unescaped_loop.simps, subst un_items.simps) (cases cs; auto)
  qed
qed

lemma unescape_into_loop_items:
  assumes "valid_utf8 (un_rest u)" and "length w = n" and "length (un_rest u) \<le> length rest"
  shows "case unescape_into_loop u (w @ rest) n of
      (b, r) \<Rightarrow> (case first_error (un_items u) of
          Some e \<Rightarrow> r = Inl e
        | None \<Rightarrow> \<exists>tl. b = (w @ utf8 (decoded (un_items u))) @ tl
                 \<and> r = Inr (n + length (utf8 (decoded (un_items u)))))
      \<and> length b = length w + length rest"
  using assms
proof (induction u "w @ rest" n arbitrary: w rest rule: unescape_into_loop.induct)
  case (1 u n)
  show ?case
  proof (cases "un_next u")
    case (Pair r u')
    consider "r = None" | e where "r = Some (Inl e)" | c where "r = Some (Inr c)"
      by (cases r) (auto elim: sumE)
    then show ?thesis
    proof cases
      case 1
      with Pair \<open>length w = n\<close> show ?thesis
        by (subst unescape_into_loop.simps, subst (1 2 3) un_items.simps) simp
    next
      case (2 e)
      with Pair show ?thesis
        by (subst unescape_into_loop.simps) (simp add: un_items_error)
    next
      case (3 c)
      from 1(2) Pair 3 obtain p where p: "c = piece_value p" "piece_ok p"
        "un_rest u = piece_text p @ un_rest u'" "valid_utf8 (un_rest u')"
        by (auto elim: un_next_InrE)
      then have len: "len_utf8 c + length (un_rest u') \<le> length (un_rest u)"
        using piece_value_le [of p] by simp
      let ?rest = "drop (len_utf8 c) rest"
      have buf: "take n (w @ rest) @ encode_utf8 c @ drop (n + len_utf8 c) (w @ rest)
          = (w @ encode_utf8 c) @ ?rest"
        using 1(3) by simp
      have fits: "n + len_utf8 c \<le> length (w @ rest)" using 1(3,4) len by simp
      have items: "un_items u = Inr c # un_items u'" using Pair 3 by (subst un_items.simps) simp
      have "length (un_rest u') \<le> length ?rest" using 1(4) len by simp
      note IH = 1(1) [OF Pair [symmetric] 3 refl refl refl _ _ p(4) _ this, of "w @ encode_utf8 c"]
      show ?thesis
        using IH Pair 3 fits buf items 1(3,4) len
        by (subst unescape_into_loop.simps)
           (cases "first_error (un_items u')", auto simp: Let_def add.assoc split: prod.splits)
    qed
  qed
qed

lemma un_next_error_kind:
  assumes "un_next u = (Some (Inl e), u')"
  shows "err_kind e \<in> {InvalidEscape, LoneSurrogate}"
  using assms
  by (auto simp: un_next_def un_step_def decode_unicode_escape_def hex4_def
      split: option.splits if_splits sum.splits prod.splits)

lemma un_items_facts:
  assumes "valid_utf8 (un_rest u)"
  shows "list_all is_scalar (decoded (un_items u)) \<and>
    length (utf8 (decoded (un_items u))) \<le> length (un_rest u) \<and>
    (case first_error (un_items u) of
       Some e \<Rightarrow> err_kind e \<in> {InvalidEscape, LoneSurrogate}
     | None \<Rightarrow> un_items u = map Inr (decoded (un_items u)))"
  using assms
proof (induction u rule: un_items.induct)
  case (1 u)
  obtain r u' where nx: "un_next u = (r, u')" by (cases "un_next u")
  consider "r = None" | e where "r = Some (Inl e)" | c where "r = Some (Inr c)"
    by (cases r) (auto elim: sumE)
  then show ?case
  proof cases
    case 1
    with nx have "un_items u = []" by (subst un_items.simps) simp
    then show ?thesis by simp
  next
    case (2 e)
    with nx have "un_items u = [Inl e]" by (simp add: un_items_error)
    then show ?thesis using un_next_error_kind nx 2 by simp
  next
    case (3 c)
    from 1(2) nx 3 obtain p where p: "piece_ok p" "c = piece_value p"
      "un_rest u = piece_text p @ un_rest u'" "valid_utf8 (un_rest u')"
      by (auto elim: un_next_InrE)
    from nx 3 have "un_items u = Inr c # un_items u'" by (subst un_items.simps) simp
    with 1(1) [OF nx [symmetric] 3 p(4)] p piece_value_scalar [OF p(1)] piece_value_le [OF p(1)]
    show ?thesis by (auto split: option.splits)
  qed
qed

lemma unescape_into_items:
  assumes "valid_utf8 raw" and "length raw \<le> length buffer"
  defines "items \<equiv> un_items (es_unescape (es_new raw))"
  shows "snd (unescape_into (es_new raw) buffer) =
    (case first_error items of Some e \<Rightarrow> Inr (Inl e) | None \<Rightarrow> Inr (Inr (utf8 (decoded items))))"
proof -
  let ?u = "es_unescape (es_new raw)"
  have u: "un_rest ?u = raw" by (simp add: es_unescape_def es_new_def)
  obtain b r where run: "unescape_into_loop ?u buffer 0 = (b, r)"
    by (cases "unescape_into_loop ?u buffer 0")
  have items: "un_items ?u = items" by (simp add: items_def)
  from unescape_into_loop_items [of ?u "[]" 0 buffer] run assms(1,2) u items
  have spec: "case first_error items of Some e \<Rightarrow> r = Inl e
     | None \<Rightarrow> \<exists>tl. b = utf8 (decoded items) @ tl \<and> r = Inr (length (utf8 (decoded items)))"
    by (simp split: option.splits)
  have "list_all is_scalar (decoded items)"
    using un_items_facts [of ?u] assms(1) u items by simp
  then show ?thesis
    using spec run by (auto simp: unescape_into_def split: option.splits)
qed

text \<open>
  C27: A buffer of \<open>raw_len\<close> bytes is always enough. On a UTF-8 body and a buffer of at
  least that size, \<open>unescape_into\<close> never panics and never reports \<open>BufferTooSmall\<close>; it
  returns either the error of the iterator, an invalid escape or a lone surrogate, or a text
  whose characters are exactly the items of the iterator and that is not longer than the body.
\<close>

theorem unescape_into_fits:
  assumes "valid_utf8 raw" and "raw_len (es_new raw) \<le> length buffer"
  shows "\<exists>r. snd (unescape_into (es_new raw) buffer) = Inr r \<and>
    (case r of
       Inl e \<Rightarrow> first_error (un_items (es_unescape (es_new raw))) = Some e \<and>
                err_kind e \<in> {InvalidEscape, LoneSurrogate}
     | Inr text \<Rightarrow> un_items (es_unescape (es_new raw)) = map Inr (str_chars text) \<and>
                   length text \<le> raw_len (es_new raw))"
proof -
  let ?items = "un_items (es_unescape (es_new raw))"
  have len: "length raw \<le> length buffer" and u: "un_rest (es_unescape (es_new raw)) = raw"
    using assms(2) by (simp_all add: raw_len_def es_new_def es_unescape_def)
  from un_items_facts [of "es_unescape (es_new raw)"] assms(1) u
  have facts: "list_all is_scalar (decoded ?items)"
    "length (utf8 (decoded ?items)) \<le> length raw"
    "case first_error ?items of Some e \<Rightarrow> err_kind e \<in> {InvalidEscape, LoneSurrogate}
      | None \<Rightarrow> ?items = map Inr (decoded ?items)"
    by simp_all
  show ?thesis
  proof (cases "first_error ?items")
    case None
    with facts have "?items = map Inr (str_chars (utf8 (decoded ?items)))" by simp
    with None facts(2) unescape_into_items [OF assms(1) len] show ?thesis
      by (intro exI [of _ "Inr (utf8 (decoded ?items))"]) (simp add: raw_len_def es_new_def)
  next
    case (Some e)
    with facts(3) unescape_into_items [OF assms(1) len] show ?thesis
      by (intro exI [of _ "Inl e"]) simp
  qed
qed

theorem unescape_into_fits_witness:
  "\<exists>r. snd (unescape_into (es_new (''a'' @ [CHR 0x5C] @ ''n'')) ''...'') = Inr r"
proof -
  have "valid_utf8 (''a'' @ [CHR 0x5C] @ ''n'')" by (rule valid_utf8_all_ascii) simp
  moreover have "raw_len (es_new (''a'' @ [CHR 0x5C] @ ''n'')) \<le> length ''...''"
    by (simp add: raw_len_def es_new_def)
  ultimately show ?thesis using unescape_into_fits by blast
qed

text \<open>
  C28: The comparison that uses no buffer agrees with the decode: \<open>eq_unescaped(other)\<close> holds
  exactly when \<open>unescape_into\<close> on a sufficient buffer returns \<open>other\<close>.
\<close>

theorem eq_unescaped_iff_unescape_into:
  assumes "valid_utf8 raw" and "valid_utf8 other" and "raw_len (es_new raw) \<le> length buffer"
  shows "eq_unescaped (es_new raw) other \<longleftrightarrow>
    snd (unescape_into (es_new raw) buffer) = Inr (Inr other)"
proof -
  let ?items = "un_items (es_unescape (es_new raw))"
  have len: "length raw \<le> length buffer" and u: "un_rest (es_unescape (es_new raw)) = raw"
    using assms(3) by (simp_all add: raw_len_def es_new_def es_unescape_def)
  from un_items_facts [of "es_unescape (es_new raw)"] assms(1) u
  have facts: "list_all is_scalar (decoded ?items)"
    "first_error ?items = None \<Longrightarrow> ?items = map Inr (decoded ?items)"
    by (simp_all split: option.splits)
  have "eq_unescaped (es_new raw) other \<longleftrightarrow> ?items = map Inr (str_chars other)"
    by (simp add: eq_unescaped_def eq_unescaped_loop_items)
  also have "\<dots> \<longleftrightarrow> first_error ?items = None \<and> decoded ?items = str_chars other"
  proof
    assume *: "?items = map Inr (str_chars other)"
    have "first_error (map Inr cs) = None \<and> decoded (map Inr cs) = cs" for cs
      by (induction cs) simp_all
    with * show "first_error ?items = None \<and> decoded ?items = str_chars other" by simp
  next
    assume *: "first_error ?items = None \<and> decoded ?items = str_chars other"
    with facts(2) show "?items = map Inr (str_chars other)" by metis
  qed
  also have "\<dots> \<longleftrightarrow> first_error ?items = None \<and> utf8 (decoded ?items) = other"
    using assms(2) facts(1) by (metis str_chars_utf8 valid_utf8_def)
  also have "\<dots> \<longleftrightarrow> snd (unescape_into (es_new raw) buffer) = Inr (Inr other)"
    using unescape_into_items [OF assms(1) len] by (simp split: option.splits)
  finally show ?thesis .
qed

theorem eq_unescaped_iff_unescape_into_witness:
  "eq_unescaped (es_new (''a'' @ [CHR 0x5C] @ ''t'')) ''a/'' \<longleftrightarrow>
   snd (unescape_into (es_new (''a'' @ [CHR 0x5C] @ ''t'')) ''...'') = Inr (Inr ''a/'')"
proof (rule eq_unescaped_iff_unescape_into)
  show "valid_utf8 (''a'' @ [CHR 0x5C] @ ''t'')" by (rule valid_utf8_all_ascii) simp
  show "valid_utf8 ''a/''" by (rule valid_utf8_all_ascii) simp
  show "raw_len (es_new (''a'' @ [CHR 0x5C] @ ''t'')) \<le> length ''...''"
    by (simp add: raw_len_def es_new_def)
qed

end
