(* ===== verification/Json_Tokenizer.thy ===== *)
theory Json_Tokenizer
  imports Json_Escape
begin

text \<open>
  \<open>kimojio-json/src/tokenizer.rs\<close>: the single-pass scanner. The tokenizer is a record over
  its byte offset, its state and the bitmap of open containers; every operation returns
  its result next to the updated record, also when it fails. A visitor is a function from
  a token (one constructor for each method of the trait \<open>Visitor\<close>) and the visitor's own
  state to the value it suspends with, if any, and its new state. The scanning functions
  return the token; \<open>run\<close> hands it to the visitor once the tokenizer's state is
  committed, as the last action of the source's functions does.
\<close>

section \<open>Tokens, visitors and the tokenizer\<close>

datatype token =
  ObjectStart | ObjectEnd | ArrayStart | ArrayEnd
| Key string | EscapeKey escape_string | StringTok string | EscapeStringTok escape_string
| NumberTok string | BooleanTok bool | NullTok

type_synonym ('v, 'o) visitor = "token \<Rightarrow> 'v \<Rightarrow> 'o option \<times> 'v"

datatype tstate =
  Start | Done | ObjectFirstKey | ObjectNextKey | ObjectValue | ObjectComma
| ArrayFirstValue | ArrayNextValue | ArrayComma

definition STACK_WORDS :: nat where "STACK_WORDS = 4"

definition MAX_DEPTH :: nat where "MAX_DEPTH = STACK_WORDS * 64"

record tokenizer =
  tk_input :: string
  tk_offset :: nat
  tk_state :: tstate
  tk_stack :: "64 word list"
  tk_depth :: nat
  tk_failure :: "json_error option"

definition tk_new :: "string \<Rightarrow> tokenizer" where
  "tk_new input = \<lparr>tk_input = input, tk_offset = 0, tk_state = Start,
     tk_stack = replicate STACK_WORDS 0, tk_depth = 0, tk_failure = None\<rparr>"

definition tk_error :: "tokenizer \<Rightarrow> error_kind \<Rightarrow> json_error" where
  "tk_error tk kind = JError kind (tk_offset tk)"

section \<open>Whitespace\<close>

definition is_ws :: "char \<Rightarrow> bool" where
  "is_ws b \<longleftrightarrow> b = CHR '' '' \<or> b = CHR 0x09 \<or> b = CHR 0x0A \<or> b = CHR 0x0D"

function skip_ws_from :: "string \<Rightarrow> nat \<Rightarrow> char option \<times> nat" where
  "skip_ws_from input offset =
     (case get_at input offset of
        None \<Rightarrow> (None, offset)
      | Some byte \<Rightarrow>
          if byte_val byte > 0x20 then (Some byte, offset)
          else if is_ws byte then skip_ws_from input (offset + 1)
          else (Some byte, offset))"
  by auto
termination
  by (relation "measure (\<lambda>(input, offset). length input - offset)")
     (auto simp: get_at_Some_iff)

declare skip_ws_from.simps [simp del]

definition skip_whitespace :: "tokenizer \<Rightarrow> char option \<times> tokenizer" where
  "skip_whitespace tk =
     (case skip_ws_from (tk_input tk) (tk_offset tk) of (b, offset) \<Rightarrow> (b, tk\<lparr>tk_offset := offset\<rparr>))"

section \<open>The container stack\<close>

definition push :: "bool \<Rightarrow> tokenizer \<Rightarrow> (json_error + unit) \<times> tokenizer" where
  "push is_array tk =
     (if tk_depth tk \<ge> MAX_DEPTH then (Inl (tk_error tk DepthExceeded), tk)
      else
        let word = tk_depth tk div 64;
            b = push_bit (tk_depth tk mod 64) (1 :: 64 word);
            stack = (if word < length (tk_stack tk)
                     then (tk_stack tk)[word := (if is_array then (tk_stack tk ! word) OR b
                                                 else (tk_stack tk ! word) AND NOT b)]
                     else tk_stack tk)
        in (Inr (), tk\<lparr>tk_stack := stack, tk_depth := tk_depth tk + 1\<rparr>))"

definition in_array :: "tokenizer \<Rightarrow> bool" where
  "in_array tk =
     (if tk_depth tk = 0 then False
      else
        let level = tk_depth tk - 1 in
        case get_at (tk_stack tk) (level div 64) of
          Some word \<Rightarrow> drop_bit (level mod 64) word AND 1 = 1
        | None \<Rightarrow> False)"

definition after_value :: "tokenizer \<Rightarrow> tokenizer" where
  "after_value tk =
     tk\<lparr>tk_state := (if tk_depth tk = 0 then Done
                     else if in_array tk then ArrayComma else ObjectComma)\<rparr>"

definition close_container :: "tokenizer \<Rightarrow> tokenizer" where
  "close_container tk =
     after_value (tk\<lparr>tk_offset := tk_offset tk + 1, tk_depth := tk_depth tk - 1\<rparr>)"

section \<open>Scalars\<close>

definition scan_literal :: "string \<Rightarrow> tokenizer \<Rightarrow> (json_error + unit) \<times> tokenizer" where
  "scan_literal word tk =
     (let end = tk_offset tk + length word in
      case get_range (tk_input tk) (tk_offset tk) end of
        Some found \<Rightarrow>
          if found = word then (Inr (), tk\<lparr>tk_offset := end\<rparr>)
          else (Inl (tk_error tk UnexpectedByte), tk)
      | None \<Rightarrow> (Inl (tk_error tk UnexpectedEof), tk))"

definition validate_escape :: "string \<Rightarrow> nat \<Rightarrow> json_error + nat" where
  "validate_escape bytes cursor =
     (case get_at bytes (cursor + 1) of
        None \<Rightarrow> Inl (JError UnterminatedString (cursor + 1))
      | Some escape \<Rightarrow>
          if escape \<in> {CHR 0x22, CHR 0x5C, CHR ''/'', CHR ''b'', CHR ''f'', CHR ''n'', CHR ''r'', CHR ''t''}
          then Inr (cursor + 2)
          else if escape = CHR ''u'' then
            (case get_range bytes (cursor + 2) (cursor + 6) of
               None \<Rightarrow> Inl (JError InvalidEscape cursor)
             | Some digits \<Rightarrow>
                 if list_all is_ascii_hexdigit digits then Inr (cursor + 6)
                 else Inl (JError InvalidEscape cursor))
          else Inl (JError InvalidEscape cursor))"

text \<open>The inner loop over ordinary bytes, then the outer loop up to the closing quote.\<close>

definition stops_string :: "char \<Rightarrow> bool" where
  "stops_string byte \<longleftrightarrow> byte = CHR 0x22 \<or> byte = CHR 0x5C \<or> byte_val byte < 0x20"

function skip_ordinary :: "string \<Rightarrow> nat \<Rightarrow> nat" where
  "skip_ordinary bytes cursor =
     (if cursor < length bytes then
        if stops_string (bytes ! cursor) then cursor else skip_ordinary bytes (cursor + 1)
      else cursor)"
  by auto
termination
  by (relation "measure (\<lambda>(bytes, cursor). length bytes - cursor)") auto

declare skip_ordinary.simps [simp del]

lemma skip_ordinary_ge: "cursor \<le> skip_ordinary bytes cursor"
  by (induction bytes cursor rule: skip_ordinary.induct) (subst skip_ordinary.simps, auto)

lemma validate_escape_gt: "validate_escape bytes cursor = Inr c \<Longrightarrow> cursor < c \<and> c \<le> length bytes"
  by (auto simp: validate_escape_def get_range_def get_at_def split: option.splits if_splits)

function string_end :: "string \<Rightarrow> nat \<Rightarrow> bool \<Rightarrow> json_error + (nat \<times> bool)" where
  "string_end bytes cursor escaped =
     (let cursor' = skip_ordinary bytes cursor in
      case get_at bytes cursor' of
        None \<Rightarrow> Inl (JError UnterminatedString cursor')
      | Some byte \<Rightarrow>
          if byte = CHR 0x22 then Inr (cursor', escaped)
          else if byte = CHR 0x5C then
            (case validate_escape bytes cursor' of Inl e \<Rightarrow> Inl e
             | Inr next_cursor \<Rightarrow> string_end bytes next_cursor True)
          else Inl (JError ControlCharacter cursor'))"
  by auto
termination
proof (relation "measure (\<lambda>(bytes, cursor, _). length bytes - cursor)", goal_cases)
  case (2 bytes cursor escaped cursor' byte c)
  have "cursor \<le> cursor'" using 2(1) skip_ordinary_ge by simp
  moreover have "cursor' < c" "c \<le> length bytes" using validate_escape_gt [OF 2(5)] by simp_all
  ultimately show ?case by simp
qed simp

declare string_end.simps [simp del]

definition scan_string :: "tokenizer \<Rightarrow> (json_error + (string \<times> bool)) \<times> tokenizer" where
  "scan_string tk =
     (let start = tk_offset tk + 1 in
      case string_end (tk_input tk) start False of
        Inl e \<Rightarrow> (Inl e, tk)
      | Inr (end, escaped) \<Rightarrow>
          (case str_get (tk_input tk) start end of
             None \<Rightarrow> (Inl (JError UnterminatedString end), tk)
           | Some body \<Rightarrow> (Inr (body, escaped), tk\<lparr>tk_offset := end + 1\<rparr>)))"

function skip_digits :: "string \<Rightarrow> nat \<Rightarrow> nat" where
  "skip_digits bytes cursor =
     (case get_at bytes cursor of
        Some b \<Rightarrow> if is_ascii_digit b then skip_digits bytes (cursor + 1) else cursor
      | None \<Rightarrow> cursor)"
  by auto
termination
  by (relation "measure (\<lambda>(bytes, cursor). length bytes - cursor)")
     (auto simp: get_at_Some_iff)

declare skip_digits.simps [simp del]

lemma skip_digits_ge: "cursor \<le> skip_digits bytes cursor"
  by (induction bytes cursor rule: skip_digits.induct)
     (subst skip_digits.simps, auto split: option.splits)

text \<open>The four parts of \<open>scan_number\<close>: sign, integer, fraction and exponent.\<close>

definition number_sign :: "string \<Rightarrow> nat \<Rightarrow> nat" where
  "number_sign bytes cursor = (if get_at bytes cursor = Some (CHR ''-'') then cursor + 1 else cursor)"

definition number_int :: "string \<Rightarrow> nat \<Rightarrow> json_error + nat" where
  "number_int bytes cursor =
     (case get_at bytes cursor of
        Some b \<Rightarrow>
          if b = CHR ''0'' then
            (case get_at bytes (cursor + 1) of
               Some d \<Rightarrow> if is_ascii_digit d then Inl (JError InvalidNumber (cursor + 1))
                         else Inr (cursor + 1)
             | None \<Rightarrow> Inr (cursor + 1))
          else if is_ascii_digit b then Inr (skip_digits bytes cursor)
          else Inl (JError InvalidNumber cursor)
      | None \<Rightarrow> Inl (JError UnexpectedEof cursor))"

definition number_frac :: "string \<Rightarrow> nat \<Rightarrow> json_error + nat" where
  "number_frac bytes cursor =
     (if get_at bytes cursor = Some (CHR ''.'') then
        (let cursor = cursor + 1; after = skip_digits bytes cursor in
         if after = cursor then Inl (JError InvalidNumber cursor) else Inr after)
      else Inr cursor)"

definition number_exp :: "string \<Rightarrow> nat \<Rightarrow> json_error + nat" where
  "number_exp bytes cursor =
     (if get_at bytes cursor \<in> {Some (CHR ''e''), Some (CHR ''E'')} then
        (let cursor = cursor + 1;
             cursor = (if get_at bytes cursor \<in> {Some (CHR ''+''), Some (CHR ''-'')}
                       then cursor + 1 else cursor);
             after = skip_digits bytes cursor in
         if after = cursor then Inl (JError InvalidNumber cursor) else Inr after)
      else Inr cursor)"

definition scan_number :: "tokenizer \<Rightarrow> (json_error + string) \<times> tokenizer" where
  "scan_number tk =
     (let bytes = tk_input tk; start = tk_offset tk in
      case number_int bytes (number_sign bytes start) of Inl e \<Rightarrow> (Inl e, tk)
      | Inr c1 \<Rightarrow>
          (case number_frac bytes c1 of Inl e \<Rightarrow> (Inl e, tk)
           | Inr c2 \<Rightarrow>
               (case number_exp bytes c2 of Inl e \<Rightarrow> (Inl e, tk)
                | Inr cursor \<Rightarrow>
                    (case str_get bytes start cursor of
                       None \<Rightarrow> (Inl (JError InvalidNumber start), tk)
                     | Some text \<Rightarrow> (Inr text, tk\<lparr>tk_offset := cursor\<rparr>)))))"

section \<open>Keys, values and the main loop\<close>

definition scan_key :: "char \<Rightarrow> tokenizer \<Rightarrow> (json_error + token) \<times> tokenizer" where
  "scan_key byte tk =
     (if byte \<noteq> CHR 0x22 then (Inl (tk_error tk ExpectedKey), tk)
      else (case scan_string tk of
          (Inl e, tk1) \<Rightarrow> (Inl e, tk1)
        | (Inr (name, escaped), tk1) \<Rightarrow>
            (case skip_whitespace tk1 of
               (b, tk2) \<Rightarrow>
                 if b \<noteq> Some (CHR '':'') then (Inl (tk_error tk2 ExpectedColon), tk2)
                 else (Inr (if escaped then EscapeKey (es_new name) else Key name),
                       tk2\<lparr>tk_offset := tk_offset tk2 + 1, tk_state := ObjectValue\<rparr>))))"

definition open_container :: "bool \<Rightarrow> tokenizer \<Rightarrow> (json_error + token) \<times> tokenizer" where
  "open_container is_array tk =
     (case push is_array tk of
        (Inl e, tk1) \<Rightarrow> (Inl e, tk1)
      | (Inr _, tk1) \<Rightarrow>
          (Inr (if is_array then ArrayStart else ObjectStart),
           tk1\<lparr>tk_offset := tk_offset tk1 + 1,
               tk_state := (if is_array then ArrayFirstValue else ObjectFirstKey)\<rparr>))"

definition literal_value :: "string \<Rightarrow> token \<Rightarrow> tokenizer \<Rightarrow> (json_error + token) \<times> tokenizer" where
  "literal_value word tok tk =
     (case scan_literal word tk of
        (Inl e, tk1) \<Rightarrow> (Inl e, tk1)
      | (Inr _, tk1) \<Rightarrow> (Inr tok, after_value tk1))"

definition scan_value :: "char \<Rightarrow> tokenizer \<Rightarrow> (json_error + token) \<times> tokenizer" where
  "scan_value byte tk =
     (if byte = CHR ''{'' then open_container False tk
      else if byte = CHR ''['' then open_container True tk
      else if byte = CHR 0x22 then
        (case scan_string tk of
           (Inl e, tk1) \<Rightarrow> (Inl e, tk1)
         | (Inr (text, escaped), tk1) \<Rightarrow>
             (Inr (if escaped then EscapeStringTok (es_new text) else StringTok text),
              after_value tk1))
      else if byte = CHR ''t'' then literal_value ''true'' (BooleanTok True) tk
      else if byte = CHR ''f'' then literal_value ''false'' (BooleanTok False) tk
      else if byte = CHR ''n'' then literal_value ''null'' NullTok tk
      else if byte = CHR ''-'' \<or> is_ascii_digit byte then
        (case scan_number tk of
           (Inl e, tk1) \<Rightarrow> (Inl e, tk1)
         | (Inr number, tk1) \<Rightarrow> (Inr (NumberTok number), after_value tk1))
      else (Inl (tk_error tk UnexpectedByte), tk))"

text \<open>
  One turn of the loop in \<open>run\<close> after the whitespace: the error, or the token for the
  visitor, or no token for a comma.
\<close>

definition emits ::
    "(json_error + token) \<times> tokenizer \<Rightarrow> (json_error + token option) \<times> tokenizer" where
  "emits r = (case r of (Inl e, tk) \<Rightarrow> (Inl e, tk) | (Inr tok, tk) \<Rightarrow> (Inr (Some tok), tk))"

definition dispatch :: "char \<Rightarrow> tokenizer \<Rightarrow> (json_error + token option) \<times> tokenizer" where
  "dispatch byte tk =
     (case tk_state tk of
        Done \<Rightarrow> (Inl (tk_error tk TrailingData), tk)
      | Start \<Rightarrow> emits (scan_value byte tk)
      | ObjectValue \<Rightarrow> emits (scan_value byte tk)
      | ArrayNextValue \<Rightarrow> emits (scan_value byte tk)
      | ArrayFirstValue \<Rightarrow>
          if byte = CHR '']'' then (Inr (Some ArrayEnd), close_container tk)
          else emits (scan_value byte tk)
      | ObjectFirstKey \<Rightarrow>
          if byte = CHR ''}'' then (Inr (Some ObjectEnd), close_container tk)
          else emits (scan_key byte tk)
      | ObjectNextKey \<Rightarrow> emits (scan_key byte tk)
      | ObjectComma \<Rightarrow>
          if byte = CHR '','' then
            (Inr None, tk\<lparr>tk_offset := tk_offset tk + 1, tk_state := ObjectNextKey\<rparr>)
          else if byte = CHR ''}'' then (Inr (Some ObjectEnd), close_container tk)
          else (Inl (tk_error tk UnexpectedByte), tk)
      | ArrayComma \<Rightarrow>
          if byte = CHR '','' then
            (Inr None, tk\<lparr>tk_offset := tk_offset tk + 1, tk_state := ArrayNextValue\<rparr>)
          else if byte = CHR '']'' then (Inr (Some ArrayEnd), close_container tk)
          else (Inl (tk_error tk UnexpectedByte), tk))"

subsection \<open>Every turn of the loop makes progress\<close>

lemma skip_ws_from_Some:
  "skip_ws_from input k = (Some b, k') \<Longrightarrow> k \<le> k' \<and> get_at input k' = Some b"
  by (induction input k rule: skip_ws_from.induct)
     (subst (asm) (2) skip_ws_from.simps, auto split: option.splits if_splits)

lemma skip_whitespace_Some:
  assumes "skip_whitespace tk = (Some b, tk')"
  shows "tk_input tk' = tk_input tk \<and> tk_offset tk \<le> tk_offset tk' \<and>
         get_at (tk_input tk') (tk_offset tk') = Some b"
  using assms by (auto simp: skip_whitespace_def dest: skip_ws_from_Some split: prod.splits)

lemma push_frame:
  "push a tk = (r, tk') \<Longrightarrow> tk_input tk' = tk_input tk \<and> tk_offset tk' = tk_offset tk \<and>
     tk_failure tk' = tk_failure tk"
  by (auto simp: push_def Let_def split: if_splits)

lemma after_value_frame [simp]:
  "tk_input (after_value tk) = tk_input tk" "tk_offset (after_value tk) = tk_offset tk"
  "tk_depth (after_value tk) = tk_depth tk" "tk_stack (after_value tk) = tk_stack tk"
  "tk_failure (after_value tk) = tk_failure tk"
  by (simp_all add: after_value_def)

lemma close_container_frame [simp]:
  "tk_input (close_container tk) = tk_input tk"
  "tk_offset (close_container tk) = tk_offset tk + 1"
  "tk_failure (close_container tk) = tk_failure tk"
  by (simp_all add: close_container_def)

lemma string_end_range:
  "string_end bytes cursor escaped = Inr (e, esc) \<Longrightarrow> cursor \<le> e \<and> get_at bytes e = Some (CHR 0x22)"
proof (induction bytes cursor escaped rule: string_end.induct)
  case (1 bytes cursor escaped)
  let ?c = "skip_ordinary bytes cursor"
  have ge: "cursor \<le> ?c" by (rule skip_ordinary_ge)
  from 1(2) obtain b where b: "get_at bytes ?c = Some b" "b = CHR 0x22 \<or> b = CHR 0x5C"
    by (subst (asm) string_end.simps) (auto simp: Let_def split: option.splits if_splits)
  show ?case
  proof (cases "b = CHR 0x22")
    case True
    with 1(2) b ge show ?thesis by (subst (asm) string_end.simps) (auto simp: Let_def)
  next
    case False
    with 1(2) b obtain c where c: "validate_escape bytes ?c = Inr c"
      "string_end bytes c True = Inr (e, esc)"
      by (subst (asm) string_end.simps) (auto simp: Let_def split: sum.splits)
    from 1(1) [OF refl b(1) False _ c(1,2)] b(2) False validate_escape_gt [OF c(1)] ge
    show ?thesis by auto
  qed
qed

lemma scan_string_progress:
  assumes "scan_string tk = (Inr r, tk')"
  shows "tk_input tk' = tk_input tk \<and> tk_offset tk < tk_offset tk' \<and>
         tk_offset tk' \<le> length (tk_input tk) \<and> tk_failure tk' = tk_failure tk"
  using assms string_end_range
  by (auto simp: scan_string_def Let_def get_at_Some_iff split: sum.splits option.splits
      dest!: string_end_range)

lemma number_sign_ge: "cursor \<le> number_sign bytes cursor"
  by (simp add: number_sign_def)

lemma number_int_gt: "number_int bytes cursor = Inr c \<Longrightarrow> cursor < c"
proof -
  assume *: "number_int bytes cursor = Inr c"
  have "cursor < skip_digits bytes cursor"
    if "get_at bytes cursor = Some b" "is_ascii_digit b" for b
    using that skip_digits_ge [of "cursor + 1" bytes] by (subst skip_digits.simps) simp
  with * show ?thesis
    by (auto simp: number_int_def split: option.splits if_splits)
qed

lemma number_frac_ge: "number_frac bytes cursor = Inr c \<Longrightarrow> cursor \<le> c"
  using skip_digits_ge [of "cursor + 1" bytes]
  by (auto simp: number_frac_def Let_def split: if_splits)

lemma number_exp_ge: "number_exp bytes cursor = Inr c \<Longrightarrow> cursor \<le> c"
  using skip_digits_ge [of "cursor + 1" bytes] skip_digits_ge [of "cursor + 2" bytes]
  by (auto simp: number_exp_def Let_def split: if_splits)

lemma scan_number_progress:
  assumes "scan_number tk = (Inr t, tk')"
  shows "tk_input tk' = tk_input tk \<and> tk_offset tk < tk_offset tk' \<and>
         tk_offset tk' \<le> length (tk_input tk) \<and> tk_failure tk' = tk_failure tk"
proof -
  from assms obtain c1 c2 c where c: "number_int (tk_input tk) (number_sign (tk_input tk) (tk_offset tk)) = Inr c1"
    "number_frac (tk_input tk) c1 = Inr c2" "number_exp (tk_input tk) c2 = Inr c"
    "str_get (tk_input tk) (tk_offset tk) c = Some t" "tk' = tk\<lparr>tk_offset := c\<rparr>"
    by (auto simp: scan_number_def Let_def split: sum.splits option.splits)
  from c(4) have "c \<le> length (tk_input tk)" by (auto simp: str_get_def split: if_splits)
  with number_int_gt [OF c(1)] number_frac_ge [OF c(2)] number_exp_ge [OF c(3)] c(5)
    number_sign_ge [of "tk_offset tk" "tk_input tk"]
  show ?thesis by simp
qed

lemma open_container_progress:
  assumes "open_container a tk = (Inr t, tk')" and "get_at (tk_input tk) (tk_offset tk) = Some b"
  shows "tk_input tk' = tk_input tk \<and> tk_offset tk < tk_offset tk' \<and>
         tk_offset tk' \<le> length (tk_input tk) \<and> tk_failure tk' = tk_failure tk"
proof -
  from assms(1) obtain tk1 where "push a tk = (Inr (), tk1)" "tk_input tk' = tk_input tk1"
    "tk_offset tk' = tk_offset tk1 + 1" "tk_failure tk' = tk_failure tk1"
    by (auto simp: open_container_def split: sum.splits prod.splits)
  with push_frame [of a tk "Inr ()" tk1] assms(2) show ?thesis by (simp add: get_at_Some_iff)
qed

lemma literal_value_progress:
  assumes "literal_value w tok tk = (Inr t, tk')" and "w \<noteq> []"
  shows "tk_input tk' = tk_input tk \<and> tk_offset tk < tk_offset tk' \<and>
         tk_offset tk' \<le> length (tk_input tk) \<and> tk_failure tk' = tk_failure tk"
proof -
  from assms(1) obtain tk1 where tk1: "scan_literal w tk = (Inr (), tk1)" "tk' = after_value tk1"
    by (auto simp: literal_value_def split: sum.splits prod.splits)
  from tk1(1) have "tk1 = tk\<lparr>tk_offset := tk_offset tk + length w\<rparr>"
    "tk_offset tk + length w \<le> length (tk_input tk)"
    by (auto simp: scan_literal_def get_range_def Let_def split: option.splits if_splits)
  with tk1(2) assms(2) show ?thesis by simp
qed

lemma scan_value_cases:
  assumes "scan_value b tk = (Inr t, tk')"
  obtains (container) a where "b = (if a then CHR ''['' else CHR ''{'')" "open_container a tk = (Inr t, tk')"
  | (string) body esc tk1 where "b = CHR 0x22" "scan_string tk = (Inr (body, esc), tk1)"
      "t = (if esc then EscapeStringTok (es_new body) else StringTok body)" "tk' = after_value tk1"
  | (literal) w where "b = hd w" "literal_value w t tk = (Inr t, tk')"
      "(w, t) \<in> {(''true'', BooleanTok True), (''false'', BooleanTok False), (''null'', NullTok)}"
  | (number) num tk1 where "b = CHR ''-'' \<or> is_ascii_digit b" "scan_number tk = (Inr num, tk1)"
      "t = NumberTok num" "tk' = after_value tk1"
proof -
  have lit: "t = tok" if "literal_value w tok tk = (Inr t, tk')" for w tok
    using that by (auto simp: literal_value_def split: prod.splits sum.splits)
  consider "b = CHR ''{''" | "b = CHR ''[''" | "b = CHR 0x22" | "b = CHR ''t''" | "b = CHR ''f''"
    | "b = CHR ''n''" | "b \<notin> {CHR ''{'', CHR ''['', CHR 0x22, CHR ''t'', CHR ''f'', CHR ''n''}"
    by blast
  then show thesis
  proof cases
    case 1 with assms show thesis using container [of False] by (simp add: scan_value_def)
  next
    case 2 with assms show thesis using container [of True] by (simp add: scan_value_def)
  next
    case 3
    with assms obtain r tk1 where r: "scan_string tk = (Inr r, tk1)"
      by (cases "scan_string tk") (auto simp: scan_value_def split: sum.splits)
    with 3 assms show thesis by (intro string [of "fst r" "snd r"]) (auto simp: scan_value_def
          split: prod.splits)
  next
    case 4
    with assms have "literal_value ''true'' (BooleanTok True) tk = (Inr t, tk')"
      by (simp add: scan_value_def)
    with 4 lit show thesis by (intro literal [of "''true''"]) auto
  next
    case 5
    with assms have "literal_value ''false'' (BooleanTok False) tk = (Inr t, tk')"
      by (simp add: scan_value_def)
    with 5 lit show thesis by (intro literal [of "''false''"]) auto
  next
    case 6
    with assms have "literal_value ''null'' NullTok tk = (Inr t, tk')"
      by (simp add: scan_value_def)
    with 6 lit show thesis by (intro literal [of "''null''"]) auto
  next
    case 7
    with assms have b: "b = CHR ''-'' \<or> is_ascii_digit b"
      by (simp add: scan_value_def split: if_splits)
    with 7 assms obtain r tk1 where r: "scan_number tk = (Inr r, tk1)"
      by (cases "scan_number tk") (simp add: scan_value_def split: sum.splits)
    with 7 b assms show thesis by (intro number [of r tk1]) (simp_all add: scan_value_def)
  qed
qed

lemma scan_value_progress:
  assumes "scan_value b tk = (Inr t, tk')" and "get_at (tk_input tk) (tk_offset tk) = Some b"
  shows "tk_input tk' = tk_input tk \<and> tk_offset tk < tk_offset tk' \<and>
         tk_offset tk' \<le> length (tk_input tk) \<and> tk_failure tk' = tk_failure tk"
  using assms(1)
proof (cases rule: scan_value_cases)
  case (literal w)
  then have "w \<noteq> []" by auto
  with literal show ?thesis by (intro literal_value_progress)
qed (use open_container_progress assms(2) scan_string_progress scan_number_progress in auto)

lemma scan_key_progress:
  assumes "scan_key b tk = (Inr t, tk')"
  shows "tk_input tk' = tk_input tk \<and> tk_offset tk < tk_offset tk' \<and>
         tk_offset tk' \<le> length (tk_input tk) \<and> tk_failure tk' = tk_failure tk"
proof -
  from assms obtain r tk1 where s: "scan_string tk = (Inr r, tk1)"
    by (auto simp: scan_key_def split: if_splits prod.splits sum.splits)
  with assms obtain k where k: "skip_ws_from (tk_input tk1) (tk_offset tk1) = (Some (CHR '':''), k)"
    "tk_input tk' = tk_input tk1" "tk_offset tk' = k + 1" "tk_failure tk' = tk_failure tk1"
    by (auto simp: scan_key_def skip_whitespace_def split: if_splits prod.splits)
  from skip_ws_from_Some [OF k(1)] have "tk_offset tk1 \<le> k" "k < length (tk_input tk1)"
    by (simp_all add: get_at_Some_iff)
  with k scan_string_progress [OF s] show ?thesis by simp
qed

lemma emits_Inr: "emits r = (Inr t, tk) \<longleftrightarrow> (\<exists>tok. r = (Inr tok, tk) \<and> t = Some tok)"
  by (auto simp: emits_def split: prod.splits sum.splits)

lemma dispatch_progress:
  assumes "dispatch b tk = (Inr t, tk')" and "get_at (tk_input tk) (tk_offset tk) = Some b"
  shows "tk_input tk' = tk_input tk \<and> tk_offset tk < tk_offset tk' \<and>
         tk_offset tk' \<le> length (tk_input tk) \<and> tk_failure tk' = tk_failure tk"
  using assms
  by (auto simp: dispatch_def emits_Inr get_at_Some_iff split: tstate.splits if_splits
      dest!: scan_value_progress scan_key_progress)

lemma turn_progress:
  assumes "skip_whitespace tk = (Some b, tk1)" and "dispatch b tk1 = (Inr t, tk2)"
  shows "length (tk_input tk2) - tk_offset tk2 < length (tk_input tk) - tk_offset tk"
proof -
  from skip_whitespace_Some [OF assms(1)] have 1: "tk_input tk1 = tk_input tk"
    "tk_offset tk \<le> tk_offset tk1" "get_at (tk_input tk1) (tk_offset tk1) = Some b" by auto
  then have "tk_offset tk1 < length (tk_input tk)" by (simp add: get_at_Some_iff)
  with dispatch_progress [OF assms(2) 1(3)] 1(1,2) show ?thesis by auto
qed

function run ::
    "('v, 'o) visitor \<Rightarrow> tokenizer \<Rightarrow> 'v \<Rightarrow> (json_error + 'o option) \<times> tokenizer \<times> 'v" where
  "run visitor tk v =
     (case skip_whitespace tk of
        (None, tk1) \<Rightarrow>
          ((case tk_state tk1 of Done \<Rightarrow> Inr None | _ \<Rightarrow> Inl (tk_error tk1 UnexpectedEof)), tk1, v)
      | (Some byte, tk1) \<Rightarrow>
          (case dispatch byte tk1 of
             (Inl e, tk2) \<Rightarrow> (Inl e, tk2, v)
           | (Inr None, tk2) \<Rightarrow> run visitor tk2 v
           | (Inr (Some tok), tk2) \<Rightarrow>
               (case visitor tok v of
                  (Some output, v') \<Rightarrow> (Inr (Some output), tk2, v')
                | (None, v') \<Rightarrow> run visitor tk2 v')))"
  by auto
termination
  by (relation "measure (\<lambda>(_, tk, _). length (tk_input tk) - tk_offset tk)")
     (auto intro: turn_progress [OF sym sym])

declare run.simps [simp del]

definition drive ::
    "('v, 'o) visitor \<Rightarrow> tokenizer \<Rightarrow> 'v \<Rightarrow> (json_error + 'o option) \<times> tokenizer \<times> 'v" where
  "drive visitor tk v =
     (case tk_failure tk of
        Some failure \<Rightarrow> (Inl failure, tk, v)
      | None \<Rightarrow>
          (case run visitor tk v of
             (Inr output, tk', v') \<Rightarrow> (Inr output, tk', v')
           | (Inl failure, tk', v') \<Rightarrow> (Inl failure, tk'\<lparr>tk_failure := Some failure\<rparr>, v')))"

end
