(* ===== verification/Json_Scan.thy ===== *)
theory Json_Scan
  imports Json_Tokenizer
begin

text \<open>
  What the scanners of the tokenizer accept, on the level of the remaining input: whitespace,
  string bodies, numbers and literals against the productions of RFC 8259, and the bitmap of
  open containers against a stack.
\<close>

section \<open>The remaining input\<close>

definition tk_rest :: "tokenizer \<Rightarrow> string" where
  "tk_rest tk = drop (tk_offset tk) (tk_input tk)"

lemma drop_ConsD: "drop k s = b # r \<Longrightarrow> k < length s \<and> s ! k = b"
  by (metis drop_all leI list.distinct(1) nth_via_drop)

lemma get_at_drop: "get_at s k = (case drop k s of [] \<Rightarrow> None | b # _ \<Rightarrow> Some b)"
  by (auto simp: get_at_def dest: drop_ConsD split: list.split)

lemma drop_Suc_Cons: "drop k s = b # r \<Longrightarrow> drop (Suc k) s = r"
  by (metis drop_Suc list.sel(3) tl_drop)

lemma drop_append_length: "drop k s = m @ r \<Longrightarrow> drop (k + length m) s = r"
  by (metis add.commute append_eq_conv_conj drop_drop)

lemma get_range_drop:
  assumes "drop a s = m @ r" and "m \<noteq> []"
  shows "get_range s a (a + length m) = Some m"
proof -
  have "length (drop a s) = length m + length r" using assms by simp
  then have "a + length m \<le> length s" using assms(2) by (cases m) simp_all
  then show ?thesis using assms(1) by (simp add: get_range_def)
qed

section \<open>Whitespace\<close>

definition ws :: "string \<Rightarrow> bool" where
  "ws w \<longleftrightarrow> list_all is_ws w"

lemma ws_simps [simp]: "ws []" "ws (b # w) \<longleftrightarrow> is_ws b \<and> ws w" "ws (v @ w) \<longleftrightarrow> ws v \<and> ws w"
  by (simp_all add: ws_def)

lemma is_ws_small: "is_ws b \<Longrightarrow> byte_val b \<le> 0x20"
  by (auto simp: is_ws_def)

lemma skip_ws_from_drop:
  "skip_ws_from s k = (case dropWhile is_ws (drop k s) of [] \<Rightarrow> None | b # _ \<Rightarrow> Some b,
                       k + length (takeWhile is_ws (drop k s)))"
proof (induction s k rule: skip_ws_from.induct)
  case (1 s k)
  show ?case
  proof (cases "drop k s")
    case Nil
    then show ?thesis by (subst skip_ws_from.simps) (simp add: get_at_drop)
  next
    case (Cons b r)
    then have at: "get_at s k = Some b" by (simp add: get_at_drop)
    show ?thesis
    proof (cases "is_ws b")
      case True
      with 1 [OF at] is_ws_small [OF True] at Cons drop_Suc_Cons [OF Cons] show ?thesis
        by (subst skip_ws_from.simps) simp
    next
      case False
      with at Cons show ?thesis by (subst skip_ws_from.simps) simp
    qed
  qed
qed

lemma drop_dropWhile:
  "drop (k + length (takeWhile P (drop k s))) s = dropWhile P (drop k s)"
  by (rule drop_append_length) simp

lemma skip_whitespace_rest:
  "skip_whitespace tk =
     (case dropWhile is_ws (tk_rest tk) of [] \<Rightarrow> None | b # _ \<Rightarrow> Some b,
      tk\<lparr>tk_offset := tk_offset tk + length (takeWhile is_ws (tk_rest tk))\<rparr>)"
  by (simp add: skip_whitespace_def skip_ws_from_drop tk_rest_def)

lemma tk_rest_skip [simp]:
  "tk_rest (tk\<lparr>tk_offset := tk_offset tk + length (takeWhile is_ws (tk_rest tk))\<rparr>)
   = dropWhile is_ws (tk_rest tk)"
  by (simp add: tk_rest_def drop_dropWhile)

lemma dropWhile_ws: "ws w \<Longrightarrow> dropWhile is_ws (w @ r) = dropWhile is_ws r"
  by (induction w) auto

lemma takeWhile_ws_ws: "ws (takeWhile is_ws r)"
  by (induction r) auto

section \<open>Literals\<close>

lemma scan_literal_iff:
  assumes "w \<noteq> []"
  shows "scan_literal w tk = (Inr u, tk') \<longleftrightarrow>
    (\<exists>r. tk_rest tk = w @ r \<and> tk' = tk\<lparr>tk_offset := tk_offset tk + length w\<rparr>)"
proof
  assume "scan_literal w tk = (Inr u, tk')"
  then have 1: "take (length w) (tk_rest tk) = w" "tk' = tk\<lparr>tk_offset := tk_offset tk + length w\<rparr>"
    by (auto simp: scan_literal_def get_range_def Let_def tk_rest_def split: option.splits if_splits)
  then have "tk_rest tk = w @ drop (length w) (tk_rest tk)" by (metis append_take_drop_id)
  with 1 show "\<exists>r. tk_rest tk = w @ r \<and> tk' = tk\<lparr>tk_offset := tk_offset tk + length w\<rparr>" by blast
next
  assume "\<exists>r. tk_rest tk = w @ r \<and> tk' = tk\<lparr>tk_offset := tk_offset tk + length w\<rparr>"
  then show "scan_literal w tk = (Inr u, tk')"
    using assms by (auto simp: scan_literal_def Let_def tk_rest_def get_range_drop)
qed

section \<open>Strings\<close>

inductive string_body :: "string \<Rightarrow> bool" where
  empty: "string_body []"
| ordinary: "\<not> stops_string c \<Longrightarrow> string_body b \<Longrightarrow> string_body (c # b)"
| simple: "simple_escape e \<noteq> None \<Longrightarrow> string_body b \<Longrightarrow> string_body (CHR 0x5C # e # b)"
| unicode: "length ds = 4 \<Longrightarrow> list_all is_ascii_hexdigit ds \<Longrightarrow> string_body b \<Longrightarrow>
    string_body (CHR 0x5C # CHR ''u'' # ds @ b)"

lemma simple_escape_iff:
  "simple_escape e \<noteq> None \<longleftrightarrow>
   e \<in> {CHR 0x22, CHR 0x5C, CHR ''/'', CHR ''b'', CHR ''f'', CHR ''n'', CHR ''r'', CHR ''t''}"
  by (simp add: simple_escape_def)

lemma skip_ordinary_step:
  "drop k s = c # r \<Longrightarrow> \<not> stops_string c \<Longrightarrow> skip_ordinary s k = skip_ordinary s (Suc k)"
  by (subst skip_ordinary.simps) (simp add: drop_ConsD)

lemma skip_ordinary_stop:
  "drop k s = c # r \<Longrightarrow> stops_string c \<Longrightarrow> skip_ordinary s k = k"
  by (subst skip_ordinary.simps) (simp add: drop_ConsD)

lemma skip_ordinary_end: "drop k s = [] \<Longrightarrow> skip_ordinary s k = k"
  by (subst skip_ordinary.simps) simp

lemma string_end_ordinary:
  "drop k s = c # r \<Longrightarrow> \<not> stops_string c \<Longrightarrow> string_end s k esc = string_end s (Suc k) esc"
  by (subst (1 2) string_end.simps) (simp add: skip_ordinary_step)

lemma string_end_quote:
  "drop k s = CHR 0x22 # r \<Longrightarrow> string_end s k esc = Inr (k, esc)"
  by (subst string_end.simps)
     (simp add: skip_ordinary_stop [of k s "CHR 0x22" r] stops_string_def get_at_drop)

lemma string_end_escape:
  "drop k s = CHR 0x5C # r \<Longrightarrow> string_end s k esc =
     (case validate_escape s k of Inl e \<Rightarrow> Inl e | Inr k' \<Rightarrow> string_end s k' True)"
  by (subst string_end.simps)
     (simp add: skip_ordinary_stop [of k s "CHR 0x5C" r] stops_string_def get_at_drop)

lemma string_end_control:
  assumes "drop k s = c # r" "stops_string c" "c \<noteq> CHR 0x22" "c \<noteq> CHR 0x5C"
  shows "\<exists>e. string_end s k esc = Inl e"
  using assms
  by (subst string_end.simps) (simp add: skip_ordinary_stop [of k s c r] get_at_drop)

lemma string_end_eof: "drop k s = [] \<Longrightarrow> \<exists>e. string_end s k esc = Inl e"
  by (subst string_end.simps) (simp add: skip_ordinary_end get_at_drop)

lemma validate_escape_simple:
  assumes "drop k s = CHR 0x5C # e # r" and "simple_escape e \<noteq> None"
  shows "validate_escape s k = Inr (k + 2)"
  using assms(2) drop_Suc_Cons [OF assms(1)] unfolding simple_escape_iff
  by (simp add: validate_escape_def get_at_drop)

lemma validate_escape_unicode:
  assumes "drop k s = CHR 0x5C # CHR ''u'' # ds @ r" and "length ds = 4"
    and "list_all is_ascii_hexdigit ds"
  shows "validate_escape s k = Inr (k + 6)"
proof -
  have "drop (k + 2) s = ds @ r"
    using drop_append_length [of k s "[CHR 0x5C, CHR ''u'']" "ds @ r"] assms(1) by simp
  moreover have "ds \<noteq> []" using assms(2) by auto
  ultimately have "get_range s (k + 2) (k + 6) = Some ds"
    using get_range_drop [of "k + 2" s ds r] assms(2) by (simp add: add.commute [of k 6])
  then show ?thesis
    using assms(3) drop_Suc_Cons [OF assms(1)] by (simp add: validate_escape_def get_at_drop)
qed

lemma validate_escape_InrE:
  assumes "validate_escape s k = Inr k'" and "drop k s = CHR 0x5C # t"
  obtains (simple) e r where "t = e # r" "simple_escape e \<noteq> None" "k' = k + 2"
  | (unicode) ds r where "t = CHR ''u'' # ds @ r" "length ds = 4" "list_all is_ascii_hexdigit ds"
      "k' = k + 6"
proof -
  from assms(1) obtain e where e: "get_at s (k + 1) = Some e"
    by (auto simp: validate_escape_def split: option.splits)
  then obtain r where r: "t = e # r"
    using drop_Suc_Cons [OF assms(2)] by (cases t) (auto simp: get_at_drop)
  show thesis
  proof (cases "simple_escape e \<noteq> None")
    case True
    with assms(1) e r simple show thesis
      unfolding simple_escape_iff by (simp add: validate_escape_def)
  next
    case False
    with assms(1) e have u: "e = CHR ''u''" and "get_range s (k + 2) (k + 6) \<noteq> None"
      unfolding simple_escape_iff
      by (auto simp: validate_escape_def split: if_splits option.splits)
    then obtain ds where ds: "get_range s (k + 2) (k + 6) = Some ds" by blast
    with assms(1) e u have hex: "list_all is_ascii_hexdigit ds" "k' = k + 6"
      by (auto simp: validate_escape_def split: if_splits)
    have "drop (k + 2) s = r"
      using drop_append_length [of k s "[CHR 0x5C, e]" r] assms(2) r by simp
    with ds have "ds = take 4 r" "length ds = 4"
      by (auto simp: get_range_def split: if_splits)
    with hex u r show thesis
      by (intro unicode [of ds "drop 4 r"]) simp_all
  qed
qed

lemma string_end_complete:
  "string_body b \<Longrightarrow> drop k s = b @ CHR 0x22 # r \<Longrightarrow>
   string_end s k esc = Inr (k + length b, esc \<or> CHR 0x5C \<in> set b)"
proof (induction b arbitrary: k esc rule: string_body.induct)
  case empty
  then show ?case by (simp add: string_end_quote)
next
  case (ordinary c b)
  then have "c \<noteq> CHR 0x5C" by (auto simp: stops_string_def)
  with ordinary.IH [of "Suc k" esc] ordinary.hyps ordinary.prems drop_Suc_Cons [of k s c]
  show ?case by (auto simp: string_end_ordinary)
next
  case (simple e b)
  have "drop (k + 2) s = b @ CHR 0x22 # r"
    using drop_append_length [of k s "[CHR 0x5C, e]" "b @ CHR 0x22 # r"] simple.prems by simp
  from simple.IH [OF this] simple show ?case
    by (simp add: string_end_escape validate_escape_simple)
next
  case (unicode ds b)
  have "drop (k + length (CHR 0x5C # CHR ''u'' # ds)) s = b @ CHR 0x22 # r"
    using unicode.prems by (intro drop_append_length) simp
  then have "drop (k + 6) s = b @ CHR 0x22 # r"
    using unicode.hyps(1) by (simp add: numeral_eq_Suc)
  from unicode.IH [OF this] unicode show ?case
    by (simp add: string_end_escape validate_escape_unicode)
qed

lemma string_end_sound:
  "string_end s k esc = Inr (e, esc') \<Longrightarrow>
   \<exists>b r. drop k s = b @ CHR 0x22 # r \<and> string_body b \<and> e = k + length b \<and>
         esc' = (esc \<or> CHR 0x5C \<in> set b)"
proof (induction "length s - k" arbitrary: k esc rule: less_induct)
  case less
  show ?case
  proof (cases "drop k s")
    case Nil
    with less.prems string_end_eof [of k s esc] show ?thesis by auto
  next
    case (Cons c r)
    then have k: "k < length s" by (simp add: drop_ConsD)
    consider "\<not> stops_string c" | "c = CHR 0x22" | "c = CHR 0x5C"
      | "stops_string c" "c \<noteq> CHR 0x22" "c \<noteq> CHR 0x5C" by blast
    then show ?thesis
    proof cases
      case 1
      with less.prems Cons have nxt: "string_end s (Suc k) esc = Inr (e, esc')"
        by (simp add: string_end_ordinary)
      have "length s - Suc k < length s - k" using k by simp
      from less.hyps [OF this nxt] drop_Suc_Cons [OF Cons] obtain b r' where
        "r = b @ CHR 0x22 # r'" "string_body b" "e = Suc k + length b"
        "esc' = (esc \<or> CHR 0x5C \<in> set b)" by auto
      moreover have "c \<noteq> CHR 0x5C" using 1 by (auto simp: stops_string_def)
      ultimately show ?thesis using 1 Cons
        by (intro exI [of _ "c # b"] exI [of _ r']) (auto intro: string_body.ordinary)
    next
      case 2
      with less.prems Cons show ?thesis
        by (intro exI [of _ "[]"] exI [of _ r]) (simp add: string_end_quote string_body.empty)
    next
      case 3
      with less.prems Cons obtain k' where k': "validate_escape s k = Inr k'"
        "string_end s k' True = Inr (e, esc')"
        by (auto simp: string_end_escape split: sum.splits)
      from validate_escape_gt [OF k'(1)] k have "length s - k' < length s - k" by (simp add: diff_less_mono2)
      from less.hyps [OF this k'(2)] obtain b r' where b: "drop k' s = b @ CHR 0x22 # r'"
        "string_body b" "e = k' + length b" "esc'" by auto
      from k'(1) Cons [unfolded 3] show ?thesis
      proof (cases rule: validate_escape_InrE)
        case (simple f r1)
        have "drop k' s = r1"
          using drop_append_length [of k s "[CHR 0x5C, f]" r1] Cons 3 simple by simp
        with b simple Cons 3 show ?thesis
          by (intro exI [of _ "CHR 0x5C # f # b"] exI [of _ r'])
             (simp add: string_body.simple)
      next
        case (unicode ds r1)
        have "drop (k + length (CHR 0x5C # CHR ''u'' # ds)) s = r1"
          using Cons 3 unicode by (intro drop_append_length) simp
        then have "drop k' s = r1" using unicode by (simp add: numeral_eq_Suc)
        with b unicode Cons 3 show ?thesis
          by (intro exI [of _ "CHR 0x5C # CHR ''u'' # ds @ b"] exI [of _ r'])
             (simp add: string_body.unicode)
      qed
    next
      case 4
      with less.prems Cons string_end_control [of k s c r esc] show ?thesis by auto
    qed
  qed
qed

lemma valid_utf8_split_ascii:
  assumes "valid_utf8 (a @ c # b)" and "byte_val c < 128"
  shows "valid_utf8 b"
proof -
  have "list_all is_scalar cs \<Longrightarrow> utf8 cs = a @ c # b \<Longrightarrow> valid_utf8 b" for cs
  proof (induction cs arbitrary: a)
    case (Cons d cs)
    have multi: "byte_val x \<ge> 128" if "x \<in> set (encode_utf8 d)" "128 \<le> d" for x
    proof -
      have "d < 0x110000" using Cons.prems(1) by (auto simp: is_scalar_def)
      then have "d div 262144 < 8" by simp
      moreover have "d < 0x10000 \<Longrightarrow> d div 4096 < 16" "d < 0x800 \<Longrightarrow> d div 64 < 32" by simp_all
      ultimately show ?thesis using that by (auto simp: encode_utf8_def split: if_splits)
    qed
    from Cons.prems(2) have eq: "encode_utf8 d @ utf8 cs = a @ c # b" by simp
    show ?case
    proof (cases "length a < len_utf8 d")
      case True
      then have "c \<in> set (encode_utf8 d)"
        using arg_cong [OF eq, of "\<lambda>s. s ! length a"] by (simp add: nth_append) (metis length_encode_utf8 nth_mem)
      with multi assms(2) have "d < 128" by force
      with eq True have "utf8 cs = b" by (simp add: encode_utf8_def len_utf8_def)
      with Cons.prems(1) show ?thesis by auto
    next
      case False
      then have "a = encode_utf8 d @ drop (len_utf8 d) a"
        using eq by (metis append_eq_append_conv_if length_encode_utf8 linorder_not_less append_take_drop_id)
      with eq have "utf8 cs = drop (len_utf8 d) a @ c # b" by (metis append.assoc append_same_eq same_append_eq)
      with Cons show ?thesis by simp
    qed
  qed simp
  with assms(1) show ?thesis by (auto simp: valid_utf8_iff)
qed

lemma tk_input_split: "tk_rest tk = m @ r \<Longrightarrow> m \<noteq> [] \<Longrightarrow>
  tk_input tk = take (tk_offset tk) (tk_input tk) @ m @ r \<and>
  length (take (tk_offset tk) (tk_input tk)) = tk_offset tk"
  by (cases m) (auto simp: tk_rest_def dest: drop_ConsD, metis append_take_drop_id)

lemma scan_string_iff:
  assumes "valid_utf8 (tk_input tk)" and "tk_rest tk = CHR 0x22 # t"
  shows "scan_string tk = (Inr (b, esc), tk') \<longleftrightarrow>
    (\<exists>r. t = b @ CHR 0x22 # r \<and> string_body b \<and> esc = (CHR 0x5C \<in> set b) \<and>
         tk' = tk\<lparr>tk_offset := tk_offset tk + length b + 2\<rparr>)"
proof -
  have t: "drop (tk_offset tk + 1) (tk_input tk) = t"
    using drop_Suc_Cons [of "tk_offset tk" "tk_input tk"] assms(2) by (simp add: tk_rest_def)
  have get: "str_get (tk_input tk) (tk_offset tk + 1) (tk_offset tk + 1 + length b) = Some b"
    if "t = b @ CHR 0x22 # r" for b r
  proof -
    let ?pre = "take (tk_offset tk) (tk_input tk)"
    have split: "tk_input tk = (?pre @ [CHR 0x22]) @ b @ CHR 0x22 # r"
      "length (?pre @ [CHR 0x22]) = tk_offset tk + 1"
      using tk_input_split [of tk "[CHR 0x22]" t] assms(2) that by auto
    have "valid_utf8 (b @ CHR 0x22 # r)"
      using valid_utf8_split_ascii [of ?pre "CHR 0x22" "b @ CHR 0x22 # r"] split(1) assms(1) by simp
    moreover from this have "valid_utf8 (CHR 0x22 # r)"
      using valid_utf8_split_ascii [of b "CHR 0x22" r] by simp
    ultimately show ?thesis
      using str_get_append [of b "CHR 0x22 # r" "?pre @ [CHR 0x22]"] split by metis
  qed
  show ?thesis
  proof
    assume "scan_string tk = (Inr (b, esc), tk')"
    then obtain e where e: "string_end (tk_input tk) (tk_offset tk + 1) False = Inr (e, esc)"
      "str_get (tk_input tk) (tk_offset tk + 1) e = Some b" "tk' = tk\<lparr>tk_offset := e + 1\<rparr>"
      by (auto simp: scan_string_def Let_def split: sum.splits option.splits)
    from string_end_sound [OF e(1)] t obtain b' r where
      "t = b' @ CHR 0x22 # r" "string_body b'" "e = tk_offset tk + 1 + length b'"
      "esc = (CHR 0x5C \<in> set b')" by auto
    moreover from this get e(2) have "b' = b" by auto
    ultimately show "\<exists>r. t = b @ CHR 0x22 # r \<and> string_body b \<and> esc = (CHR 0x5C \<in> set b) \<and>
         tk' = tk\<lparr>tk_offset := tk_offset tk + length b + 2\<rparr>"
      using e(3) by auto
  next
    assume "\<exists>r. t = b @ CHR 0x22 # r \<and> string_body b \<and> esc = (CHR 0x5C \<in> set b) \<and>
         tk' = tk\<lparr>tk_offset := tk_offset tk + length b + 2\<rparr>"
    then obtain r where r: "t = b @ CHR 0x22 # r" "string_body b" "esc = (CHR 0x5C \<in> set b)"
      "tk' = tk\<lparr>tk_offset := tk_offset tk + length b + 2\<rparr>" by blast
    with string_end_complete [OF r(2), of "tk_offset tk + 1" "tk_input tk" r False] t get [OF r(1)]
    show "scan_string tk = (Inr (b, esc), tk')" by (simp add: scan_string_def Let_def)
  qed
qed

section \<open>Numbers\<close>

definition int_part :: "string \<Rightarrow> bool" where
  "int_part m \<longleftrightarrow> m = ''0'' \<or> (m \<noteq> [] \<and> list_all is_ascii_digit m \<and> hd m \<noteq> CHR ''0'')"

definition frac_part :: "string \<Rightarrow> bool" where
  "frac_part m \<longleftrightarrow> m = [] \<or> (\<exists>ds. m = CHR ''.'' # ds \<and> ds \<noteq> [] \<and> list_all is_ascii_digit ds)"

definition exp_part :: "string \<Rightarrow> bool" where
  "exp_part m \<longleftrightarrow> m = [] \<or>
     (\<exists>e sg ds. m = e # sg @ ds \<and> (e = CHR ''e'' \<or> e = CHR ''E'') \<and>
                (sg = [] \<or> sg = ''+'' \<or> sg = ''-'') \<and> ds \<noteq> [] \<and> list_all is_ascii_digit ds)"

definition number_text :: "string \<Rightarrow> bool" where
  "number_text s \<longleftrightarrow>
     (\<exists>sg i f x. s = sg @ i @ f @ x \<and> (sg = [] \<or> sg = ''-'') \<and>
                 int_part i \<and> frac_part f \<and> exp_part x)"

lemma skip_digits_drop:
  "skip_digits s k = k + length (takeWhile is_ascii_digit (drop k s))"
proof (induction s k rule: skip_digits.induct)
  case (1 s k)
  show ?case
  proof (cases "drop k s")
    case Nil
    then show ?thesis by (subst skip_digits.simps) (simp add: get_at_drop)
  next
    case (Cons b r)
    then have at: "get_at s k = Some b" by (simp add: get_at_drop)
    show ?thesis using 1 [OF at] at Cons drop_Suc_Cons [OF Cons]
      by (subst skip_digits.simps) simp
  qed
qed

definition no_digit :: "string \<Rightarrow> bool" where
  "no_digit r \<longleftrightarrow> (case r of [] \<Rightarrow> True | c # _ \<Rightarrow> \<not> is_ascii_digit c)"

lemma takeWhile_digits:
  "list_all is_ascii_digit ds \<Longrightarrow> no_digit r \<Longrightarrow> takeWhile is_ascii_digit (ds @ r) = ds"
  by (induction ds) (auto simp: no_digit_def split: list.splits)

lemma skip_digits_append:
  "drop k s = ds @ r \<Longrightarrow> list_all is_ascii_digit ds \<Longrightarrow> no_digit r \<Longrightarrow>
   skip_digits s k = k + length ds"
  by (simp add: skip_digits_drop takeWhile_digits)

lemma skip_digits_split:
  obtains ds r where "drop k s = ds @ r" "list_all is_ascii_digit ds" "skip_digits s k = k + length ds"
proof (rule that)
  show "drop k s = takeWhile is_ascii_digit (drop k s) @ dropWhile is_ascii_digit (drop k s)" by simp
  show "list_all is_ascii_digit (takeWhile is_ascii_digit (drop k s))"
    by (auto simp: list_all_iff dest: set_takeWhileD)
qed (rule skip_digits_drop)

lemma number_int_sound:
  assumes "number_int s k = Inr k'"
  shows "\<exists>m r. drop k s = m @ r \<and> int_part m \<and> k' = k + length m"
proof -
  from assms obtain b where b: "get_at s k = Some b"
    by (auto simp: number_int_def split: option.splits)
  then obtain r where r: "drop k s = b # r" by (auto simp: get_at_drop split: list.splits)
  show ?thesis
  proof (cases "b = CHR ''0''")
    case True
    with assms b have "k' = k + 1" by (auto simp: number_int_def split: option.splits if_splits)
    with True r show ?thesis by (intro exI [of _ "''0''"] exI [of _ r]) (simp add: int_part_def)
  next
    case False
    with assms b have k': "is_ascii_digit b" "k' = skip_digits s k"
      by (auto simp: number_int_def split: if_splits)
    obtain ds t where ds: "drop k s = ds @ t" "list_all is_ascii_digit ds"
      "skip_digits s k = k + length ds" by (rule skip_digits_split)
    with k' number_int_gt [OF assms] have "ds \<noteq> []" by auto
    with ds r k' False show ?thesis
      by (intro exI [of _ ds] exI [of _ t]) (cases ds, auto simp: int_part_def)
  qed
qed

lemma number_int_complete:
  assumes "drop k s = m @ r" and "int_part m" and "no_digit r"
  shows "number_int s k = Inr (k + length m)"
proof (cases "m = ''0''")
  case True
  with assms have "drop k s = CHR ''0'' # r" by simp
  with drop_Suc_Cons [OF this] assms(3) True show ?thesis
    by (auto simp: number_int_def get_at_drop no_digit_def split: list.splits)
next
  case False
  with assms(2) obtain b ds where "m = b # ds" "list_all is_ascii_digit m" "b \<noteq> CHR ''0''"
    by (cases m) (auto simp: int_part_def)
  with assms skip_digits_append [OF assms(1)] show ?thesis
    by (simp add: number_int_def get_at_drop)
qed

lemma number_frac_sound:
  assumes "number_frac s k = Inr k'"
  shows "\<exists>m r. drop k s = m @ r \<and> frac_part m \<and> k' = k + length m"
proof (cases "get_at s k = Some (CHR ''.'')")
  case True
  then obtain r where r: "drop k s = CHR ''.'' # r" by (auto simp: get_at_drop split: list.splits)
  obtain ds t where ds: "drop (Suc k) s = ds @ t" "list_all is_ascii_digit ds"
    "skip_digits s (Suc k) = Suc k + length ds" by (rule skip_digits_split)
  from True assms ds(3) have "ds \<noteq> []" "k' = k + length (CHR ''.'' # ds)"
    by (auto simp: number_frac_def Let_def split: if_splits)
  with r ds drop_Suc_Cons [OF r] show ?thesis
    by (intro exI [of _ "CHR ''.'' # ds"] exI [of _ t]) (simp add: frac_part_def)
next
  case False
  with assms show ?thesis by (auto simp: number_frac_def frac_part_def)
qed

lemma number_frac_complete:
  assumes "drop k s = m @ r" and "frac_part m" and "no_digit r"
    and "m = [] \<Longrightarrow> r = [] \<or> hd r \<noteq> CHR ''.''"
  shows "number_frac s k = Inr (k + length m)"
proof (cases "m = []")
  case True
  with assms(1,4) show ?thesis by (auto simp: number_frac_def get_at_drop split: list.splits)
next
  case False
  with assms(2) obtain ds where ds: "m = CHR ''.'' # ds" "ds \<noteq> []" "list_all is_ascii_digit ds"
    by (auto simp: frac_part_def)
  with assms(1) have "drop k s = CHR ''.'' # ds @ r" by simp
  from skip_digits_append [OF drop_Suc_Cons [OF this] ds(3) assms(3)] this ds show ?thesis
    by (simp add: number_frac_def get_at_drop Let_def)
qed

lemma number_exp_sound:
  assumes "number_exp s k = Inr k'"
  shows "\<exists>m r. drop k s = m @ r \<and> exp_part m \<and> k' = k + length m"
proof (cases "get_at s k \<in> {Some (CHR ''e''), Some (CHR ''E'')}")
  case True
  then obtain e r where r: "drop k s = e # r" "e = CHR ''e'' \<or> e = CHR ''E''"
    by (auto simp: get_at_drop split: list.splits)
  define sg where "sg = (if get_at s (Suc k) = Some (CHR ''+'') then ''+''
      else if get_at s (Suc k) = Some (CHR ''-'') then ''-'' else [])"
  have sg: "sg = [] \<or> sg = ''+'' \<or> sg = ''-''" by (simp add: sg_def)
  have "\<exists>r'. r = sg @ r'"
    using drop_Suc_Cons [OF r(1)] by (auto simp: sg_def get_at_drop split: list.splits)
  then obtain r' where r': "r = sg @ r'" by blast
  have k2: "(if get_at s (k + 1) \<in> {Some (CHR ''+''), Some (CHR ''-'')} then k + 1 + 1 else k + 1)
      = k + length (e # sg)" by (auto simp: sg_def)
  have d: "drop (k + length (e # sg)) s = r'"
    using r r' by (intro drop_append_length) simp
  obtain ds t where ds: "drop (k + length (e # sg)) s = ds @ t" "list_all is_ascii_digit ds"
    "skip_digits s (k + length (e # sg)) = k + length (e # sg) + length ds" by (rule skip_digits_split)
  from True assms ds(3) have "ds \<noteq> []" "k' = k + length (e # sg @ ds)"
    unfolding number_exp_def Let_def k2 by (auto split: if_splits)
  with r r' ds d sg show ?thesis
    by (intro exI [of _ "e # sg @ ds"] exI [of _ t]) (auto simp: exp_part_def)
next
  case False
  with assms show ?thesis by (auto simp: number_exp_def exp_part_def)
qed

lemma number_exp_complete:
  assumes "drop k s = m @ r" and "exp_part m" and "no_digit r"
    and "m = [] \<Longrightarrow> r = [] \<or> hd r \<noteq> CHR ''e'' \<and> hd r \<noteq> CHR ''E''"
  shows "number_exp s k = Inr (k + length m)"
proof (cases "m = []")
  case True
  with assms(1,4) show ?thesis by (auto simp: number_exp_def get_at_drop split: list.splits)
next
  case False
  with assms(2) obtain e sg ds where m: "m = e # sg @ ds" "e = CHR ''e'' \<or> e = CHR ''E''"
    "sg = [] \<or> sg = ''+'' \<or> sg = ''-''" "ds \<noteq> []" "list_all is_ascii_digit ds"
    by (auto simp: exp_part_def)
  from assms(1) m(1) have k: "drop k s = e # sg @ ds @ r" by simp
  have d: "drop (k + length (e # sg)) s = ds @ r" using k by (intro drop_append_length) simp
  have "get_at s (Suc k) \<noteq> Some (CHR ''+'') \<and> get_at s (Suc k) \<noteq> Some (CHR ''-'')" if "sg = []"
    using m(4,5) that drop_Suc_Cons [OF k] by (cases ds) (auto simp: get_at_drop is_ascii_digit_def)
  moreover have "sg \<noteq> [] \<Longrightarrow> get_at s (Suc k) = Some (hd sg)"
    using drop_Suc_Cons [OF k] by (cases sg) (auto simp: get_at_drop)
  ultimately have k2: "(if get_at s (k + 1) \<in> {Some (CHR ''+''), Some (CHR ''-'')} then k + 1 + 1 else k + 1)
      = k + length (e # sg)" using m(3) by auto
  from skip_digits_append [OF d m(5) assms(3)] m(1,2,4) k show ?thesis
    unfolding number_exp_def Let_def k2 by (auto simp: get_at_drop)
qed

lemma number_sign_drop:
  obtains sg r where "drop k s = sg @ r" "sg = [] \<or> sg = ''-''" "number_sign s k = k + length sg"
proof (cases "get_at s k = Some (CHR ''-'')")
  case True
  then show thesis by (intro that [of "''-''" "tl (drop k s)"]) (auto simp: number_sign_def get_at_drop split: list.splits)
next
  case False
  then show thesis by (intro that [of "[]"]) (auto simp: number_sign_def)
qed

lemma scan_number_sound:
  assumes "scan_number tk = (Inr t, tk')"
  shows "\<exists>r. tk_rest tk = t @ r \<and> number_text t \<and> tk' = tk\<lparr>tk_offset := tk_offset tk + length t\<rparr>"
proof -
  let ?s = "tk_input tk" and ?k = "tk_offset tk"
  from assms obtain c1 c2 c where c: "number_int ?s (number_sign ?s ?k) = Inr c1"
    "number_frac ?s c1 = Inr c2" "number_exp ?s c2 = Inr c" "str_get ?s ?k c = Some t"
    "tk' = tk\<lparr>tk_offset := c\<rparr>"
    by (auto simp: scan_number_def Let_def split: sum.splits option.splits)
  obtain sg r0 where sg: "drop ?k ?s = sg @ r0" "sg = [] \<or> sg = ''-''"
    "number_sign ?s ?k = ?k + length sg" by (rule number_sign_drop)
  from number_int_sound [OF c(1)] sg(3) drop_append_length [OF sg(1)] obtain i r1 where
    i: "r0 = i @ r1" "int_part i" "c1 = ?k + length (sg @ i)" by auto
  from number_frac_sound [OF c(2)] i drop_append_length [of ?k ?s "sg @ i" r1] sg(1) obtain f r2 where
    f: "r1 = f @ r2" "frac_part f" "c2 = ?k + length (sg @ i @ f)" by auto
  from number_exp_sound [OF c(3)] f i drop_append_length [of ?k ?s "sg @ i @ f" r2] sg(1)
  obtain x r3 where x: "r2 = x @ r3" "exp_part x" "c = ?k + length (sg @ i @ f @ x)" by auto
  from c(4) have "t = take (c - ?k) (drop ?k ?s)" by (auto simp: str_get_def split: if_splits)
  also have "\<dots> = sg @ i @ f @ x" using sg(1) i(1) f(1) x(1,3) by simp
  finally have t: "t = sg @ i @ f @ x" .
  then have "number_text t" using sg(2) i(2) f(2) x(2) unfolding number_text_def by blast
  then show ?thesis using c(5) t sg(1) i(1) f(1) x(1,3) by (simp add: tk_rest_def)
qed

text \<open>The bytes that may follow a value: whitespace, a comma, a closing bracket, or nothing.\<close>

definition delim :: "string \<Rightarrow> bool" where
  "delim r \<longleftrightarrow> (case r of [] \<Rightarrow> True
                | c # _ \<Rightarrow> is_ws c \<or> c = CHR '','' \<or> c = CHR '']'' \<or> c = CHR ''}'')"

lemma delim_facts:
  assumes "delim (c # r)"
  shows "\<not> is_ascii_digit c" "c \<noteq> CHR ''.''" "c \<noteq> CHR ''e''" "c \<noteq> CHR ''E''" "byte_val c < 128"
  using assms by (auto simp: delim_def is_ws_def is_ascii_digit_def)

lemma number_text_ascii:
  assumes "number_text t"
  shows "t \<noteq> [] \<and> byte_val (hd t) < 128 \<and> (hd t = CHR ''-'' \<or> is_ascii_digit (hd t))"
proof -
  from assms obtain sg i f x where t: "t = sg @ i @ f @ x" "sg = [] \<or> sg = ''-''" "int_part i"
    unfolding number_text_def by blast
  from t(3) obtain d ds where "i = d # ds" "is_ascii_digit d"
    by (cases i) (auto simp: int_part_def is_ascii_digit_def)
  with t show ?thesis by (auto simp: is_ascii_digit_def)
qed

lemma scan_number_complete:
  assumes "tk_rest tk = t @ r" and "number_text t" and "delim r"
  shows "scan_number tk = (Inr t, tk\<lparr>tk_offset := tk_offset tk + length t\<rparr>)"
proof -
  let ?s = "tk_input tk" and ?k = "tk_offset tk"
  from assms(2) obtain sg i f x where t: "t = sg @ i @ f @ x" "sg = [] \<or> sg = ''-''"
    "int_part i" "frac_part f" "exp_part x" unfolding number_text_def by blast
  have rest: "drop ?k ?s = sg @ i @ f @ x @ r" using assms(1) t(1) by (simp add: tk_rest_def)
  have nr: "no_digit r" "r = [] \<or> hd r \<noteq> CHR ''.'' \<and> hd r \<noteq> CHR ''e'' \<and> hd r \<noteq> CHR ''E''"
    using assms(3) delim_facts [of "hd r" "tl r"] by (cases r; auto simp: no_digit_def)+
  have nx: "no_digit (x @ r)" "x @ r = [] \<or> hd (x @ r) \<noteq> CHR ''.''"
    using t(5) nr by (auto simp: exp_part_def no_digit_def is_ascii_digit_def)
  have nf: "no_digit (f @ x @ r)"
    using t(4) nx by (auto simp: frac_part_def no_digit_def is_ascii_digit_def)
  have i0: "i \<noteq> []" "hd i \<noteq> CHR ''-''" using t(3) by (auto simp: int_part_def is_ascii_digit_def neq_Nil_conv)
  have sign: "number_sign ?s ?k = ?k + length sg"
    using rest t(2) i0 by (cases i) (auto simp: number_sign_def get_at_drop)
  have int: "number_int ?s (?k + length sg) = Inr (?k + length sg + length i)"
    using t(3) nf drop_append_length [of ?k ?s sg] rest by (intro number_int_complete) auto
  have frac: "number_frac ?s (?k + length sg + length i) = Inr (?k + length sg + length i + length f)"
    using t(4) nx drop_append_length [of ?k ?s "sg @ i"] rest
    by (intro number_frac_complete) (auto simp: add.assoc)
  have exp: "number_exp ?s (?k + length sg + length i + length f) = Inr (?k + length t)"
    using t nr drop_append_length [of ?k ?s "sg @ i @ f"] rest
    by (subst number_exp_complete [of _ _ x r]) (auto simp: add.assoc)
  obtain b t' where b: "t = b # t'" "byte_val b < 128"
    using number_text_ascii [OF assms(2)] by (cases t) auto
  have k: "?k < length ?s" "?s ! ?k = b"
    using drop_ConsD [of ?k ?s b] assms(1) b(1) by (simp_all add: tk_rest_def)
  then have "is_char_boundary ?s ?k" using b(2) by (simp add: is_char_boundary_def is_continuation_def)
  moreover have fin: "drop (?k + length t) ?s = r" using assms(1) by (intro drop_append_length) (simp add: tk_rest_def)
  moreover have "?k + length t \<le> length ?s"
    using arg_cong [OF assms(1), of length] k(1) by (simp add: tk_rest_def)
  moreover from this have "is_char_boundary ?s (?k + length t)"
    using fin assms(3) delim_facts [of "hd r" "tl r"] drop_ConsD [of "?k + length t" ?s]
    by (cases r) (auto simp: is_char_boundary_def is_continuation_def)
  ultimately have "str_get ?s ?k (?k + length t) = Some t"
    using assms(1) by (simp add: str_get_def tk_rest_def)
  then show ?thesis by (simp add: scan_number_def Let_def sign int frac exp)
qed

section \<open>The bitmap of open containers is a stack\<close>

text \<open>\<open>kinds tk\<close> lists the open containers, the innermost first; \<open>True\<close> is an array.\<close>

definition kind_at :: "64 word list \<Rightarrow> nat \<Rightarrow> bool" where
  "kind_at st i \<longleftrightarrow> bit (st ! (i div 64)) (i mod 64)"

fun kinds_upto :: "64 word list \<Rightarrow> nat \<Rightarrow> bool list" where
  "kinds_upto st 0 = []"
| "kinds_upto st (Suc n) = kind_at st n # kinds_upto st n"

definition kinds :: "tokenizer \<Rightarrow> bool list" where
  "kinds tk = kinds_upto (tk_stack tk) (tk_depth tk)"

definition stack_wf :: "tokenizer \<Rightarrow> bool" where
  "stack_wf tk \<longleftrightarrow> length (tk_stack tk) = STACK_WORDS \<and> tk_depth tk \<le> MAX_DEPTH"

lemma length_kinds [simp]: "length (kinds tk) = tk_depth tk"
proof -
  have "length (kinds_upto st n) = n" for st n by (induction n) simp_all
  then show ?thesis by (simp add: kinds_def)
qed

lemma kinds_upto_cong:
  "(\<And>i. i < n \<Longrightarrow> kind_at st i = kind_at st' i) \<Longrightarrow> kinds_upto st n = kinds_upto st' n"
  by (induction n) simp_all

lemma bit_mask: "m < 64 \<Longrightarrow> bit ((2 :: 64 word) ^ m) j \<longleftrightarrow> j = m"
  by (cases "j = m") (simp_all add: bit_exp_iff possible_bit_word)

lemma kind_at_update:
  assumes "n div 64 < length st"
  shows "kind_at (st[n div 64 := (if a then (st ! (n div 64)) OR push_bit (n mod 64) 1
                                  else (st ! (n div 64)) AND NOT (push_bit (n mod 64) 1))]) i
    = (if i = n then a else kind_at st i)"
proof (cases "i div 64 = n div 64")
  case True
  then have "(i mod 64 = n mod 64) = (i = n)" by (metis div_mult_mod_eq)
  moreover have "bit (NOT (w :: 64 word)) (i mod 64) \<longleftrightarrow> \<not> bit w (i mod 64)" for w
    by (simp add: bit_not_iff possible_bit_word)
  ultimately show ?thesis using assms True
    by (cases a; cases "i = n") (simp_all add: kind_at_def bit_or_iff bit_and_iff bit_mask)
next
  case False
  then show ?thesis by (auto simp: kind_at_def)
qed

lemma push_cases:
  assumes "stack_wf tk"
  obtains (full) "tk_depth tk = MAX_DEPTH" "push a tk = (Inl (tk_error tk DepthExceeded), tk)"
  | (room) st where "tk_depth tk < MAX_DEPTH"
      "push a tk = (Inr (), tk\<lparr>tk_stack := st, tk_depth := tk_depth tk + 1\<rparr>)"
      "length st = STACK_WORDS" "kinds_upto st (tk_depth tk + 1) = a # kinds tk"
proof (cases "tk_depth tk < MAX_DEPTH")
  case False
  with assms show thesis by (intro full) (auto simp: push_def stack_wf_def)
next
  case True
  let ?n = "tk_depth tk" and ?st = "tk_stack tk"
  from True assms have word: "?n div 64 < length ?st"
    by (auto simp: MAX_DEPTH_def STACK_WORDS_def stack_wf_def)
  define st where "st = ?st[?n div 64 := (if a then (?st ! (?n div 64)) OR push_bit (?n mod 64) 1
                                  else (?st ! (?n div 64)) AND NOT (push_bit (?n mod 64) 1))]"
  have at: "kind_at st i = (if i = ?n then a else kind_at ?st i)" for i
    unfolding st_def by (rule kind_at_update [OF word])
  show thesis
  proof (rule room [of st])
    show "push a tk = (Inr (), tk\<lparr>tk_stack := st, tk_depth := tk_depth tk + 1\<rparr>)"
      using True word by (simp add: push_def Let_def st_def)
    show "length st = STACK_WORDS" using assms by (simp add: st_def stack_wf_def)
    have "kinds_upto st ?n = kinds_upto ?st ?n" by (rule kinds_upto_cong) (simp add: at)
    then show "kinds_upto st (?n + 1) = a # kinds tk" using at [of ?n] by (simp add: kinds_def)
  qed (fact True)
qed

lemma in_array_kinds:
  assumes "stack_wf tk"
  shows "in_array tk \<longleftrightarrow> (\<exists>ks. kinds tk = True # ks)"
proof (cases "tk_depth tk")
  case 0
  then show ?thesis by (simp add: in_array_def kinds_def)
next
  case (Suc n)
  with assms have "n div 64 < length (tk_stack tk)"
    by (auto simp: MAX_DEPTH_def STACK_WORDS_def stack_wf_def)
  then have "in_array tk \<longleftrightarrow> drop_bit (n mod 64) (tk_stack tk ! (n div 64)) AND 1 = 1"
    using Suc by (simp add: in_array_def get_at_def)
  also have "\<dots> \<longleftrightarrow> bit (tk_stack tk ! (n div 64)) (n mod 64)"
    by (simp add: and_one_eq bit_iff_odd_drop_bit odd_iff_mod_2_eq_one)
  finally show ?thesis using Suc by (simp add: kinds_def kind_at_def)
qed

definition after :: "bool list \<Rightarrow> tstate" where
  "after ks = (case ks of [] \<Rightarrow> Done | True # _ \<Rightarrow> ArrayComma | False # _ \<Rightarrow> ObjectComma)"

lemma after_value_state:
  assumes "stack_wf tk"
  shows "after_value tk = tk\<lparr>tk_state := after (kinds tk)\<rparr>"
proof (cases "kinds tk")
  case Nil
  then have "tk_depth tk = 0" using length_kinds [of tk] by simp
  with Nil show ?thesis by (simp add: after_value_def after_def)
next
  case (Cons k ks)
  then have "tk_depth tk \<noteq> 0" using length_kinds [of tk] by auto
  with Cons in_array_kinds [OF assms] show ?thesis
    by (cases k) (simp_all add: after_value_def after_def)
qed

lemma close_container_state:
  assumes "stack_wf tk" and "kinds tk = k # ks"
  shows "close_container tk =
      tk\<lparr>tk_offset := tk_offset tk + 1, tk_depth := tk_depth tk - 1, tk_state := after ks\<rparr>"
    "kinds (close_container tk) = ks"
proof -
  let ?tk = "tk\<lparr>tk_offset := tk_offset tk + 1, tk_depth := tk_depth tk - 1\<rparr>"
  obtain n where n: "tk_depth tk = Suc n" using assms(2) length_kinds [of tk] by (cases "tk_depth tk") auto
  have ks: "kinds ?tk = ks" using assms(2) n by (simp add: kinds_def)
  moreover have "stack_wf ?tk" using assms(1) by (auto simp: stack_wf_def)
  ultimately show 1: "close_container tk =
      tk\<lparr>tk_offset := tk_offset tk + 1, tk_depth := tk_depth tk - 1, tk_state := after ks\<rparr>"
    by (simp add: close_container_def after_value_state)
  show "kinds (close_container tk) = ks" unfolding 1 using ks by (simp add: kinds_def)
qed

end
