(* ===== verification/Json_Grammar.thy ===== *)
theory Json_Grammar
  imports Json_Scan
begin

text \<open>
  The language of the tokenizer. \<open>json_text\<close> is the grammar of RFC 8259 with insignificant
  whitespace, over a value type that keeps the source form of strings and numbers;
  \<open>tokens_of\<close> is the sequence of visitor calls a value stands for. The proof goes through
  an abstract machine on stacks of container kinds and remaining input, which every turn
  of the loop in \<open>run\<close> follows and which the grammar generates and parses.
\<close>

section \<open>Values, their text and their tokens\<close>

datatype json =
  JNull | JBool bool | JNum string | JStr string | JArr "json list" | JObj "(string \<times> json) list"

definition string_token :: "string \<Rightarrow> token" where
  "string_token b = (if CHR 0x5C \<in> set b then EscapeStringTok (es_new b) else StringTok b)"

definition key_token :: "string \<Rightarrow> token" where
  "key_token b = (if CHR 0x5C \<in> set b then EscapeKey (es_new b) else Key b)"

fun tokens_of :: "json \<Rightarrow> token list" where
  "tokens_of JNull = [NullTok]"
| "tokens_of (JBool v) = [BooleanTok v]"
| "tokens_of (JNum n) = [NumberTok n]"
| "tokens_of (JStr b) = [string_token b]"
| "tokens_of (JArr vs) = ArrayStart # concat (map tokens_of vs) @ [ArrayEnd]"
| "tokens_of (JObj ms) =
     ObjectStart # concat (map (\<lambda>(k, v). key_token k # tokens_of v) ms) @ [ObjectEnd]"

fun nesting :: "json \<Rightarrow> nat" where
  "nesting (JArr vs) = Suc (foldr (\<lambda>v n. max (nesting v) n) vs 0)"
| "nesting (JObj ms) = Suc (foldr (\<lambda>kv n. max (nesting (snd kv)) n) ms 0)"
| "nesting _ = 0"

inductive json_text :: "json \<Rightarrow> string \<Rightarrow> bool"
  and elements :: "json list \<Rightarrow> string \<Rightarrow> bool"
  and members :: "(string \<times> json) list \<Rightarrow> string \<Rightarrow> bool" where
  null: "json_text JNull ''null''"
| true: "json_text (JBool True) ''true''"
| false: "json_text (JBool False) ''false''"
| number: "number_text n \<Longrightarrow> json_text (JNum n) n"
| string: "string_body b \<Longrightarrow> json_text (JStr b) (CHR 0x22 # b @ [CHR 0x22])"
| array0: "ws w \<Longrightarrow> json_text (JArr []) (CHR ''['' # w @ [CHR '']''])"
| array: "elements vs t \<Longrightarrow> json_text (JArr vs) (CHR ''['' # t @ [CHR '']''])"
| object0: "ws w \<Longrightarrow> json_text (JObj []) (CHR ''{'' # w @ [CHR ''}''])"
| object: "members ms t \<Longrightarrow> json_text (JObj ms) (CHR ''{'' # t @ [CHR ''}''])"
| element: "ws w \<Longrightarrow> json_text v t \<Longrightarrow> ws w' \<Longrightarrow> elements [v] (w @ t @ w')"
| more_elements: "ws w \<Longrightarrow> json_text v t \<Longrightarrow> ws w' \<Longrightarrow> elements vs ts \<Longrightarrow>
    elements (v # vs) (w @ t @ w' @ CHR '','' # ts)"
| member: "ws w1 \<Longrightarrow> string_body k \<Longrightarrow> ws w2 \<Longrightarrow> ws w3 \<Longrightarrow> json_text v t \<Longrightarrow> ws w4 \<Longrightarrow>
    members [(k, v)] (w1 @ CHR 0x22 # k @ CHR 0x22 # w2 @ CHR '':'' # w3 @ t @ w4)"
| more_members: "ws w1 \<Longrightarrow> string_body k \<Longrightarrow> ws w2 \<Longrightarrow> ws w3 \<Longrightarrow> json_text v t \<Longrightarrow> ws w4 \<Longrightarrow>
    members ms ts \<Longrightarrow>
    members ((k, v) # ms)
      (w1 @ CHR 0x22 # k @ CHR 0x22 # w2 @ CHR '':'' # w3 @ t @ w4 @ CHR '','' # ts)"

section \<open>The abstract machine\<close>

type_synonym config = "bool list \<times> tstate \<times> string"

definition value_state :: "tstate \<Rightarrow> bool" where
  "value_state st \<longleftrightarrow> st \<in> {Start, ObjectValue, ArrayNextValue, ArrayFirstValue}"

inductive astep :: "bool \<Rightarrow> config \<Rightarrow> token list \<Rightarrow> config \<Rightarrow> bool" for strict where
  literal: "value_state st \<Longrightarrow> ws w \<Longrightarrow>
    (l, t) \<in> {(''true'', BooleanTok True), (''false'', BooleanTok False), (''null'', NullTok)} \<Longrightarrow>
    astep strict (ks, st, w @ l @ r) [t] (ks, after ks, r)"
| number: "value_state st \<Longrightarrow> ws w \<Longrightarrow> number_text n \<Longrightarrow> strict \<longrightarrow> delim r \<Longrightarrow>
    astep strict (ks, st, w @ n @ r) [NumberTok n] (ks, after ks, r)"
| string: "value_state st \<Longrightarrow> ws w \<Longrightarrow> string_body b \<Longrightarrow>
    astep strict (ks, st, w @ CHR 0x22 # b @ CHR 0x22 # r) [string_token b] (ks, after ks, r)"
| open_array: "value_state st \<Longrightarrow> ws w \<Longrightarrow> length ks < MAX_DEPTH \<Longrightarrow>
    astep strict (ks, st, w @ CHR ''['' # r) [ArrayStart] (True # ks, ArrayFirstValue, r)"
| open_object: "value_state st \<Longrightarrow> ws w \<Longrightarrow> length ks < MAX_DEPTH \<Longrightarrow>
    astep strict (ks, st, w @ CHR ''{'' # r) [ObjectStart] (False # ks, ObjectFirstKey, r)"
| close_array: "st \<in> {ArrayFirstValue, ArrayComma} \<Longrightarrow> ws w \<Longrightarrow>
    astep strict (True # ks, st, w @ CHR '']'' # r) [ArrayEnd] (ks, after ks, r)"
| close_object: "st \<in> {ObjectFirstKey, ObjectComma} \<Longrightarrow> ws w \<Longrightarrow>
    astep strict (False # ks, st, w @ CHR ''}'' # r) [ObjectEnd] (ks, after ks, r)"
| comma_array: "ws w \<Longrightarrow>
    astep strict (True # ks, ArrayComma, w @ CHR '','' # r) [] (True # ks, ArrayNextValue, r)"
| comma_object: "ws w \<Longrightarrow>
    astep strict (False # ks, ObjectComma, w @ CHR '','' # r) [] (False # ks, ObjectNextKey, r)"
| key: "st \<in> {ObjectFirstKey, ObjectNextKey} \<Longrightarrow> ws w \<Longrightarrow> string_body b \<Longrightarrow> ws w' \<Longrightarrow>
    astep strict (False # ks, st, w @ CHR 0x22 # b @ CHR 0x22 # w' @ CHR '':'' # r) [key_token b]
      (False # ks, ObjectValue, r)"

lemma astep_ws:
  assumes "astep strict (ks, st, r) ts c" and "ws w"
  shows "astep strict (ks, st, w @ r) ts c"
  using assms
proof (cases rule: astep.cases)
  case (literal v l t r')
  with assms(2) astep.literal [of st "w @ v" l t strict ks r'] show ?thesis by simp
next
  case (number v n r')
  with assms(2) astep.number [of st "w @ v" n strict r' ks] show ?thesis by simp
qed (simp_all add: append_assoc [symmetric] astep.intros del: append_assoc)

section \<open>The tokenizer follows the machine\<close>

definition state_ok :: "bool list \<Rightarrow> tstate \<Rightarrow> bool" where
  "state_ok ks st \<longleftrightarrow>
     (case st of Start \<Rightarrow> ks = [] | Done \<Rightarrow> ks = []
      | ArrayFirstValue \<Rightarrow> ks \<noteq> [] \<and> hd ks | ArrayNextValue \<Rightarrow> ks \<noteq> [] \<and> hd ks
      | ArrayComma \<Rightarrow> ks \<noteq> [] \<and> hd ks | _ \<Rightarrow> ks \<noteq> [] \<and> \<not> hd ks)"

definition at_config :: "tokenizer \<Rightarrow> config \<Rightarrow> bool" where
  "at_config tk c = (case c of (ks, st, r) \<Rightarrow>
     stack_wf tk \<and> valid_utf8 (tk_input tk) \<and> kinds tk = ks \<and> tk_state tk = st \<and>
     tk_rest tk = r \<and> state_ok ks st)"

lemma state_ok_after [simp]: "state_ok ks (after ks)"
  by (auto simp: state_ok_def after_def split: list.splits bool.splits)

lemma tk_rest_moved [simp]: "tk_rest (tk\<lparr>tk_offset := tk_offset tk + n\<rparr>) = drop n (tk_rest tk)"
  by (simp add: tk_rest_def add.commute)

lemma frame_simps [simp]:
  "kinds (tk\<lparr>tk_offset := k\<rparr>) = kinds tk" "kinds (tk\<lparr>tk_state := st\<rparr>) = kinds tk"
  "stack_wf (tk\<lparr>tk_offset := k\<rparr>) = stack_wf tk" "stack_wf (tk\<lparr>tk_state := st\<rparr>) = stack_wf tk"
  "tk_rest (tk\<lparr>tk_state := st\<rparr>) = tk_rest tk"
  by (simp_all add: kinds_def stack_wf_def tk_rest_def)

lemma at_config_after_value:
  assumes "at_config tk (ks, st, m @ r)" and "n = length m"
  shows "at_config (after_value (tk\<lparr>tk_offset := tk_offset tk + n\<rparr>)) (ks, after ks, r)"
  using assms by (simp add: at_config_def after_value_state)

lemma at_config_skip:
  assumes "at_config tk (ks, st, w @ r)" and "ws w" and "r \<noteq> []" and "\<not> is_ws (hd r)"
  shows "skip_whitespace tk = (Some (hd r), tk\<lparr>tk_offset := tk_offset tk + length w\<rparr>)"
    and "at_config (tk\<lparr>tk_offset := tk_offset tk + length w\<rparr>) (ks, st, r)"
proof -
  have "takeWhile is_ws (w @ r) = w" using assms(2-4)
    by (induction w) (cases r, auto)+
  moreover have "dropWhile is_ws (w @ r) = r" using assms(2-4)
    by (induction w) (cases r, auto)+
  ultimately show "skip_whitespace tk = (Some (hd r), tk\<lparr>tk_offset := tk_offset tk + length w\<rparr>)"
    using assms(1,3) by (cases r) (simp_all add: skip_whitespace_rest at_config_def)
  show "at_config (tk\<lparr>tk_offset := tk_offset tk + length w\<rparr>) (ks, st, r)"
    using assms(1) by (simp add: at_config_def)
qed

lemma scan_string_config:
  assumes "at_config tk (ks, st, CHR 0x22 # b @ CHR 0x22 # r)" and "string_body b"
  shows "scan_string tk = (Inr (b, CHR 0x5C \<in> set b), tk\<lparr>tk_offset := tk_offset tk + length b + 2\<rparr>)"
proof -
  have "valid_utf8 (tk_input tk)" "tk_rest tk = CHR 0x22 # b @ CHR 0x22 # r"
    using assms(1) by (simp_all add: at_config_def)
  from scan_string_iff [OF this] assms(2) show ?thesis by blast
qed

lemma at_config_push:
  assumes "at_config tk (ks, st, b # r)" and "length ks < MAX_DEPTH"
  shows "\<exists>tk'. open_container a tk = (Inr (if a then ArrayStart else ObjectStart), tk') \<and>
    at_config tk' (a # ks, if a then ArrayFirstValue else ObjectFirstKey, r)"
proof -
  from assms(1) have wf: "stack_wf tk" "kinds tk = ks" by (simp_all add: at_config_def)
  from wf(1) show ?thesis
  proof (cases rule: push_cases [where a = a])
    case full
    with assms(2) wf(2) length_kinds [of tk] show ?thesis by simp
  next
    case (room stk)
    let ?tk = "tk\<lparr>tk_stack := stk, tk_depth := tk_depth tk + 1, tk_offset := tk_offset tk + 1,
                 tk_state := (if a then ArrayFirstValue else ObjectFirstKey)\<rparr>"
    have "open_container a tk = (Inr (if a then ArrayStart else ObjectStart), ?tk)"
      using room(2) by (simp add: open_container_def)
    moreover have "at_config ?tk (a # ks, if a then ArrayFirstValue else ObjectFirstKey, r)"
      using assms(1) room wf(2) drop_Suc_Cons [of "tk_offset tk" "tk_input tk" b r]
      by (simp add: at_config_def stack_wf_def kinds_def state_ok_def tk_rest_def)
    ultimately show ?thesis by blast
  qed
qed

lemma at_config_close:
  assumes "at_config tk (k # ks, st, b # r)"
  shows "at_config (close_container tk) (ks, after ks, r)"
  using assms close_container_state [of tk k ks] drop_Suc_Cons [of "tk_offset tk" "tk_input tk" b r]
  by (auto simp: at_config_def stack_wf_def tk_rest_def)

definition emitted :: "token option \<Rightarrow> token list" where
  "emitted t = (case t of None \<Rightarrow> [] | Some x \<Rightarrow> [x])"

lemma emitted_simps [simp]: "emitted None = []" "emitted (Some x) = [x]"
  by (simp_all add: emitted_def)

lemma dispatch_value:
  "value_state (tk_state tk) \<Longrightarrow> b \<noteq> CHR '']'' \<Longrightarrow> dispatch b tk = emits (scan_value b tk)"
  by (auto simp: dispatch_def value_state_def)

lemma emits_simps [simp]:
  "emits (Inl e, tk) = (Inl e, tk)" "emits (Inr t, tk) = (Inr (Some t), tk)"
  by (simp_all add: emits_def)

lemma at_config_state: "at_config tk (ks, st, r) \<Longrightarrow> tk_state tk = st"
  by (simp add: at_config_def)

lemma at_config_rest: "at_config tk (ks, st, r) \<Longrightarrow> tk_rest tk = r"
  by (simp add: at_config_def)

lemma dispatch_literal:
  assumes "at_config tk (ks, st, l @ r)" "value_state st"
    and "(l, t) \<in> {(''true'', BooleanTok True), (''false'', BooleanTok False), (''null'', NullTok)}"
  shows "\<exists>tk'. dispatch (hd l) tk = (Inr (Some t), tk') \<and> at_config tk' (ks, after ks, r)"
proof -
  let ?tk = "tk\<lparr>tk_offset := tk_offset tk + length l\<rparr>"
  have "l \<noteq> []" using assms(3) by auto
  then have "scan_literal l tk = (Inr (), ?tk)"
    using scan_literal_iff [of l tk "()" ?tk] at_config_rest [OF assms(1)] by blast
  then have "literal_value l t tk = (Inr t, after_value ?tk)" by (simp add: literal_value_def)
  then have "scan_value (hd l) tk = (Inr t, after_value ?tk)"
    using assms(3) by (auto simp: scan_value_def)
  moreover have "hd l \<noteq> CHR '']''" using assms(3) by auto
  ultimately have "dispatch (hd l) tk = (Inr (Some t), after_value ?tk)"
    using at_config_state [OF assms(1)] assms(2) by (simp add: dispatch_value)
  then show ?thesis using at_config_after_value [OF assms(1) refl] by blast
qed

lemma dispatch_number:
  assumes "at_config tk (ks, st, n @ r)" "value_state st" "number_text n" "delim r"
  shows "\<exists>tk'. dispatch (hd n) tk = (Inr (Some (NumberTok n)), tk') \<and> at_config tk' (ks, after ks, r)"
proof -
  let ?tk = "tk\<lparr>tk_offset := tk_offset tk + length n\<rparr>"
  have hd: "hd n = CHR ''-'' \<or> is_ascii_digit (hd n)" using number_text_ascii [OF assms(3)] by blast
  then have ne: "hd n \<notin> {CHR ''{'', CHR ''['', CHR 0x22, CHR ''t'', CHR ''f'', CHR ''n'', CHR '']''}"
    by (auto simp: is_ascii_digit_def)
  have "scan_number tk = (Inr n, ?tk)"
    using scan_number_complete [OF at_config_rest [OF assms(1)] assms(3,4)] .
  then have "scan_value (hd n) tk = (Inr (NumberTok n), after_value ?tk)"
    using hd ne by (simp add: scan_value_def)
  then have "dispatch (hd n) tk = (Inr (Some (NumberTok n)), after_value ?tk)"
    using at_config_state [OF assms(1)] assms(2) ne by (simp add: dispatch_value)
  then show ?thesis using at_config_after_value [OF assms(1) refl] by blast
qed

lemma dispatch_string:
  assumes "at_config tk (ks, st, CHR 0x22 # b @ CHR 0x22 # r)" "value_state st" "string_body b"
  shows "\<exists>tk'. dispatch (CHR 0x22) tk = (Inr (Some (string_token b)), tk') \<and>
               at_config tk' (ks, after ks, r)"
proof -
  let ?tk = "tk\<lparr>tk_offset := tk_offset tk + length b + 2\<rparr>"
  have "scan_value (CHR 0x22) tk = (Inr (string_token b), after_value ?tk)"
    using scan_string_config [OF assms(1,3)] by (simp add: scan_value_def string_token_def)
  then have "dispatch (CHR 0x22) tk = (Inr (Some (string_token b)), after_value ?tk)"
    using at_config_state [OF assms(1)] assms(2) by (simp add: dispatch_value)
  moreover have "at_config (after_value ?tk) (ks, after ks, r)"
    using at_config_after_value [of tk ks st "CHR 0x22 # b @ [CHR 0x22]" r "length b + 2"] assms(1)
    by (simp add: add.assoc)
  ultimately show ?thesis by blast
qed

lemma dispatch_open:
  assumes "at_config tk (ks, st, (if a then CHR ''['' else CHR ''{'') # r)" "value_state st"
    and "length ks < MAX_DEPTH"
  shows "\<exists>tk'. dispatch (if a then CHR ''['' else CHR ''{'') tk
                 = (Inr (Some (if a then ArrayStart else ObjectStart)), tk') \<and>
               at_config tk' (a # ks, if a then ArrayFirstValue else ObjectFirstKey, r)"
proof -
  from at_config_push [OF assms(1,3), of a] obtain tk' where
    "open_container a tk = (Inr (if a then ArrayStart else ObjectStart), tk')"
    "at_config tk' (a # ks, if a then ArrayFirstValue else ObjectFirstKey, r)" by blast
  then show ?thesis
    using at_config_state [OF assms(1)] assms(2)
    by (intro exI [of _ tk']) (cases a; simp add: dispatch_value scan_value_def)
qed

lemma dispatch_key:
  assumes "at_config tk (False # ks, st, CHR 0x22 # b @ CHR 0x22 # w @ CHR '':'' # r)"
    and "st \<in> {ObjectFirstKey, ObjectNextKey}" "string_body b" "ws w"
  shows "\<exists>tk'. dispatch (CHR 0x22) tk = (Inr (Some (key_token b)), tk') \<and>
               at_config tk' (False # ks, ObjectValue, r)"
proof -
  let ?tk = "tk\<lparr>tk_offset := tk_offset tk + length b + 2\<rparr>"
  have str: "scan_string tk = (Inr (b, CHR 0x5C \<in> set b), ?tk)"
    using assms(1,3) by (rule scan_string_config)
  have "at_config ?tk (False # ks, st, w @ CHR '':'' # r)"
    using assms(1) tk_rest_moved [of tk "length b + 2"] by (simp add: at_config_def add.assoc)
  from at_config_skip [OF this assms(4)] have
    skip: "skip_whitespace ?tk = (Some (CHR '':''), ?tk\<lparr>tk_offset := tk_offset ?tk + length w\<rparr>)"
    and cfg: "at_config (?tk\<lparr>tk_offset := tk_offset ?tk + length w\<rparr>) (False # ks, st, CHR '':'' # r)"
    by (simp_all add: is_ws_def)
  let ?tk2 = "?tk\<lparr>tk_offset := tk_offset ?tk + length w + 1, tk_state := ObjectValue\<rparr>"
  have "scan_key (CHR 0x22) tk = (Inr (key_token b), ?tk2)"
    using str skip by (simp add: scan_key_def key_token_def)
  then have "dispatch (CHR 0x22) tk = (Inr (Some (key_token b)), ?tk2)"
    using at_config_state [OF assms(1)] assms(2) by (auto simp: dispatch_def)
  moreover have "at_config ?tk2 (False # ks, ObjectValue, r)"
    using cfg drop_Suc_Cons [of "tk_offset ?tk + length w" "tk_input tk"]
    by (simp add: at_config_def state_ok_def tk_rest_def)
  ultimately show ?thesis by blast
qed

definition collect :: "(token list, unit) visitor" where
  "collect tok log = (None, log @ [tok])"

definition turns_into :: "tokenizer \<Rightarrow> token list \<Rightarrow> tokenizer \<Rightarrow> bool" where
  "turns_into tk ts tk' \<longleftrightarrow>
     (\<exists>b tk1 t. skip_whitespace tk = (Some b, tk1) \<and> dispatch b tk1 = (Inr t, tk') \<and> emitted t = ts)"

lemma turns_intoI:
  assumes "at_config tk (ks, st, w @ b # r)" "ws w" "\<not> is_ws b"
    and "\<And>tk1. at_config tk1 (ks, st, b # r) \<Longrightarrow>
           \<exists>tk'. dispatch b tk1 = (Inr t, tk') \<and> at_config tk' c'"
  shows "\<exists>tk'. turns_into tk (emitted t) tk' \<and> at_config tk' c'"
proof -
  from at_config_skip [OF assms(1,2)] assms(3) have
    skip: "skip_whitespace tk = (Some b, tk\<lparr>tk_offset := tk_offset tk + length w\<rparr>)"
    and cfg: "at_config (tk\<lparr>tk_offset := tk_offset tk + length w\<rparr>) (ks, st, b # r)"
    by simp_all
  from assms(4) [OF cfg] skip show ?thesis unfolding turns_into_def by blast
qed

lemma turn_complete:
  assumes "at_config tk c" and "astep True c ts c'"
  shows "\<exists>tk'. turns_into tk ts tk' \<and> at_config tk' c'"
  using assms(2)
proof cases
  case (literal st w l t ks r)
  obtain b l' where l: "l = b # l'" "\<not> is_ws b" using literal(6) by (auto simp: is_ws_def)
  have "\<exists>tk'. turns_into tk (emitted (Some t)) tk' \<and> at_config tk' (ks, after ks, r)"
  proof (rule turns_intoI [where ks = ks and st = st and w = w and b = b and r = "l' @ r"])
    show "at_config tk (ks, st, w @ b # l' @ r)" using assms(1) literal(1) l(1) by simp
    show "\<exists>tk'. dispatch b tk1 = (Inr (Some t), tk') \<and> at_config tk' (ks, after ks, r)"
      if "at_config tk1 (ks, st, b # l' @ r)" for tk1
      using dispatch_literal [of tk1 ks st l r t] that literal(4,6) l(1) by simp
  qed (use literal l in simp_all)
  then show ?thesis using literal by simp
next
  case (number st w n r ks)
  obtain b n' where n: "n = b # n'" "b = CHR ''-'' \<or> is_ascii_digit b"
    using number_text_ascii [OF number(6)] by (cases n) auto
  from n(2) have "\<not> is_ws b" by (auto simp: is_ws_def is_ascii_digit_def)
  have "\<exists>tk'. turns_into tk (emitted (Some (NumberTok n))) tk' \<and> at_config tk' (ks, after ks, r)"
  proof (rule turns_intoI [where ks = ks and st = st and w = w and b = b and r = "n' @ r"])
    show "at_config tk (ks, st, w @ b # n' @ r)" using assms(1) number(1) n(1) by simp
    show "\<exists>tk'. dispatch b tk1 = (Inr (Some (NumberTok n)), tk') \<and> at_config tk' (ks, after ks, r)"
      if "at_config tk1 (ks, st, b # n' @ r)" for tk1
      using dispatch_number [of tk1 ks st n r] that number(4,6,7) n(1) by simp
  qed (use number n \<open>\<not> is_ws b\<close> in simp_all)
  then show ?thesis using number by simp
next
  case (string st w b ks r)
  have "\<exists>tk'. turns_into tk (emitted (Some (string_token b))) tk' \<and> at_config tk' (ks, after ks, r)"
    using assms(1) string dispatch_string
    by (intro turns_intoI [where b = "CHR 0x22" and w = w and ks = ks and st = st
          and r = "b @ CHR 0x22 # r"]) (simp_all add: is_ws_def)
  then show ?thesis using string by simp
next
  case (open_array st w ks r)
  have "\<exists>tk'. turns_into tk (emitted (Some ArrayStart)) tk' \<and>
      at_config tk' (True # ks, ArrayFirstValue, r)"
    using assms(1) open_array dispatch_open [where a = True]
    by (intro turns_intoI [where b = "CHR ''[''" and w = w and ks = ks and st = st and r = r])
       (auto simp: is_ws_def)
  then show ?thesis using open_array by simp
next
  case (open_object st w ks r)
  have "\<exists>tk'. turns_into tk (emitted (Some ObjectStart)) tk' \<and>
      at_config tk' (False # ks, ObjectFirstKey, r)"
    using assms(1) open_object dispatch_open [where a = False]
    by (intro turns_intoI [where b = "CHR ''{''" and w = w and ks = ks and st = st and r = r])
       (auto simp: is_ws_def)
  then show ?thesis using open_object by simp
next
  case (close_array st w ks r)
  have "\<exists>tk'. turns_into tk (emitted (Some ArrayEnd)) tk' \<and> at_config tk' (ks, after ks, r)"
  proof (rule turns_intoI)
    show "at_config tk (True # ks, st, w @ CHR '']'' # r)" using assms(1) close_array by simp
    show "\<exists>tk'. dispatch (CHR '']'') tk1 = (Inr (Some ArrayEnd), tk') \<and> at_config tk' (ks, after ks, r)"
      if "at_config tk1 (True # ks, st, CHR '']'' # r)" for tk1
      using at_config_close [OF that] at_config_state [OF that] close_array(4)
      by (auto simp: dispatch_def)
  qed (use close_array in \<open>simp_all add: is_ws_def\<close>)
  then show ?thesis using close_array by simp
next
  case (close_object st w ks r)
  have "\<exists>tk'. turns_into tk (emitted (Some ObjectEnd)) tk' \<and> at_config tk' (ks, after ks, r)"
  proof (rule turns_intoI)
    show "at_config tk (False # ks, st, w @ CHR ''}'' # r)" using assms(1) close_object by simp
    show "\<exists>tk'. dispatch (CHR ''}'') tk1 = (Inr (Some ObjectEnd), tk') \<and> at_config tk' (ks, after ks, r)"
      if "at_config tk1 (False # ks, st, CHR ''}'' # r)" for tk1
      using at_config_close [OF that] at_config_state [OF that] close_object(4)
      by (auto simp: dispatch_def)
  qed (use close_object in \<open>simp_all add: is_ws_def\<close>)
  then show ?thesis using close_object by simp
next
  case (comma_array w ks r)
  have "\<exists>tk'. turns_into tk (emitted None) tk' \<and> at_config tk' (True # ks, ArrayNextValue, r)"
  proof (rule turns_intoI)
    show "at_config tk (True # ks, ArrayComma, w @ CHR '','' # r)" using assms(1) comma_array by simp
    show "\<exists>tk'. dispatch (CHR '','') tk1 = (Inr None, tk') \<and> at_config tk' (True # ks, ArrayNextValue, r)"
      if "at_config tk1 (True # ks, ArrayComma, CHR '','' # r)" for tk1
      using that drop_Suc_Cons [of "tk_offset tk1" "tk_input tk1"]
      by (simp add: at_config_def dispatch_def state_ok_def tk_rest_def)
  qed (use comma_array in \<open>simp_all add: is_ws_def\<close>)
  then show ?thesis using comma_array by simp
next
  case (comma_object w ks r)
  have "\<exists>tk'. turns_into tk (emitted None) tk' \<and> at_config tk' (False # ks, ObjectNextKey, r)"
  proof (rule turns_intoI)
    show "at_config tk (False # ks, ObjectComma, w @ CHR '','' # r)" using assms(1) comma_object by simp
    show "\<exists>tk'. dispatch (CHR '','') tk1 = (Inr None, tk') \<and> at_config tk' (False # ks, ObjectNextKey, r)"
      if "at_config tk1 (False # ks, ObjectComma, CHR '','' # r)" for tk1
      using that drop_Suc_Cons [of "tk_offset tk1" "tk_input tk1"]
      by (simp add: at_config_def dispatch_def state_ok_def tk_rest_def)
  qed (use comma_object in \<open>simp_all add: is_ws_def\<close>)
  then show ?thesis using comma_object by simp
next
  case (key st w b w' ks r)
  have "\<exists>tk'. turns_into tk (emitted (Some (key_token b))) tk' \<and>
      at_config tk' (False # ks, ObjectValue, r)"
    using assms(1) key dispatch_key
    by (intro turns_intoI [where b = "CHR 0x22" and w = w and ks = "False # ks" and st = st
          and r = "b @ CHR 0x22 # w' @ CHR '':'' # r"]) (simp_all add: is_ws_def)
  then show ?thesis using key by simp
qed

lemma scan_value_sound:
  assumes cfg: "at_config tk (ks, st, b # r)" and st: "value_state st"
    and scan: "scan_value b tk = (Inr t, tk')"
  shows "\<exists>c'. astep False (ks, st, b # r) [t] c' \<and> at_config tk' c'"
  using scan
proof (cases rule: scan_value_cases)
  case (container a)
  from cfg have wf: "stack_wf tk" "kinds tk = ks" by (simp_all add: at_config_def)
  have room: "length ks < MAX_DEPTH"
    using wf(1)
  proof (cases rule: push_cases [where a = a])
    case full
    with container(2) show ?thesis by (simp add: open_container_def)
  next
    case room
    then show ?thesis using wf(2) length_kinds [of tk] by simp
  qed
  from at_config_push [OF cfg room, of a] container
  have "t = (if a then ArrayStart else ObjectStart)"
    "at_config tk' (a # ks, if a then ArrayFirstValue else ObjectFirstKey, r)" by auto
  moreover have "astep False (ks, st, [] @ CHR ''['' # r) [ArrayStart] (True # ks, ArrayFirstValue, r)"
    "astep False (ks, st, [] @ CHR ''{'' # r) [ObjectStart] (False # ks, ObjectFirstKey, r)"
    using st room by (simp_all only: astep.open_array astep.open_object ws_simps)
  ultimately show ?thesis using container(1) by (cases a) auto
next
  case (string body esc tk1)
  from cfg have u: "valid_utf8 (tk_input tk)" and rest: "tk_rest tk = CHR 0x22 # r"
    using string(1) by (simp_all add: at_config_def)
  from scan_string_iff [OF u rest] string(2) obtain r' where
    r': "r = body @ CHR 0x22 # r'" "string_body body" "esc = (CHR 0x5C \<in> set body)"
    "tk1 = tk\<lparr>tk_offset := tk_offset tk + length body + 2\<rparr>" by blast
  have "astep False (ks, st, [] @ CHR 0x22 # body @ CHR 0x22 # r') [string_token body] (ks, after ks, r')"
    using st r'(2) by (intro astep.string) simp_all
  moreover have "at_config tk' (ks, after ks, r')"
    using at_config_after_value [of tk ks st "CHR 0x22 # body @ [CHR 0x22]" r' "length body + 2"]
      cfg string(1,4) r' by (simp add: add.assoc)
  moreover have "t = string_token body" "b # r = [] @ CHR 0x22 # body @ CHR 0x22 # r'"
    using string(1,3) r' by (simp_all add: string_token_def)
  ultimately show ?thesis by metis
next
  case (literal w)
  then have w: "w \<noteq> []" by auto
  from literal(2) obtain tk1 where "scan_literal w tk = (Inr (), tk1)" "tk' = after_value tk1"
    by (auto simp: literal_value_def split: sum.splits prod.splits)
  with scan_literal_iff [OF w, of tk "()" tk1] cfg obtain r' where
    r': "b # r = w @ r'" "tk' = after_value (tk\<lparr>tk_offset := tk_offset tk + length w\<rparr>)"
    by (auto simp: at_config_def)
  have "astep False (ks, st, [] @ w @ r') [t] (ks, after ks, r')"
    using st literal(3) by (intro astep.literal) simp_all
  moreover have "at_config tk' (ks, after ks, r')"
    using at_config_after_value [of tk ks st w r' "length w"] cfg r' by simp
  ultimately show ?thesis using r'(1) by auto
next
  case (number n tk1)
  from scan_number_sound [OF number(2)] cfg obtain r' where
    r': "b # r = n @ r'" "number_text n" "tk1 = tk\<lparr>tk_offset := tk_offset tk + length n\<rparr>"
    by (auto simp: at_config_def)
  have "astep False (ks, st, [] @ n @ r') [NumberTok n] (ks, after ks, r')"
    using st r'(2) by (intro astep.number) simp_all
  moreover have "at_config tk' (ks, after ks, r')"
    using at_config_after_value [of tk ks st n r' "length n"] cfg r' number(4) by simp
  ultimately show ?thesis using r'(1) number(3) by auto
qed

lemma scan_key_sound:
  assumes cfg: "at_config tk (ks, st, b # r)" and st: "st \<in> {ObjectFirstKey, ObjectNextKey}"
    and scan: "scan_key b tk = (Inr t, tk')"
  shows "\<exists>c'. astep False (ks, st, b # r) [t] c' \<and> at_config tk' c'"
proof -
  from scan have b: "b = CHR 0x22" by (auto simp: scan_key_def split: if_splits)
  with scan obtain body esc tk1 where s: "scan_string tk = (Inr (body, esc), tk1)"
    by (auto simp: scan_key_def split: sum.splits prod.splits)
  from cfg have u: "valid_utf8 (tk_input tk)" and rest: "tk_rest tk = CHR 0x22 # r"
    using b by (simp_all add: at_config_def)
  from scan_string_iff [OF u rest] s obtain r1 where
    r1: "r = body @ CHR 0x22 # r1" "string_body body" "esc = (CHR 0x5C \<in> set body)"
    "tk1 = tk\<lparr>tk_offset := tk_offset tk + length body + 2\<rparr>" by blast
  have rest1: "tk_rest tk1 = r1"
    using tk_rest_moved [of tk "length body + 2"] rest r1(1,4) by (simp add: add.assoc)
  from scan b s have skip: "fst (skip_whitespace tk1) = Some (CHR '':'')" and t: "t = key_token body"
    by (auto simp: scan_key_def key_token_def r1(3) split: prod.splits if_splits)
  from skip obtain r2 where r2: "dropWhile is_ws r1 = CHR '':'' # r2"
    by (auto simp: skip_whitespace_rest rest1 split: list.splits)
  define w where "w = takeWhile is_ws r1"
  have w: "ws w" "r1 = w @ CHR '':'' # r2"
    using takeWhile_ws_ws takeWhile_dropWhile_id [of is_ws r1] r2 by (simp_all add: w_def)
  from cfg st obtain ks' where ks: "ks = False # ks'"
    by (cases ks) (auto simp: at_config_def state_ok_def)
  have cfg': "at_config tk (False # ks', st, CHR 0x22 # body @ CHR 0x22 # w @ CHR '':'' # r2)"
    using cfg ks b r1(1) w(2) by simp
  from dispatch_key [OF this st r1(2) w(1)] obtain tk2 where tk2:
    "dispatch (CHR 0x22) tk = (Inr (Some (key_token body)), tk2)"
    "at_config tk2 (False # ks', ObjectValue, r2)" by blast
  have "dispatch (CHR 0x22) tk = (Inr (Some t), tk')"
    using scan b st at_config_state [OF cfg] by (auto simp: dispatch_def)
  with tk2 have "at_config tk' (False # ks', ObjectValue, r2)" by simp
  moreover have "astep False (False # ks', st, [] @ CHR 0x22 # body @ CHR 0x22 # w @ CHR '':'' # r2)
      [key_token body] (False # ks', ObjectValue, r2)"
    using st r1(2) w(1) by (intro astep.key) simp_all
  ultimately show ?thesis using ks b r1(1) w(2) t by auto
qed

lemma dispatch_sound:
  assumes cfg: "at_config tk (ks, st, b # r)" and run: "dispatch b tk = (Inr t, tk')"
  shows "\<exists>c'. astep False (ks, st, b # r) (emitted t) c' \<and> at_config tk' c'"
proof -
  note st = at_config_state [OF cfg]
  have ok: "state_ok ks st" using cfg by (simp add: at_config_def)
  have val: ?thesis if "emits (scan_value b tk) = (Inr t, tk')" "value_state st"
    using that scan_value_sound [OF cfg] by (auto simp: emits_Inr)
  have key: ?thesis if "emits (scan_key b tk) = (Inr t, tk')" "st \<in> {ObjectFirstKey, ObjectNextKey}"
    using that scan_key_sound [OF cfg] by (auto simp: emits_Inr)
  have carr: ?thesis if "b = CHR '']''" "t = Some ArrayEnd" "tk' = close_container tk"
    "st \<in> {ArrayFirstValue, ArrayComma}"
  proof -
    from that(4) ok obtain ks' where "ks = True # ks'" by (cases ks) (auto simp: state_ok_def)
    with that cfg astep.close_array [of st "[]" False ks' r] at_config_close [of tk True ks' st b r]
    show ?thesis by auto
  qed
  have cobj: ?thesis if "b = CHR ''}''" "t = Some ObjectEnd" "tk' = close_container tk"
    "st \<in> {ObjectFirstKey, ObjectComma}"
  proof -
    from that(4) ok obtain ks' where "ks = False # ks'" by (cases ks) (auto simp: state_ok_def)
    with that cfg astep.close_object [of st "[]" False ks' r] at_config_close [of tk False ks' st b r]
    show ?thesis by auto
  qed
  have rest: "tk_rest (tk\<lparr>tk_offset := Suc (tk_offset tk), tk_state := s\<rparr>) = r" for s
    using cfg drop_Suc_Cons [of "tk_offset tk" "tk_input tk" b r] by (simp add: at_config_def tk_rest_def)
  show ?thesis
  proof (cases st)
    case ObjectComma
    with ok obtain ks' where ks: "ks = False # ks'" by (cases ks) (auto simp: state_ok_def)
    show ?thesis
    proof (cases "b = CHR '',''")
      case True
      with run st ObjectComma cfg ks rest astep.comma_object [of "[]" False ks' r] show ?thesis
        by (intro exI [of _ "(ks, ObjectNextKey, r)"])
           (auto simp: dispatch_def at_config_def state_ok_def)
    next
      case False
      with run st ObjectComma cobj show ?thesis
        by (auto simp: dispatch_def simp del: split_paired_Ex split: if_splits)
    qed
  next
    case ArrayComma
    with ok obtain ks' where ks: "ks = True # ks'" by (cases ks) (auto simp: state_ok_def)
    show ?thesis
    proof (cases "b = CHR '',''")
      case True
      with run st ArrayComma cfg ks rest astep.comma_array [of "[]" False ks' r] show ?thesis
        by (intro exI [of _ "(ks, ArrayNextValue, r)"])
           (auto simp: dispatch_def at_config_def state_ok_def)
    next
      case False
      with run st ArrayComma carr show ?thesis
        by (auto simp: dispatch_def simp del: split_paired_Ex split: if_splits)
    qed
  next
    case ArrayFirstValue
    with run st val carr show ?thesis
      by (auto simp: dispatch_def value_state_def simp del: split_paired_Ex split: if_splits)
  next
    case ObjectFirstKey
    with run st key cobj show ?thesis
      by (auto simp: dispatch_def simp del: split_paired_Ex split: if_splits)
  qed (use run st val key in \<open>simp_all add: dispatch_def value_state_def del: split_paired_Ex\<close>)
qed

lemma turn_sound:
  assumes "at_config tk (ks, st, r)" and "skip_whitespace tk = (Some b, tk1)"
    and "dispatch b tk1 = (Inr t, tk2)"
  shows "\<exists>c'. astep False (ks, st, r) (emitted t) c' \<and> at_config tk2 c'"
proof -
  let ?w = "takeWhile is_ws r"
  from assms(1,2) obtain r' where r': "dropWhile is_ws r = b # r'"
    by (auto simp: skip_whitespace_rest at_config_def split: list.splits)
  have r: "r = ?w @ b # r'" using takeWhile_dropWhile_id [of is_ws r] r' by simp
  have "at_config tk1 (ks, st, b # r')"
    using assms(1,2) r' by (auto simp: skip_whitespace_rest at_config_def dropWhile_eq_drop)
  from dispatch_sound [OF this assms(3)] obtain c' where
    "astep False (ks, st, b # r') (emitted t) c'" "at_config tk2 c'" by blast
  with astep_ws [of False ks st "b # r'" "emitted t" c' ?w] takeWhile_ws_ws [of r] r
  show ?thesis by metis
qed

section \<open>Runs\<close>

inductive areach :: "bool \<Rightarrow> config \<Rightarrow> token list \<Rightarrow> config \<Rightarrow> bool" for strict where
  stop: "areach strict c [] c"
| step: "astep strict c ts c' \<Longrightarrow> areach strict c' ts' c'' \<Longrightarrow> areach strict c (ts @ ts') c''"

lemma areach_trans:
  "areach strict c ts c' \<Longrightarrow> areach strict c' ts' c'' \<Longrightarrow> areach strict c (ts @ ts') c''"
  by (induction rule: areach.induct) (auto intro: areach.step)

lemma areach_one: "astep strict c ts c' \<Longrightarrow> areach strict c ts c'"
  using areach.step [OF _ areach.stop] by fastforce

lemma run_collect_turn:
  assumes "turns_into tk ts tk'"
  shows "run collect tk log = run collect tk' (log @ ts)"
proof -
  from assms obtain b tk1 t where
    "skip_whitespace tk = (Some b, tk1)" "dispatch b tk1 = (Inr t, tk')" "emitted t = ts"
    by (auto simp: turns_into_def)
  then show ?thesis by (subst run.simps) (cases t, auto simp: collect_def)
qed

lemma run_collect_reach:
  "areach True c ts c' \<Longrightarrow> at_config tk c \<Longrightarrow>
   \<exists>tk'. at_config tk' c' \<and> (\<forall>log. run collect tk log = run collect tk' (log @ ts))"
proof (induction arbitrary: tk rule: areach.induct)
  case (step c ts c' ts' c'')
  from turn_complete [OF step.prems step.hyps(1)] obtain tk1 where
    tk1: "turns_into tk ts tk1" "at_config tk1 c'" by blast
  from step.IH [OF tk1(2)] obtain tk2 where
    "at_config tk2 c''" "\<And>log. run collect tk1 log = run collect tk2 (log @ ts')" by blast
  with run_collect_turn [OF tk1(1)] show ?case by (intro exI [of _ tk2]) simp
qed auto

lemma run_collect_final:
  assumes "at_config tk ([], Done, w)" and "ws w"
  shows "\<exists>tk'. run collect tk log = (Inr None, tk', log)"
proof -
  from assms(2) have "(case dropWhile is_ws w of [] \<Rightarrow> None | b # _ \<Rightarrow> Some b) = None"
    using dropWhile_ws [of w "[]"] by (metis append_Nil2 dropWhile.simps(1) list.simps(4))
  with assms(1) obtain tk' where "skip_whitespace tk = (None, tk')" "tk_state tk' = Done"
    by (simp add: skip_whitespace_rest at_config_def)
  then show ?thesis by (subst run.simps) simp
qed

lemma run_collect_sound:
  "at_config tk c \<Longrightarrow> run collect tk log = (Inr None, tkf, log') \<Longrightarrow>
   \<exists>ts w. log' = log @ ts \<and> areach False c ts ([], Done, w) \<and> ws w"
proof (induction "length (tk_input tk) - tk_offset tk" arbitrary: tk c log rule: less_induct)
  case less
  obtain ks st r where c: "c = (ks, st, r)" by (cases c) auto
  obtain b tk1 where sk: "skip_whitespace tk = (b, tk1)" by (cases "skip_whitespace tk")
  show ?case
  proof (cases b)
    case None
    with less.prems(2) sk have st: "tk_state tk1 = Done" "log' = log"
      by (subst (asm) run.simps, auto split: tstate.splits)+
    from None sk less.prems(1) c have w: "ws r" and "tk_state tk1 = st" "state_ok ks st"
      using takeWhile_ws_ws [of r] takeWhile_dropWhile_id [of is_ws r]
      by (auto simp: skip_whitespace_rest at_config_def ws_def list_all_iff split: list.splits)
    with st c have "c = ([], Done, r)" by (simp add: state_ok_def)
    with st w show ?thesis by (intro exI [of _ "[]"] exI [of _ r]) (simp add: areach.stop)
  next
    case (Some byte)
    with less.prems(2) sk obtain t tk2 where d: "dispatch byte tk1 = (Inr t, tk2)"
      by (subst (asm) run.simps) (auto split: prod.splits sum.splits)
    have run: "run collect tk2 (log @ emitted t) = (Inr None, tkf, log')"
      using run_collect_turn [of tk "emitted t" tk2 log] less.prems(2) sk Some d
      by (auto simp: turns_into_def)
    from turn_sound [OF less.prems(1) [unfolded c] sk [unfolded Some] d] obtain c' where
      c': "astep False c (emitted t) c'" "at_config tk2 c'" unfolding c by blast
    from turn_progress [OF sk [unfolded Some] d]
    have "length (tk_input tk2) - tk_offset tk2 < length (tk_input tk) - tk_offset tk" .
    from less.hyps [OF this c'(2) run] obtain ts w where
      "log' = (log @ emitted t) @ ts" "areach False c' ts ([], Done, w)" "ws w" by blast
    with areach.step [OF c'(1)] show ?thesis
      by (intro exI [of _ "emitted t @ ts"] exI [of _ w]) simp
  qed
qed

section \<open>The grammar generates runs\<close>

lemma nesting_element: "v \<in> set vs \<Longrightarrow> nesting v \<le> foldr (\<lambda>v n. max (nesting v) n) vs 0"
  by (induction vs) auto

lemma nesting_member:
  "(k, v) \<in> set ms \<Longrightarrow> nesting v \<le> foldr (\<lambda>kv n. max (nesting (snd kv)) n) ms 0"
  by (induction ms) auto

lemma foldr_max_bound:
  "(\<And>x. x \<in> set xs \<Longrightarrow> f x \<le> n) \<Longrightarrow> foldr (\<lambda>x m. max (f x) m) xs 0 \<le> (n :: nat)"
  by (induction xs) auto

lemma delim_simps [simp]:
  "delim []" "delim (CHR '']'' # r)" "delim (CHR ''}'' # r)" "delim (CHR '','' # r)"
  by (simp_all add: delim_def)

lemma delim_ws: "ws w \<Longrightarrow> delim r \<Longrightarrow> delim (w @ r)"
  by (cases w) (auto simp: delim_def)

lemma after_simps [simp]: "after (True # ks) = ArrayComma" "after (False # ks) = ObjectComma" "after [] = Done"
  by (simp_all add: after_def)

lemma value_state_simps [simp]: "value_state Start" "value_state ObjectValue"
  "value_state ArrayNextValue" "value_state ArrayFirstValue"
  by (simp_all add: value_state_def)

lemma areach_literal:
  assumes "value_state st" "ws w"
  shows "areach True (ks, st, w @ CHR ''n'' # CHR ''u'' # CHR ''l'' # CHR ''l'' # r) [NullTok] (ks, after ks, r)"
    "areach True (ks, st, w @ CHR ''t'' # CHR ''r'' # CHR ''u'' # CHR ''e'' # r) [BooleanTok True] (ks, after ks, r)"
    "areach True (ks, st, w @ CHR ''f'' # CHR ''a'' # CHR ''l'' # CHR ''s'' # CHR ''e'' # r)
       [BooleanTok False] (ks, after ks, r)"
  using astep.literal [OF assms, of "''null''" NullTok True ks r]
    astep.literal [OF assms, of "''true''" "BooleanTok True" True ks r]
    astep.literal [OF assms, of "''false''" "BooleanTok False" True ks r]
  by (simp_all add: areach_one)

lemma json_text_runs:
  "json_text j t \<Longrightarrow> (\<forall>ks st w r. value_state st \<longrightarrow> ws w \<longrightarrow> delim r \<longrightarrow> length ks + nesting j \<le> MAX_DEPTH \<longrightarrow>
     areach True (ks, st, w @ t @ r) (tokens_of j) (ks, after ks, r))"
  "elements vs t \<Longrightarrow> (\<forall>ks st r. st \<in> {ArrayFirstValue, ArrayNextValue} \<longrightarrow>
     (\<forall>v\<in>set vs. Suc (length ks) + nesting v \<le> MAX_DEPTH) \<longrightarrow>
     areach True (True # ks, st, t @ CHR '']'' # r) (concat (map tokens_of vs) @ [ArrayEnd]) (ks, after ks, r))"
  "members ms t \<Longrightarrow> (\<forall>ks st r. st \<in> {ObjectFirstKey, ObjectNextKey} \<longrightarrow>
     (\<forall>m\<in>set ms. Suc (length ks) + nesting (snd m) \<le> MAX_DEPTH) \<longrightarrow>
     areach True (False # ks, st, t @ CHR ''}'' # r)
       (concat (map (\<lambda>(k, v). key_token k # tokens_of v) ms) @ [ObjectEnd]) (ks, after ks, r))"
proof (induction rule: json_text_elements_members.inducts)
  case (number n)
  then show ?case by (auto intro!: areach_one astep.number)
next
  case (string b)
  then show ?case using astep.string [of _ _ b True] by (auto intro!: areach_one)
next
  case (array0 w)
  show ?case
  proof (intro allI impI)
    fix ks :: "bool list" and st w0 r
    assume *: "value_state st" "ws w0" "delim r" "length ks + nesting (JArr []) \<le> MAX_DEPTH"
    have "areach True (ks, st, w0 @ CHR ''['' # w @ CHR '']'' # r) ([ArrayStart] @ [ArrayEnd]) (ks, after ks, r)"
      using * array0 by (intro areach.step [OF astep.open_array] areach_one astep.close_array) simp_all
    then show "areach True (ks, st, w0 @ (CHR ''['' # w @ '']'') @ r) (tokens_of (JArr [])) (ks, after ks, r)"
      by simp
  qed
next
  case (array vs t)
  show ?case
  proof (intro allI impI)
    fix ks :: "bool list" and st w0 r
    assume *: "value_state st" "ws w0" "delim r" "length ks + nesting (JArr vs) \<le> MAX_DEPTH"
    have "Suc (length ks) + nesting v \<le> MAX_DEPTH" if "v \<in> set vs" for v
      using nesting_element [OF that] *(4) by simp
    with array(2) have "areach True (True # ks, ArrayFirstValue, t @ CHR '']'' # r)
        (concat (map tokens_of vs) @ [ArrayEnd]) (ks, after ks, r)" by simp
    then have "areach True (ks, st, w0 @ CHR ''['' # t @ CHR '']'' # r)
        ([ArrayStart] @ concat (map tokens_of vs) @ [ArrayEnd]) (ks, after ks, r)"
      using * by (intro areach.step [OF astep.open_array]) simp_all
    then show "areach True (ks, st, w0 @ (CHR ''['' # t @ '']'') @ r) (tokens_of (JArr vs)) (ks, after ks, r)"
      by simp
  qed
next
  case (object0 w)
  show ?case
  proof (intro allI impI)
    fix ks :: "bool list" and st w0 r
    assume *: "value_state st" "ws w0" "delim r" "length ks + nesting (JObj []) \<le> MAX_DEPTH"
    have "areach True (ks, st, w0 @ CHR ''{'' # w @ CHR ''}'' # r) ([ObjectStart] @ [ObjectEnd]) (ks, after ks, r)"
      using * object0 by (intro areach.step [OF astep.open_object] areach_one astep.close_object) simp_all
    then show "areach True (ks, st, w0 @ (CHR ''{'' # w @ ''}'') @ r) (tokens_of (JObj [])) (ks, after ks, r)"
      by simp
  qed
next
  case (object ms t)
  show ?case
  proof (intro allI impI)
    fix ks :: "bool list" and st w0 r
    assume *: "value_state st" "ws w0" "delim r" "length ks + nesting (JObj ms) \<le> MAX_DEPTH"
    have "Suc (length ks) + nesting (snd m) \<le> MAX_DEPTH" if "m \<in> set ms" for m
      using nesting_member [of "fst m" "snd m" ms] that *(4) by simp
    with object(2) have "areach True (False # ks, ObjectFirstKey, t @ CHR ''}'' # r)
        (concat (map (\<lambda>(k, v). key_token k # tokens_of v) ms) @ [ObjectEnd]) (ks, after ks, r)"
      by simp
    then have "areach True (ks, st, w0 @ CHR ''{'' # t @ CHR ''}'' # r)
        ([ObjectStart] @ concat (map (\<lambda>(k, v). key_token k # tokens_of v) ms) @ [ObjectEnd]) (ks, after ks, r)"
      using * by (intro areach.step [OF astep.open_object]) simp_all
    then show "areach True (ks, st, w0 @ (CHR ''{'' # t @ ''}'') @ r) (tokens_of (JObj ms)) (ks, after ks, r)"
      by simp
  qed
next
  case (element w v t w')
  show ?case
  proof (intro allI impI)
    fix ks :: "bool list" and st r
    assume *: "st \<in> {ArrayFirstValue, ArrayNextValue}"
      "\<forall>v\<in>set [v]. Suc (length ks) + nesting v \<le> MAX_DEPTH"
    have "areach True (True # ks, st, w @ t @ w' @ CHR '']'' # r) (tokens_of v)
        (True # ks, after (True # ks), w' @ CHR '']'' # r)"
      using * element(1,3) by (intro element(4) [rule_format]) (auto simp: delim_ws)
    moreover have "areach True (True # ks, after (True # ks), w' @ CHR '']'' # r) [ArrayEnd] (ks, after ks, r)"
      using element(3) by (auto intro!: areach_one astep.close_array)
    ultimately have "areach True (True # ks, st, w @ t @ w' @ CHR '']'' # r) (tokens_of v @ [ArrayEnd]) (ks, after ks, r)"
      by (rule areach_trans)
    then show "areach True (True # ks, st, (w @ t @ w') @ CHR '']'' # r)
       (concat (map tokens_of [v]) @ [ArrayEnd]) (ks, after ks, r)" by simp
  qed
next
  case (more_elements w v t w' vs ts)
  show ?case
  proof (intro allI impI)
    fix ks :: "bool list" and st r
    assume *: "st \<in> {ArrayFirstValue, ArrayNextValue}"
      "\<forall>v\<in>set (v # vs). Suc (length ks) + nesting v \<le> MAX_DEPTH"
    have 1: "areach True (True # ks, st, w @ t @ w' @ CHR '','' # ts @ CHR '']'' # r) (tokens_of v)
        (True # ks, after (True # ks), w' @ CHR '','' # ts @ CHR '']'' # r)"
      using * more_elements(1,3) by (intro more_elements(5) [rule_format]) (auto simp: delim_ws)
    have 2: "areach True (True # ks, after (True # ks), w' @ CHR '','' # ts @ CHR '']'' # r) []
        (True # ks, ArrayNextValue, ts @ CHR '']'' # r)"
      using more_elements(3) by (auto intro!: areach_one astep.comma_array)
    have 3: "areach True (True # ks, ArrayNextValue, ts @ CHR '']'' # r)
        (concat (map tokens_of vs) @ [ArrayEnd]) (ks, after ks, r)"
      using * more_elements by simp
    from areach_trans [OF 1 areach_trans [OF 2 3]]
    show "areach True (True # ks, st, (w @ t @ w' @ CHR '','' # ts) @ CHR '']'' # r)
       (concat (map tokens_of (v # vs)) @ [ArrayEnd]) (ks, after ks, r)" by simp
  qed
next
  case (member w1 k w2 w3 v t w4)
  show ?case
  proof (intro allI impI)
    fix ks :: "bool list" and st r
    assume *: "st \<in> {ObjectFirstKey, ObjectNextKey}"
      "\<forall>m\<in>set [(k, v)]. Suc (length ks) + nesting (snd m) \<le> MAX_DEPTH"
    have 1: "areach True (False # ks, st, w1 @ CHR 0x22 # k @ CHR 0x22 # w2 @ CHR '':'' # w3 @ t @ w4 @ CHR ''}'' # r)
        [key_token k] (False # ks, ObjectValue, w3 @ t @ w4 @ CHR ''}'' # r)"
      using * member by (intro areach_one astep.key) simp_all
    have 2: "areach True (False # ks, ObjectValue, w3 @ t @ w4 @ CHR ''}'' # r) (tokens_of v)
        (False # ks, after (False # ks), w4 @ CHR ''}'' # r)"
      using * member(4,6) by (intro member(7) [rule_format]) (auto simp: delim_ws)
    have 3: "areach True (False # ks, after (False # ks), w4 @ CHR ''}'' # r) [ObjectEnd] (ks, after ks, r)"
      using member by (auto intro!: areach_one astep.close_object)
    from areach_trans [OF 1 areach_trans [OF 2 3]]
    show "areach True (False # ks, st, (w1 @ CHR 0x22 # k @ CHR 0x22 # w2 @ CHR '':'' # w3 @ t @ w4) @ CHR ''}'' # r)
       (concat (map (\<lambda>(k, v). key_token k # tokens_of v) [(k, v)]) @ [ObjectEnd]) (ks, after ks, r)" by simp
  qed
next
  case (more_members w1 k w2 w3 v t w4 ms ts)
  show ?case
  proof (intro allI impI)
    fix ks :: "bool list" and st r
    assume *: "st \<in> {ObjectFirstKey, ObjectNextKey}"
      "\<forall>m\<in>set ((k, v) # ms). Suc (length ks) + nesting (snd m) \<le> MAX_DEPTH"
    let ?r = "ts @ CHR ''}'' # r"
    have 1: "areach True (False # ks, st, w1 @ CHR 0x22 # k @ CHR 0x22 # w2 @ CHR '':'' # w3 @ t @ w4 @ CHR '','' # ?r)
        [key_token k] (False # ks, ObjectValue, w3 @ t @ w4 @ CHR '','' # ?r)"
      using * more_members by (intro areach_one astep.key) simp_all
    have 2: "areach True (False # ks, ObjectValue, w3 @ t @ w4 @ CHR '','' # ?r) (tokens_of v)
        (False # ks, after (False # ks), w4 @ CHR '','' # ?r)"
      using * more_members(4,6) by (intro more_members(8) [rule_format]) (auto simp: delim_ws)
    have 3: "areach True (False # ks, after (False # ks), w4 @ CHR '','' # ?r) []
        (False # ks, ObjectNextKey, ?r)"
      using more_members by (auto intro!: areach_one astep.comma_object)
    have 4: "areach True (False # ks, ObjectNextKey, ?r)
        (concat (map (\<lambda>(k, v). key_token k # tokens_of v) ms) @ [ObjectEnd]) (ks, after ks, r)"
      using * more_members by simp
    from areach_trans [OF 1 areach_trans [OF 2 areach_trans [OF 3 4]]]
    show "areach True (False # ks, st, (w1 @ CHR 0x22 # k @ CHR 0x22 # w2 @ CHR '':'' # w3 @ t @ w4 @ CHR '','' # ts) @ CHR ''}'' # r)
       (concat (map (\<lambda>(k, v). key_token k # tokens_of v) ((k, v) # ms)) @ [ObjectEnd]) (ks, after ks, r)" by simp
  qed
qed (simp_all add: areach_literal)

section \<open>The grammar parses runs\<close>

text \<open>
  \<open>parses ks st r ts\<close>: with containers \<open>ks\<close> open and in state \<open>st\<close>, the remaining
  input \<open>r\<close> completes the document and \<open>ts\<close> are the tokens of the completion.
\<close>

inductive parses :: "bool list \<Rightarrow> tstate \<Rightarrow> string \<Rightarrow> token list \<Rightarrow> bool" where
  finish: "ws w \<Longrightarrow> parses [] Done w []"
| val: "value_state st \<Longrightarrow> ws w \<Longrightarrow> json_text v t \<Longrightarrow> length ks + nesting v \<le> MAX_DEPTH \<Longrightarrow>
    parses ks (after ks) r ts \<Longrightarrow> parses ks st (w @ t @ r) (tokens_of v @ ts)"
| close_array: "st \<in> {ArrayFirstValue, ArrayComma} \<Longrightarrow> ws w \<Longrightarrow> parses ks (after ks) r ts \<Longrightarrow>
    parses (True # ks) st (w @ CHR '']'' # r) (ArrayEnd # ts)"
| comma_array: "ws w \<Longrightarrow> parses (True # ks) ArrayNextValue r ts \<Longrightarrow>
    parses (True # ks) ArrayComma (w @ CHR '','' # r) ts"
| close_object: "st \<in> {ObjectFirstKey, ObjectComma} \<Longrightarrow> ws w \<Longrightarrow> parses ks (after ks) r ts \<Longrightarrow>
    parses (False # ks) st (w @ CHR ''}'' # r) (ObjectEnd # ts)"
| comma_object: "ws w \<Longrightarrow> parses (False # ks) ObjectNextKey r ts \<Longrightarrow>
    parses (False # ks) ObjectComma (w @ CHR '','' # r) ts"
| key: "st \<in> {ObjectFirstKey, ObjectNextKey} \<Longrightarrow> ws w \<Longrightarrow> string_body b \<Longrightarrow> ws w' \<Longrightarrow>
    parses (False # ks) ObjectValue r ts \<Longrightarrow>
    parses (False # ks) st (w @ CHR 0x22 # b @ CHR 0x22 # w' @ CHR '':'' # r) (key_token b # ts)"

text \<open>An open array or object is completed by its remaining elements and the closing bracket.\<close>

definition array_tail :: "bool list \<Rightarrow> json list \<Rightarrow> string \<Rightarrow> token list \<Rightarrow> string \<Rightarrow> bool" where
  "array_tail ks vs r ts t \<longleftrightarrow>
     (\<exists>r' ts'. r = t @ CHR '']'' # r' \<and> ts = concat (map tokens_of vs) @ ArrayEnd # ts' \<and>
        (\<forall>v\<in>set vs. Suc (length ks) + nesting v \<le> MAX_DEPTH) \<and> parses ks (after ks) r' ts')"

lemma parses_array:
  "parses kk st r ts \<Longrightarrow> kk = True # ks \<Longrightarrow>
   (st = ArrayNextValue \<longrightarrow> (\<exists>vs t. elements vs t \<and> array_tail ks vs r ts t)) \<and>
   (st = ArrayFirstValue \<longrightarrow> (\<exists>vs t. (elements vs t \<or> vs = [] \<and> ws t) \<and> array_tail ks vs r ts t)) \<and>
   (st = ArrayComma \<longrightarrow> (\<exists>w. ws w \<and> (array_tail ks [] r ts w \<or>
      (\<exists>vs t. elements vs t \<and> array_tail ks vs r ts (w @ CHR '','' # t)))))"
proof (induction rule: parses.induct)
  case (val st w v t kk r ts)
  then obtain w' where w': "ws w'" and tail: "array_tail ks [] r ts w' \<or>
      (\<exists>vs t. elements vs t \<and> array_tail ks vs r ts (w' @ CHR '','' # t))" by auto
  have "\<exists>vs u. elements vs u \<and> array_tail ks vs (w @ t @ r) (tokens_of v @ ts) u"
    using tail
  proof
    assume "array_tail ks [] r ts w'"
    then have "array_tail ks [v] (w @ t @ r) (tokens_of v @ ts) (w @ t @ w')"
      using val by (auto simp: array_tail_def)
    then show ?thesis using val w' by (blast intro: element)
  next
    assume "\<exists>vs u. elements vs u \<and> array_tail ks vs r ts (w' @ CHR '','' # u)"
    then obtain vs u where u: "elements vs u" "array_tail ks vs r ts (w' @ CHR '','' # u)" by blast
    then have "array_tail ks (v # vs) (w @ t @ r) (tokens_of v @ ts) (w @ t @ w' @ CHR '','' # u)"
      using val by (auto simp: array_tail_def)
    then show ?thesis using val w' u(1) by (blast intro: more_elements)
  qed
  then show ?case using val(1) by (auto simp: value_state_def after_def)
next
  case (close_array st w kk r ts)
  then have "array_tail ks [] (w @ CHR '']'' # r) (ArrayEnd # ts) w"
    by (auto simp: array_tail_def)
  with close_array show ?case by auto
next
  case (comma_array w kk r ts)
  then obtain vs t where "elements vs t" "array_tail ks vs r ts t" by auto
  moreover from this(2) have "array_tail ks vs (w @ CHR '','' # r) ts (w @ CHR '','' # t)"
    by (auto simp: array_tail_def)
  ultimately show ?case using comma_array(1) by auto
qed auto

definition object_tail ::
    "bool list \<Rightarrow> token list \<Rightarrow> (string \<times> json) list \<Rightarrow> string \<Rightarrow> token list \<Rightarrow> string \<Rightarrow> bool" where
  "object_tail ks pre ms r ts t \<longleftrightarrow>
     (\<exists>r' ts'. r = t @ CHR ''}'' # r' \<and>
        ts = pre @ concat (map (\<lambda>(k, v). key_token k # tokens_of v) ms) @ ObjectEnd # ts' \<and>
        (\<forall>m\<in>set ms. Suc (length ks) + nesting (snd m) \<le> MAX_DEPTH) \<and> parses ks (after ks) r' ts')"

lemma parses_object:
  "parses kk st r ts \<Longrightarrow> kk = False # ks \<Longrightarrow>
   (st = ObjectNextKey \<longrightarrow> (\<exists>ms t. members ms t \<and> object_tail ks [] ms r ts t)) \<and>
   (st = ObjectFirstKey \<longrightarrow> (\<exists>ms t. (members ms t \<or> ms = [] \<and> ws t) \<and> object_tail ks [] ms r ts t)) \<and>
   (st = ObjectValue \<longrightarrow> (\<exists>w v t w'. ws w \<and> json_text v t \<and> ws w' \<and>
      Suc (length ks) + nesting v \<le> MAX_DEPTH \<and>
      (object_tail ks (tokens_of v) [] r ts (w @ t @ w') \<or>
       (\<exists>ms u. members ms u \<and> object_tail ks (tokens_of v) ms r ts (w @ t @ w' @ CHR '','' # u))))) \<and>
   (st = ObjectComma \<longrightarrow> (\<exists>w. ws w \<and> (object_tail ks [] [] r ts w \<or>
      (\<exists>ms t. members ms t \<and> object_tail ks [] ms r ts (w @ CHR '','' # t)))))"
proof (induction rule: parses.induct)
  case (val st w v t kk r ts)
  have "after kk = ObjectComma" using val.prems by simp
  with val.IH [OF val.prems] obtain w' where w': "ws w'" and tail: "object_tail ks [] [] r ts w' \<or>
      (\<exists>ms t. members ms t \<and> object_tail ks [] ms r ts (w' @ CHR '','' # t))" by blast
  have tail': "object_tail ks (tokens_of v) [] (w @ t @ r) (tokens_of v @ ts) (w @ t @ w') \<or>
       (\<exists>ms u. members ms u \<and>
          object_tail ks (tokens_of v) ms (w @ t @ r) (tokens_of v @ ts) (w @ t @ w' @ CHR '','' # u))"
    using tail by (auto simp: object_tail_def)
  have "Suc (length ks) + nesting v \<le> MAX_DEPTH" using val(4) val.prems by simp
  with val(2,3) w' tail' have "\<exists>w0 v0 t0 w'. ws w0 \<and> json_text v0 t0 \<and> ws w' \<and>
      Suc (length ks) + nesting v0 \<le> MAX_DEPTH \<and>
      (object_tail ks (tokens_of v0) [] (w @ t @ r) (tokens_of v @ ts) (w0 @ t0 @ w') \<or>
       (\<exists>ms u. members ms u \<and>
          object_tail ks (tokens_of v0) ms (w @ t @ r) (tokens_of v @ ts) (w0 @ t0 @ w' @ CHR '','' # u)))"
    by (intro exI [of _ w] exI [of _ v] exI [of _ t] exI [of _ w'] conjI)
  moreover have "st \<notin> {ObjectNextKey, ObjectFirstKey, ObjectComma}"
    using val(1) by (auto simp: value_state_def)
  ultimately show ?case by simp
next
  case (close_object st w kk r ts)
  then have "object_tail ks [] [] (w @ CHR ''}'' # r) (ObjectEnd # ts) w"
    by (auto simp: object_tail_def)
  with close_object(1,2) show ?case by blast
next
  case (comma_object w kk r ts)
  from comma_object.IH [OF comma_object.prems] obtain ms t where
    "members ms t" "object_tail ks [] ms r ts t" by blast
  moreover from this(2) have "object_tail ks [] ms (w @ CHR '','' # r) ts (w @ CHR '','' # t)"
    by (auto simp: object_tail_def)
  ultimately show ?case using comma_object(1) by blast
next
  case (key st w1 b w2 kk r ts)
  from key.IH [OF key.prems] obtain w3 v t w4 where v: "ws w3" "json_text v t" "ws w4"
    "Suc (length ks) + nesting v \<le> MAX_DEPTH" and
    tail: "object_tail ks (tokens_of v) [] r ts (w3 @ t @ w4) \<or>
       (\<exists>ms u. members ms u \<and> object_tail ks (tokens_of v) ms r ts (w3 @ t @ w4 @ CHR '','' # u))" by blast
  let ?r = "w1 @ CHR 0x22 # b @ CHR 0x22 # w2 @ CHR '':'' # r"
  have "\<exists>ms u. members ms u \<and> object_tail ks [] ms ?r (key_token b # ts) u"
    using tail
  proof
    assume "object_tail ks (tokens_of v) [] r ts (w3 @ t @ w4)"
    then have "object_tail ks [] [(b, v)] ?r (key_token b # ts)
        (w1 @ CHR 0x22 # b @ CHR 0x22 # w2 @ CHR '':'' # w3 @ t @ w4)"
      using v(4) by (auto simp: object_tail_def)
    moreover have "members [(b, v)] (w1 @ CHR 0x22 # b @ CHR 0x22 # w2 @ CHR '':'' # w3 @ t @ w4)"
      using key(2-4) v by (intro member)
    ultimately show ?thesis by blast
  next
    assume "\<exists>ms u. members ms u \<and> object_tail ks (tokens_of v) ms r ts (w3 @ t @ w4 @ CHR '','' # u)"
    then obtain ms u where u: "members ms u"
      "object_tail ks (tokens_of v) ms r ts (w3 @ t @ w4 @ CHR '','' # u)" by blast
    from u(2) have "object_tail ks [] ((b, v) # ms) ?r (key_token b # ts)
        (w1 @ CHR 0x22 # b @ CHR 0x22 # w2 @ CHR '':'' # w3 @ t @ w4 @ CHR '','' # u)"
      using v(4) by (auto simp: object_tail_def)
    moreover have "members ((b, v) # ms)
        (w1 @ CHR 0x22 # b @ CHR 0x22 # w2 @ CHR '':'' # w3 @ t @ w4 @ CHR '','' # u)"
      using key(2-4) v u(1) by (intro more_members)
    ultimately show ?thesis by blast
  qed
  then show ?case using key(1) by blast
qed simp_all

lemma parses_open_array:
  assumes "parses (True # ks) ArrayFirstValue r ts" "value_state st" "ws w" "length ks < MAX_DEPTH"
  shows "parses ks st (w @ CHR ''['' # r) (ArrayStart # ts)"
proof -
  from parses_array [OF assms(1) refl] obtain vs t r' ts' where
    vs: "elements vs t \<or> vs = [] \<and> ws t" "r = t @ CHR '']'' # r'"
    "ts = concat (map tokens_of vs) @ ArrayEnd # ts'"
    "\<forall>v\<in>set vs. Suc (length ks) + nesting v \<le> MAX_DEPTH" "parses ks (after ks) r' ts'"
    by (auto simp: array_tail_def)
  from vs(1) have "json_text (JArr vs) (CHR ''['' # t @ [CHR '']''])" by (auto intro: array array0)
  moreover have "foldr (\<lambda>v n. max (nesting v) n) vs 0 \<le> MAX_DEPTH - Suc (length ks)"
    by (rule foldr_max_bound) (use vs(4) in fastforce)
  then have "length ks + nesting (JArr vs) \<le> MAX_DEPTH" using assms(4) by simp
  ultimately have "parses ks st (w @ (CHR ''['' # t @ [CHR '']'']) @ r') (tokens_of (JArr vs) @ ts')"
    using assms(2,3) vs(5) by (intro parses.val)
  with vs(2,3) show ?thesis by simp
qed

lemma parses_open_object:
  assumes "parses (False # ks) ObjectFirstKey r ts" "value_state st" "ws w" "length ks < MAX_DEPTH"
  shows "parses ks st (w @ CHR ''{'' # r) (ObjectStart # ts)"
proof -
  from parses_object [OF assms(1) refl] obtain ms t r' ts' where
    ms: "members ms t \<or> ms = [] \<and> ws t" "r = t @ CHR ''}'' # r'"
    "ts = concat (map (\<lambda>(k, v). key_token k # tokens_of v) ms) @ ObjectEnd # ts'"
    "\<forall>m\<in>set ms. Suc (length ks) + nesting (snd m) \<le> MAX_DEPTH" "parses ks (after ks) r' ts'"
    by (auto simp: object_tail_def)
  from ms(1) have "json_text (JObj ms) (CHR ''{'' # t @ [CHR ''}''])" by (auto intro: object object0)
  moreover have "foldr (\<lambda>kv n. max (nesting (snd kv)) n) ms 0 \<le> MAX_DEPTH - Suc (length ks)"
    by (rule foldr_max_bound) (use ms(4) in fastforce)
  then have "length ks + nesting (JObj ms) \<le> MAX_DEPTH" using assms(4) by simp
  ultimately have "parses ks st (w @ (CHR ''{'' # t @ [CHR ''}'']) @ r') (tokens_of (JObj ms) @ ts')"
    using assms(2,3) ms(5) by (intro parses.val)
  with ms(2,3) show ?thesis by simp
qed

lemma parses_scalar:
  assumes "parses ks (after ks) r ts" "json_text v t" "nesting v = 0" "length ks \<le> MAX_DEPTH"
    "value_state st" "ws w"
  shows "parses ks st (w @ t @ r) (tokens_of v @ ts)"
  using parses.val [OF assms(5,6,2) _ assms(1)] assms(3,4) by simp

lemma astep_length:
  "astep strict c ts c' \<Longrightarrow> length (fst c) \<le> MAX_DEPTH \<Longrightarrow> length (fst c') \<le> MAX_DEPTH"
  by (induction rule: astep.induct) simp_all

lemma parses_literal:
  assumes "parses ks (after ks) r ts" "length ks \<le> MAX_DEPTH" "value_state st" "ws w"
    and "(l, t) \<in> {(''true'', BooleanTok True), (''false'', BooleanTok False), (''null'', NullTok)}"
  shows "parses ks st (w @ l @ r) (t # ts)"
proof -
  consider "l = ''true''" "t = BooleanTok True" | "l = ''false''" "t = BooleanTok False"
    | "l = ''null''" "t = NullTok" using assms(5) by blast
  then show ?thesis
    using parses_scalar [OF assms(1) true _ assms(2-4)] parses_scalar [OF assms(1) false _ assms(2-4)]
      parses_scalar [OF assms(1) null _ assms(2-4)]
    by cases simp_all
qed

lemma astep_parses:
  "astep False c ts c' \<Longrightarrow> parses (fst c') (fst (snd c')) (snd (snd c')) ts' \<Longrightarrow>
   length (fst c) \<le> MAX_DEPTH \<Longrightarrow> parses (fst c) (fst (snd c)) (snd (snd c)) (ts @ ts')"
proof (induction rule: astep.induct)
  case (literal st w l t ks r)
  then show ?case using parses_literal [OF _ _ literal(1,2,3)] by simp
next
  case (number st w n r ks)
  then show ?case
    using parses_scalar [OF _ json_text_elements_members.number, of ks r ts' n st w] by simp
next
  case (string st w b ks r)
  then show ?case
    using parses_scalar [OF _ json_text_elements_members.string, of ks r ts' b st w] by simp
next
  case (open_array st w ks r)
  then show ?case using parses_open_array [of ks r ts' st w] by simp
next
  case (open_object st w ks r)
  then show ?case using parses_open_object [of ks r ts' st w] by simp
next
  case (close_array st w ks r)
  then show ?case using parses.close_array [OF close_array(1,2)] by simp
next
  case (close_object st w ks r)
  then show ?case using parses.close_object [OF close_object(1,2)] by simp
next
  case (comma_array w ks r)
  then show ?case by (simp add: parses.comma_array)
next
  case (comma_object w ks r)
  then show ?case by (simp add: parses.comma_object)
next
  case (key st w b w' ks r)
  then show ?case using parses.key [OF key(1-4)] by simp
qed

lemma areach_parses:
  "areach False c ts c' \<Longrightarrow> c' = ([], Done, w0) \<Longrightarrow> ws w0 \<Longrightarrow> length (fst c) \<le> MAX_DEPTH \<Longrightarrow>
   parses (fst c) (fst (snd c)) (snd (snd c)) ts"
proof (induction rule: areach.induct)
  case (stop c)
  then show ?case by (simp add: parses.finish)
next
  case (step c ts c1 ts' c')
  from step.IH [OF step.prems(1,2) astep_length [OF step.hyps(1) step.prems(3)]]
  show ?case by (rule astep_parses [OF step.hyps(1) _ step.prems(3)])
qed

section \<open>The tokenizer accepts exactly JSON\<close>

lemma at_config_new: "valid_utf8 input \<Longrightarrow> at_config (tk_new input) ([], Start, input)"
  by (simp add: at_config_def tk_new_def stack_wf_def kinds_def tk_rest_def state_ok_def)

lemma drive_new_eq_run:
  "drive collect (tk_new input) [] = (Inr None, tk', ts) \<longleftrightarrow>
   run collect (tk_new input) [] = (Inr None, tk', ts)"
  by (auto simp: drive_def tk_new_def split: prod.splits sum.splits)

lemma run_collect_json:
  assumes "valid_utf8 (w @ t @ w')" "ws w" "ws w'" "json_text j t" "nesting j \<le> MAX_DEPTH"
  shows "\<exists>tk'. run collect (tk_new (w @ t @ w')) [] = (Inr None, tk', tokens_of j)"
proof -
  have "delim w'" using assms(3) delim_ws [of w' "[]"] by simp
  with assms(2,5) have "areach True ([], Start, w @ t @ w') (tokens_of j) ([], after [], w')"
    by (intro json_text_runs(1) [OF assms(4), rule_format]) simp_all
  then have "areach True ([], Start, w @ t @ w') (tokens_of j) ([], Done, w')" by simp
  from run_collect_reach [OF this at_config_new [OF assms(1)]] obtain tk1 where
    tk1: "at_config tk1 ([], Done, w')"
      "run collect (tk_new (w @ t @ w')) [] = run collect tk1 ([] @ tokens_of j)"
    by blast
  from run_collect_final [OF tk1(1) assms(3)] tk1(2) show ?thesis by auto
qed

text \<open>
  C1: The tokenizer accepts exactly JSON, and reports exactly its tokens. On a UTF-8 input a
  single drive of a visitor that collects the tokens and never suspends ends with success and
  the tokens \<open>ts\<close> if and only if the input is whitespace around the text of a JSON value of
  RFC 8259 nested at most \<open>MAX_DEPTH\<close> deep whose tokens are \<open>ts\<close>.
\<close>

theorem tokenizer_accepts_iff:
  assumes "valid_utf8 input"
  shows "(\<exists>tk'. drive collect (tk_new input) [] = (Inr None, tk', ts)) \<longleftrightarrow>
    (\<exists>w j t w'. input = w @ t @ w' \<and> ws w \<and> ws w' \<and> json_text j t \<and>
       nesting j \<le> MAX_DEPTH \<and> ts = tokens_of j)"
proof
  assume "\<exists>tk'. drive collect (tk_new input) [] = (Inr None, tk', ts)"
  then obtain tk' where "run collect (tk_new input) [] = (Inr None, tk', ts)"
    unfolding drive_new_eq_run by blast
  from run_collect_sound [OF at_config_new [OF assms] this] obtain w0 where
    "areach False ([], Start, input) ts ([], Done, w0)" "ws w0" by auto
  from areach_parses [OF this(1) refl this(2)] have "parses [] Start input ts" by simp
  then show "\<exists>w j t w'. input = w @ t @ w' \<and> ws w \<and> ws w' \<and> json_text j t \<and>
       nesting j \<le> MAX_DEPTH \<and> ts = tokens_of j"
  proof (cases rule: parses.cases)
    case (val w v t r ts')
    from val(7) have "ws r \<and> ts' = []" by (cases rule: parses.cases) (auto simp: value_state_def)
    with val show ?thesis by auto
  qed
next
  assume "\<exists>w j t w'. input = w @ t @ w' \<and> ws w \<and> ws w' \<and> json_text j t \<and>
       nesting j \<le> MAX_DEPTH \<and> ts = tokens_of j"
  then show "\<exists>tk'. drive collect (tk_new input) [] = (Inr None, tk', ts)"
    unfolding drive_new_eq_run using run_collect_json assms by blast
qed

theorem tokenizer_accepts_iff_witness:
  "\<exists>tk'. drive collect (tk_new '' [1, null]'') [] = (Inr None, tk', [ArrayStart, NumberTok ''1'', NullTok, ArrayEnd])"
proof (rule tokenizer_accepts_iff [THEN iffD2])
  show "valid_utf8 '' [1, null]''" by (rule valid_utf8_all_ascii) simp
  have n: "number_text ''1''"
    unfolding number_text_def int_part_def frac_part_def exp_part_def
    by (intro exI [of _ "[]"] exI [of _ "''1''"]) (simp add: is_ascii_digit_def)
  have "elements [JNum ''1'', JNull] ([] @ ''1'' @ [] @ CHR '','' # ('' '' @ ''null'' @ []))"
    by (rule more_elements) (simp_all add: json_text_elements_members.number n is_ws_def element [of "'' ''", OF _ null, of "[]", simplified])
  then have "json_text (JArr [JNum ''1'', JNull]) ''[1, null]''"
    using array by fastforce
  then show "\<exists>w j t w'. '' [1, null]'' = w @ t @ w' \<and> ws w \<and> ws w' \<and> json_text j t \<and>
      nesting j \<le> MAX_DEPTH \<and> [ArrayStart, NumberTok ''1'', NullTok, ArrayEnd] = tokens_of j"
    by (intro exI [of _ "'' ''"] exI [of _ "JArr [JNum ''1'', JNull]"] exI [of _ "''[1, null]''"] exI [of _ "[]"])
       (simp add: is_ws_def MAX_DEPTH_def STACK_WORDS_def)
qed

end
