(* ===== verification/Json_Suspend.thy ===== *)
theory Json_Suspend
  imports Json_Grammar
begin

text \<open>
  Suspension and failure of the tokenizer: a visitor may stop the scan after any token and
  \<open>drive\<close> resumes it, and a failed tokenizer keeps reporting its error.
\<close>

section \<open>Resuming a suspended scan\<close>

lemma run_suspended:
  "run visitor tk v = (Inr (Some out), tk', v') \<Longrightarrow>
   length (tk_input tk') - tk_offset tk' < length (tk_input tk) - tk_offset tk"
proof (induction visitor tk v rule: run.induct)
  case (1 visitor tk v)
  obtain b tk1 where sk: "skip_whitespace tk = (b, tk1)" by (cases "skip_whitespace tk")
  with 1(3) obtain byte where b: "b = Some byte"
    by (cases b) (subst (asm) run.simps, auto split: tstate.splits)
  with sk 1(3) obtain t tk2 where d: "dispatch byte tk1 = (Inr t, tk2)"
    by (subst (asm) run.simps) (auto split: prod.splits sum.splits)
  note less = turn_progress [OF sk [unfolded b] d]
  show ?case
  proof (cases t)
    case None
    with 1(3) sk b d have "run visitor tk2 v = (Inr (Some out), tk', v')"
      by (subst (asm) run.simps) simp
    from 1(1) [OF sk [symmetric] b d [symmetric] refl None this] less show ?thesis by simp
  next
    case (Some tok)
    obtain o' v2 where vis: "visitor tok v = (o', v2)" by (cases "visitor tok v")
    show ?thesis
    proof (cases o')
      case None
      with 1(3) sk b d Some vis have "run visitor tk2 v2 = (Inr (Some out), tk', v')"
        by (subst (asm) run.simps) simp
      from 1(2) [OF sk [symmetric] b d [symmetric] refl Some vis [symmetric] None this] less
      show ?thesis by simp
    next
      case (Some out')
      with 1(3) sk b d \<open>t = Some tok\<close> vis have "tk' = tk2"
        by (subst (asm) run.simps) simp
      with less show ?thesis by simp
    qed
  qed
qed

lemma drive_suspended:
  "drive visitor tk v = (Inr (Some out), tk', v') \<Longrightarrow>
   length (tk_input tk') - tk_offset tk' < length (tk_input tk) - tk_offset tk"
  by (rule run_suspended [of visitor tk v out])
     (auto simp: drive_def split: option.splits prod.splits sum.splits)

text \<open>
  A visitor that records the tokens and suspends whenever its predicate on the record asks
  for it, and a caller that drives the tokenizer again after every suspension.
\<close>

definition pausing :: "(token list \<Rightarrow> bool) \<Rightarrow> (token list, unit) visitor" where
  "pausing P tok log = (if P (log @ [tok]) then Some () else None, log @ [tok])"

function drive_all ::
    "(token list \<Rightarrow> bool) \<Rightarrow> tokenizer \<Rightarrow> token list \<Rightarrow> (json_error + unit option) \<times> tokenizer \<times> token list"
where
  "drive_all P tk log =
     (case drive (pausing P) tk log of
        (Inr (Some _), tk', log') \<Rightarrow> drive_all P tk' log'
      | r \<Rightarrow> r)"
  by auto
termination
  by (relation "measure (\<lambda>(_, tk, _). length (tk_input tk) - tk_offset tk)")
     (auto dest: drive_suspended [OF sym])

declare drive_all.simps [simp del]

lemma run_pausing:
  "(case run (pausing P) tk log of
      (Inr (Some _), tk', log') \<Rightarrow> run collect tk log = run collect tk' log' \<and> tk_failure tk' = tk_failure tk
    | r \<Rightarrow> run collect tk log = r)"
proof (induction "length (tk_input tk) - tk_offset tk" arbitrary: tk log rule: less_induct)
  case less
  obtain b tk1 where sk: "skip_whitespace tk = (b, tk1)" by (cases "skip_whitespace tk")
  show ?case
  proof (cases b)
    case None
    with sk show ?thesis by (subst (1 2 3) run.simps) (auto split: tstate.splits)
  next
    case (Some byte)
    obtain r tk2 where d: "dispatch byte tk1 = (r, tk2)" by (cases "dispatch byte tk1")
    show ?thesis
    proof (cases r)
      case (Inl e)
      with sk Some d show ?thesis by (subst (1 2 3) run.simps) simp
    next
      case (Inr t)
      have "tk_failure tk1 = tk_failure tk"
        using sk by (auto simp: skip_whitespace_def split: prod.splits)
      moreover have "tk_failure tk2 = tk_failure tk1"
        using dispatch_progress [of byte tk1 t tk2] skip_whitespace_Some [of tk byte tk1] d Inr sk Some
        by auto
      ultimately have fail: "tk_failure tk2 = tk_failure tk" by simp
      have less': "length (tk_input tk2) - tk_offset tk2 < length (tk_input tk) - tk_offset tk"
        using turn_progress sk Some d Inr by blast
      have turn: "run collect tk log = run collect tk2 (log @ emitted t)"
        using sk Some d Inr by (intro run_collect_turn) (auto simp: turns_into_def)
      show ?thesis
      proof (cases "\<exists>tok. t = Some tok \<and> P (log @ [tok])")
        case True
        then have "run (pausing P) tk log = (Inr (Some ()), tk2, log @ emitted t)"
          using sk Some d Inr by (subst run.simps) (auto simp: pausing_def)
        with turn fail show ?thesis by simp
      next
        case False
        then have "run (pausing P) tk log = run (pausing P) tk2 (log @ emitted t)"
          using sk Some d Inr by (subst run.simps) (cases t, auto simp: pausing_def)
        with less.hyps [OF less', of "log @ emitted t"] turn fail show ?thesis
          by (auto split: prod.splits sum.splits option.splits)
      qed
    qed
  qed
qed

text \<open>
  C4: Suspension is transparent. However a visitor chooses to suspend, driving the tokenizer
  again after every suspension reports the same tokens in the same order, ends with the same
  result and leaves the tokenizer in the same state as one drive of a visitor that never
  suspends.
\<close>

theorem suspension_transparent:
  "drive_all P tk log = drive collect tk log"
proof (induction "length (tk_input tk) - tk_offset tk" arbitrary: tk log rule: less_induct)
  case less
  show ?case
  proof (cases "tk_failure tk")
    case (Some e)
    then show ?thesis by (subst drive_all.simps) (simp add: drive_def)
  next
    case None
    obtain r tk' log' where run: "run (pausing P) tk log = (r, tk', log')"
      by (cases "run (pausing P) tk log")
    consider e where "r = Inl e" | "r = Inr None" | "r = Inr (Some ())"
      by (cases r) (auto elim: option.exhaust)
    then show ?thesis
    proof cases
      case 3
      with run have sus: "run (pausing P) tk log = (Inr (Some ()), tk', log')" by simp
      have "drive_all P tk' log' = drive collect tk' log'"
        using run_suspended [OF sus] by (rule less)
      moreover have "run collect tk log = run collect tk' log'" "tk_failure tk' = None"
        using run_pausing [where P = P and tk = tk and log = log] sus None by simp_all
      ultimately show ?thesis
        using None sus by (subst drive_all.simps) (simp add: drive_def)
    next
      case 1
      then show ?thesis using run_pausing [where P = P and tk = tk and log = log] run None
        by (subst drive_all.simps) (simp add: drive_def)
    next
      case 2
      then show ?thesis using run_pausing [where P = P and tk = tk and log = log] run None
        by (subst drive_all.simps) (simp add: drive_def)
    qed
  qed
qed

section \<open>Errors\<close>

lemma skip_ordinary_le: "cursor \<le> length bytes \<Longrightarrow> skip_ordinary bytes cursor \<le> length bytes"
  by (induction bytes cursor rule: skip_ordinary.induct) (subst skip_ordinary.simps, simp)

lemma string_end_error:
  "string_end bytes cursor esc = Inl e \<Longrightarrow> cursor \<le> length bytes \<Longrightarrow> err_offset e \<le> length bytes"
proof (induction bytes cursor esc rule: string_end.induct)
  case (1 bytes cursor esc)
  let ?c = "skip_ordinary bytes cursor"
  have c: "?c \<le> length bytes" using skip_ordinary_le 1(3) by blast
  have esc: "validate_escape bytes ?c = Inl e \<Longrightarrow> err_offset e \<le> length bytes"
    if "get_at bytes ?c = Some b" for b
    using that by (auto simp: validate_escape_def get_at_Some_iff split: option.splits if_splits)
  show ?case
  proof (cases "get_at bytes ?c")
    case None
    with 1(2) c show ?thesis by (subst (asm) string_end.simps) auto
  next
    case (Some b)
    show ?thesis
    proof (cases "b = CHR 0x5C")
      case True
      show ?thesis
      proof (cases "validate_escape bytes ?c")
        case (Inl e')
        with 1(2) Some True esc [OF Some] show ?thesis by (subst (asm) string_end.simps) simp
      next
        case (Inr k)
        have "string_end bytes k True = Inl e"
          using 1(2) Some True Inr by (subst (asm) string_end.simps) simp
        moreover have "k \<le> length bytes" using validate_escape_gt [OF Inr] by simp
        ultimately show ?thesis using 1(1) [OF refl Some _ True Inr] True by simp
      qed
    next
      case False
      with 1(2) Some c show ?thesis
        by (subst (asm) string_end.simps) (auto simp: Let_def split: if_splits)
    qed
  qed
qed

lemma scan_string_error:
  "scan_string tk = (Inl e, tk') \<Longrightarrow> tk_offset tk < length (tk_input tk) \<Longrightarrow>
   err_offset e \<le> length (tk_input tk) \<and> tk_input tk' = tk_input tk"
  using string_end_range [of "tk_input tk" "tk_offset tk + 1" False]
  by (auto simp: scan_string_def Let_def get_at_Some_iff split: sum.splits option.splits
      dest: string_end_error)

lemma skip_digits_le: "cursor \<le> length bytes \<Longrightarrow> skip_digits bytes cursor \<le> length bytes"
  using length_takeWhile_le [of is_ascii_digit "drop cursor bytes"] by (simp add: skip_digits_drop)

lemma number_error:
  "number_sign s k \<le> length s" if "k < length s"
  using that by (simp add: number_sign_def)

lemma number_int_error:
  "k \<le> length s \<Longrightarrow> (case number_int s k of Inl e \<Rightarrow> err_offset e \<le> length s | Inr c \<Rightarrow> c \<le> length s)"
  by (auto simp: number_int_def get_at_Some_iff skip_digits_le split: option.splits)

lemma number_frac_error:
  "k \<le> length s \<Longrightarrow> (case number_frac s k of Inl e \<Rightarrow> err_offset e \<le> length s | Inr c \<Rightarrow> c \<le> length s)"
  using skip_digits_le [of "Suc k" s] by (auto simp: number_frac_def Let_def get_at_Some_iff)

lemma number_exp_error:
  "k \<le> length s \<Longrightarrow> (case number_exp s k of Inl e \<Rightarrow> err_offset e \<le> length s | Inr c \<Rightarrow> c \<le> length s)"
  using skip_digits_le [of "Suc k" s] skip_digits_le [of "Suc (Suc k)" s]
  by (auto simp: number_exp_def Let_def get_at_Some_iff)

lemma scan_number_error:
  assumes "scan_number tk = (Inl e, tk')" and "tk_offset tk < length (tk_input tk)"
  shows "err_offset e \<le> length (tk_input tk) \<and> tk_input tk' = tk_input tk"
proof -
  let ?s = "tk_input tk" and ?k = "number_sign (tk_input tk) (tk_offset tk)"
  note k = number_error [OF assms(2)]
  show ?thesis
  proof (cases "number_int ?s ?k")
    case (Inl e1)
    with assms(1) number_int_error [OF k] show ?thesis by (auto simp: scan_number_def Let_def)
  next
    case (Inr c1)
    then have c1: "c1 \<le> length ?s" using number_int_error [OF k] by simp
    note i = Inr
    show ?thesis
    proof (cases "number_frac ?s c1")
      case (Inl e1)
      with assms(1) i number_frac_error [OF c1] show ?thesis by (auto simp: scan_number_def Let_def)
    next
      case (Inr c2)
      then have c2: "c2 \<le> length ?s" using number_frac_error [OF c1] by simp
      from assms i Inr number_exp_error [OF c2] show ?thesis
        by (auto simp: scan_number_def Let_def split: sum.splits option.splits)
    qed
  qed
qed

lemma scan_value_error:
  assumes "scan_value b tk = (Inl e, tk')" and "tk_offset tk < length (tk_input tk)"
  shows "err_offset e \<le> length (tk_input tk) \<and> tk_input tk' = tk_input tk"
proof -
  have lit: "err_offset e \<le> length (tk_input tk) \<and> tk_input tk' = tk_input tk"
    if "literal_value w tok tk = (Inl e, tk')" for w tok
    using that assms(2)
    by (auto simp: literal_value_def scan_literal_def Let_def tk_error_def
        split: option.splits if_splits)
  have cont: "err_offset e \<le> length (tk_input tk) \<and> tk_input tk' = tk_input tk"
    if "open_container a tk = (Inl e, tk')" for a
  proof -
    obtain r tk1 where p: "push a tk = (r, tk1)" by (cases "push a tk")
    with that assms(2) show ?thesis
      by (cases r) (auto simp: open_container_def push_def tk_error_def Let_def split: if_splits)
  qed
  have str: "err_offset e \<le> length (tk_input tk) \<and> tk_input tk' = tk_input tk"
    if "scan_string tk = (Inl e, tk')" using scan_string_error [OF that assms(2)] .
  have num: "err_offset e \<le> length (tk_input tk) \<and> tk_input tk' = tk_input tk"
    if "scan_number tk = (Inl e, tk')" using scan_number_error [OF that assms(2)] .
  consider "b = CHR ''{''" | "b = CHR ''[''" | "b = CHR 0x22" | "b \<in> {CHR ''t'', CHR ''f'', CHR ''n''}"
    | "b \<notin> {CHR ''{'', CHR ''['', CHR 0x22, CHR ''t'', CHR ''f'', CHR ''n''}" by blast
  then show ?thesis
  proof cases
    case 3
    with assms(1) str show ?thesis
      by (cases "scan_string tk") (auto simp: scan_value_def split: sum.splits)
  next
    case 5
    with assms num show ?thesis
      by (cases "scan_number tk")
         (auto simp: scan_value_def tk_error_def split: sum.splits if_splits)
  next
    case 4
    with assms(1) lit show ?thesis by (auto simp: scan_value_def)
  qed (use assms(1) cont in \<open>simp_all add: scan_value_def\<close>)
qed

lemma scan_key_error:
  assumes "scan_key b tk = (Inl e, tk')" and "tk_offset tk < length (tk_input tk)"
  shows "err_offset e \<le> length (tk_input tk) \<and> tk_input tk' = tk_input tk"
proof (cases "b = CHR 0x22")
  case False
  with assms show ?thesis by (auto simp: scan_key_def tk_error_def)
next
  case True
  obtain r tk1 where s: "scan_string tk = (r, tk1)" by (cases "scan_string tk")
  show ?thesis
  proof (cases r)
    case (Inl e1)
    with assms True s scan_string_error show ?thesis by (auto simp: scan_key_def)
  next
    case (Inr p)
    have tk1: "tk_input tk1 = tk_input tk" "tk_offset tk1 \<le> length (tk_input tk)"
      using scan_string_progress [of tk p tk1] s Inr by simp_all
    then have "tk_offset tk1 + length (takeWhile is_ws (tk_rest tk1)) \<le> length (tk_input tk1)"
      using length_takeWhile_le [of is_ws "tk_rest tk1"] by (simp add: tk_rest_def)
    with assms(1) True s Inr tk1 show ?thesis
      by (cases p) (auto simp: scan_key_def skip_whitespace_rest tk_error_def split: if_splits)
  qed
qed

lemma dispatch_error:
  assumes "dispatch b tk = (Inl e, tk')" and "tk_offset tk < length (tk_input tk)"
  shows "err_offset e \<le> length (tk_input tk) \<and> tk_input tk' = tk_input tk"
proof -
  have val: ?thesis if "emits (scan_value b tk) = (Inl e, tk')"
    using that scan_value_error [OF _ assms(2)]
    by (cases "scan_value b tk") (auto simp: emits_def split: sum.splits)
  have key: ?thesis if "emits (scan_key b tk) = (Inl e, tk')"
    using that scan_key_error [OF _ assms(2)]
    by (cases "scan_key b tk") (auto simp: emits_def split: sum.splits)
  show ?thesis using assms val key
    by (auto simp: dispatch_def tk_error_def split: tstate.splits if_splits)
qed

lemma run_error:
  "run visitor tk v = (Inl e, tk', v') \<Longrightarrow> tk_offset tk \<le> length (tk_input tk) \<Longrightarrow>
   err_offset e \<le> length (tk_input tk) \<and> tk_input tk' = tk_input tk"
proof (induction "length (tk_input tk) - tk_offset tk" arbitrary: tk v rule: less_induct)
  case less
  obtain b tk1 where sk: "skip_whitespace tk = (b, tk1)" by (cases "skip_whitespace tk")
  then have tk1: "tk_input tk1 = tk_input tk" "tk_offset tk1 \<le> length (tk_input tk)"
    using less.prems(2) length_takeWhile_le [of is_ws "tk_rest tk"]
    by (auto simp: skip_whitespace_rest tk_rest_def)
  show ?case
  proof (cases b)
    case None
    with less.prems sk tk1 show ?thesis
      by (subst (asm) run.simps) (auto simp: tk_error_def split: tstate.splits)
  next
    case (Some byte)
    have at: "get_at (tk_input tk1) (tk_offset tk1) = Some byte"
      using skip_whitespace_Some sk Some by blast
    obtain r tk2 where d: "dispatch byte tk1 = (r, tk2)" by (cases "dispatch byte tk1")
    show ?thesis
    proof (cases r)
      case (Inl e1)
      with less.prems(1) sk Some d have "e1 = e" "tk2 = tk'" by (subst (asm) run.simps, simp)+
      with dispatch_error [of byte tk1] d Inl at tk1 show ?thesis by (simp add: get_at_Some_iff)
    next
      case (Inr t)
      have tk2: "tk_input tk2 = tk_input tk" "tk_offset tk2 \<le> length (tk_input tk2)"
        using dispatch_progress [OF d [unfolded Inr] at] tk1 by simp_all
      have "\<exists>v2. run visitor tk2 v2 = (Inl e, tk', v')"
        using less.prems(1) sk Some d Inr
        by (subst (asm) run.simps) (auto split: option.splits prod.splits)
      then obtain v2 where "run visitor tk2 v2 = (Inl e, tk', v')" by blast
      from less.hyps [OF turn_progress [OF sk [unfolded Some] d [unfolded Inr]] this tk2(2)] tk2(1)
      show ?thesis by simp
    qed
  qed
qed

text \<open>
  C31: A failure is located and final. When a drive of a tokenizer that has not failed ends in an
  error, the offset of the error lies in the input, and every later drive, with whatever
  visitor, returns the same error, changes nothing and calls no method of the visitor.
\<close>

theorem drive_error_final:
  assumes "drive visitor tk v = (Inl e, tk', v')"
    and "tk_failure tk = None" and "tk_offset tk \<le> length (tk_input tk)"
  shows "err_offset e \<le> length (tk_input tk) \<and> drive visitor2 tk' v2 = (Inl e, tk', v2)"
proof -
  from assms(1,2) obtain tk1 where r: "run visitor tk v = (Inl e, tk1, v')"
    "tk' = tk1\<lparr>tk_failure := Some e\<rparr>"
    by (auto simp: drive_def split: prod.splits sum.splits)
  from run_error [OF r(1) assms(3)] r(2) show ?thesis by (simp add: drive_def)
qed

theorem drive_error_final_witness:
  "err_offset (JError UnexpectedByte 0) \<le> length ''x'' \<and>
   drive collect ((tk_new ''x'')\<lparr>tk_failure := Some (JError UnexpectedByte 0)\<rparr>) []
     = (Inl (JError UnexpectedByte 0), (tk_new ''x'')\<lparr>tk_failure := Some (JError UnexpectedByte 0)\<rparr>, [])"
proof -
  have "skip_whitespace (tk_new ''x'') = (Some (CHR ''x''), tk_new ''x'')"
    by (simp add: skip_whitespace_rest tk_rest_def tk_new_def is_ws_def)
  moreover have "dispatch (CHR ''x'') (tk_new ''x'') = (Inl (JError UnexpectedByte 0), tk_new ''x'')"
    by (simp add: dispatch_def tk_new_def scan_value_def is_ascii_digit_def tk_error_def)
  ultimately have "run collect (tk_new ''x'') [] = (Inl (JError UnexpectedByte 0), tk_new ''x'', [])"
    by (subst run.simps) simp
  then have "drive collect (tk_new ''x'') [] = (Inl (JError UnexpectedByte 0),
      (tk_new ''x'')\<lparr>tk_failure := Some (JError UnexpectedByte 0)\<rparr>, [])"
    by (simp add: drive_def tk_new_def)
  from drive_error_final [OF this, of collect "[]"] show ?thesis by (simp add: tk_new_def)
qed

end
