(* ===== verification/Varlink_Reply.thy ===== *)
theory Varlink_Reply
  imports Json_Suspend
begin

text \<open>
  \<open>kimojio/src/resolver/varlink_reply.rs\<close>: the decoder of \<open>ResolveHostname\<close> replies. The
  decoder is a state machine that the tokenizer drives through the \<open>Bridge\<close>; the caller's
  \<open>ReplyVisitor\<close> is a function from the reported item and its own state to the value it
  stops with, if any, and its new state. An \<open>i32\<close>, \<open>u64\<close> or \<open>i128\<close> is an integer with
  the range checks of \<open>try_from\<close> and \<open>parse\<close> written out; an octet is a byte.
\<close>

section \<open>Items, addresses and errors\<close>

definition REPLY_MAX_DEPTH :: nat where "REPLY_MAX_DEPTH = 5"

definition MAX_ADDRESS_BYTES :: nat where "MAX_ADDRESS_BYTES = 16"

record resolved_address =
  ra_ifindex :: int
  ra_family :: int
  ra_octets :: "8 word list"
  ra_length :: nat

definition address_octets :: "resolved_address \<Rightarrow> 8 word list" where
  "address_octets a =
     (if ra_length a \<le> length (ra_octets a) then take (ra_length a) (ra_octets a) else ra_octets a)"

datatype reply_item =
  AddressItem resolved_address | ErrorItem string | NameItem string
| EscapeNameItem escape_string | FlagsItem int

type_synonym ('v, 'o) reply_visitor = "reply_item \<Rightarrow> 'v \<Rightarrow> 'o option \<times> 'v"

datatype reply_error_kind =
  JsonKind | UnexpectedType | NumberOutOfRange | AddressTooLong | MissingMember
| ReplyDepthExceeded | UnexpectedEscape

fun reply_error_kind_as_str :: "reply_error_kind \<Rightarrow> string" where
  "reply_error_kind_as_str JsonKind = ''the reply was not well-formed JSON''"
| "reply_error_kind_as_str UnexpectedType = ''a reply member had the wrong JSON type''"
| "reply_error_kind_as_str NumberOutOfRange = ''a reply integer was out of range''"
| "reply_error_kind_as_str AddressTooLong = ''an address held more than 16 bytes''"
| "reply_error_kind_as_str MissingMember = ''the reply was missing a required member''"
| "reply_error_kind_as_str ReplyDepthExceeded = ''the reply nested too deeply''"
| "reply_error_kind_as_str UnexpectedEscape = ''a reply string contained an escape sequence''"

datatype reply_error = RError (reply_kind: reply_error_kind) (reply_offset: nat)

definition from_json :: "json_error \<Rightarrow> reply_error" where
  "from_json e = RError JsonKind (err_offset e)"

section \<open>Integers\<close>

text \<open>\<open>str::parse::<i128>\<close>: an optional sign and decimal digits, within the range.\<close>

definition digits_value :: "string \<Rightarrow> int" where
  "digits_value ds = foldl (\<lambda>v d. 10 * v + int (byte_val d - 48)) 0 ds"

definition parse_i128 :: "string \<Rightarrow> int option" where
  "parse_i128 s =
     (let (negative, ds) = (case s of
            c # cs \<Rightarrow> if c = CHR ''-'' then (True, cs) else if c = CHR ''+'' then (False, cs) else (False, s)
          | [] \<Rightarrow> (False, s));
          v = (if negative then - digits_value ds else digits_value ds) in
      if ds = [] \<or> \<not> list_all is_ascii_digit ds then None
      else if - (2 ^ 127) \<le> v \<and> v < 2 ^ 127 then Some v else None)"

definition integer :: "string \<Rightarrow> reply_error_kind + int" where
  "integer s =
     (if CHR ''.'' \<in> set s \<or> CHR ''e'' \<in> set s \<or> CHR ''E'' \<in> set s then Inl UnexpectedType
      else (case parse_i128 s of Some v \<Rightarrow> Inr v | None \<Rightarrow> Inl NumberOutOfRange))"

definition integer_i32 :: "string \<Rightarrow> reply_error_kind + int" where
  "integer_i32 s =
     (case integer s of Inl k \<Rightarrow> Inl k
      | Inr v \<Rightarrow> if - (2 ^ 31) \<le> v \<and> v < 2 ^ 31 then Inr v else Inl NumberOutOfRange)"

definition integer_u8 :: "string \<Rightarrow> reply_error_kind + 8 word" where
  "integer_u8 s =
     (case integer s of Inl k \<Rightarrow> Inl k
      | Inr v \<Rightarrow> if 0 \<le> v \<and> v < 256 then Inr (word_of_int v) else Inl NumberOutOfRange)"

definition integer_u64 :: "string \<Rightarrow> reply_error_kind + int" where
  "integer_u64 s =
     (case integer s of Inl k \<Rightarrow> Inl k
      | Inr v \<Rightarrow> if 0 \<le> v \<and> v < 2 ^ 64 then Inr v else Inl NumberOutOfRange)"

section \<open>The state machine\<close>

datatype dstate =
  DStart | Reply | ReplyErrorValue | ReplyParameters | Parameters | ParametersAddresses
| ParametersName | ParametersFlags | Addresses | Address | AddressIfindex | AddressFamily
| AddressOctetsStart | AddressOctets | Skip | Complete

record pending_address =
  pa_ifindex :: "int option"
  pa_family :: "int option"
  pa_octets :: "8 word list"
  pa_length :: nat
  pa_has_octets :: bool

definition EMPTY :: pending_address where
  "EMPTY = \<lparr>pa_ifindex = None, pa_family = None, pa_octets = replicate MAX_ADDRESS_BYTES 0,
            pa_length = 0, pa_has_octets = False\<rparr>"

record decoder =
  dc_state :: dstate
  dc_skip_depth :: nat
  dc_skip_resume :: dstate
  dc_depth :: nat
  dc_address :: pending_address
  dc_seen_error :: bool
  dc_seen_addresses :: bool

definition dc_new :: decoder where
  "dc_new = \<lparr>dc_state = DStart, dc_skip_depth = 0, dc_skip_resume = Reply, dc_depth = 0,
     dc_address = EMPTY, dc_seen_error = False, dc_seen_addresses = False\<rparr>"

definition dc_open :: "decoder \<Rightarrow> reply_error_kind option \<times> decoder" where
  "dc_open d =
     (let d = d\<lparr>dc_depth := dc_depth d + 1\<rparr> in
      (if dc_depth d > REPLY_MAX_DEPTH then Some ReplyDepthExceeded else None, d))"

definition dc_close :: "decoder \<Rightarrow> decoder" where
  "dc_close d = d\<lparr>dc_depth := dc_depth d - 1\<rparr>"

definition begin_skip :: "dstate \<Rightarrow> decoder \<Rightarrow> decoder" where
  "begin_skip resume d = d\<lparr>dc_skip_resume := resume, dc_skip_depth := 0, dc_state := Skip\<rparr>"

definition end_skipped_value :: "decoder \<Rightarrow> decoder" where
  "end_skipped_value d = (if dc_skip_depth d = 0 then d\<lparr>dc_state := dc_skip_resume d\<rparr> else d)"

definition close_skipped :: "decoder \<Rightarrow> decoder" where
  "close_skipped d = end_skipped_value (d\<lparr>dc_skip_depth := dc_skip_depth d - 1\<rparr>)"

definition discard_scalar :: "decoder \<Rightarrow> reply_error_kind option \<times> decoder" where
  "discard_scalar d =
     (if dc_state d = Skip then (None, end_skipped_value d) else (Some UnexpectedType, d))"

definition dc_object_start :: "decoder \<Rightarrow> reply_error_kind option \<times> decoder" where
  "dc_object_start d =
     (case dc_open d of
        (Some kind, d) \<Rightarrow> (Some kind, d)
      | (None, d) \<Rightarrow>
          (case dc_state d of
             DStart \<Rightarrow> (None, d\<lparr>dc_state := Reply\<rparr>)
           | ReplyParameters \<Rightarrow> (None, d\<lparr>dc_state := Parameters\<rparr>)
           | Addresses \<Rightarrow> (None, d\<lparr>dc_address := EMPTY, dc_state := Address\<rparr>)
           | Skip \<Rightarrow> (None, d\<lparr>dc_skip_depth := dc_skip_depth d + 1\<rparr>)
           | _ \<Rightarrow> (Some UnexpectedType, d)))"

definition dc_array_start :: "decoder \<Rightarrow> reply_error_kind option \<times> decoder" where
  "dc_array_start d =
     (case dc_open d of
        (Some kind, d) \<Rightarrow> (Some kind, d)
      | (None, d) \<Rightarrow>
          (case dc_state d of
             ParametersAddresses \<Rightarrow> (None, d\<lparr>dc_seen_addresses := True, dc_state := Addresses\<rparr>)
           | AddressOctetsStart \<Rightarrow>
               (None, d\<lparr>dc_address := (dc_address d)\<lparr>pa_octets := replicate MAX_ADDRESS_BYTES 0,
                          pa_length := 0, pa_has_octets := True\<rparr>,
                        dc_state := AddressOctets\<rparr>)
           | Skip \<Rightarrow> (None, d\<lparr>dc_skip_depth := dc_skip_depth d + 1\<rparr>)
           | _ \<Rightarrow> (Some UnexpectedType, d)))"

definition dc_array_end :: "decoder \<Rightarrow> reply_error_kind option \<times> decoder" where
  "dc_array_end d0 =
     (let d = dc_close d0 in
      case dc_state d of
        Addresses \<Rightarrow> (None, d\<lparr>dc_state := Parameters\<rparr>)
      | AddressOctets \<Rightarrow> (None, d\<lparr>dc_state := Address\<rparr>)
      | Skip \<Rightarrow> (None, close_skipped d)
      | _ \<Rightarrow> (Some UnexpectedType, d))"

definition push_octet :: "string \<Rightarrow> decoder \<Rightarrow> (reply_error_kind + unit) \<times> decoder" where
  "push_octet s d =
     (let a = dc_address d; len = pa_length a in
      if len \<ge> MAX_ADDRESS_BYTES then (Inl AddressTooLong, d)
      else (case integer_u8 s of
          Inl kind \<Rightarrow> (Inl kind, d)
        | Inr octet \<Rightarrow>
            (Inr (), d\<lparr>dc_address := a\<lparr>
               pa_octets := (if len < length (pa_octets a) then (pa_octets a)[len := octet] else pa_octets a),
               pa_length := min 255 (len + 1)\<rparr>\<rparr>)))"

definition dc_number :: "string \<Rightarrow> decoder \<Rightarrow> reply_error_kind option \<times> decoder" where
  "dc_number s d =
     (case dc_state d of
        AddressIfindex \<Rightarrow>
          (case integer_i32 s of
             Inr v \<Rightarrow> (None, d\<lparr>dc_address := (dc_address d)\<lparr>pa_ifindex := Some v\<rparr>, dc_state := Address\<rparr>)
           | Inl kind \<Rightarrow> (Some kind, d))
      | AddressFamily \<Rightarrow>
          (case integer_i32 s of
             Inr v \<Rightarrow> (None, d\<lparr>dc_address := (dc_address d)\<lparr>pa_family := Some v\<rparr>, dc_state := Address\<rparr>)
           | Inl kind \<Rightarrow> (Some kind, d))
      | AddressOctets \<Rightarrow>
          (case push_octet s d of (Inl kind, d) \<Rightarrow> (Some kind, d) | (Inr _, d) \<Rightarrow> (None, d))
      | Skip \<Rightarrow> (None, end_skipped_value d)
      | _ \<Rightarrow> (Some UnexpectedType, d))"

definition member :: "(string \<Rightarrow> bool) \<Rightarrow> decoder \<Rightarrow> reply_error_kind option \<times> decoder" where
  "member is d =
     (case dc_state d of
        Reply \<Rightarrow>
          (None, if is ''error'' then d\<lparr>dc_state := ReplyErrorValue\<rparr>
                 else if is ''parameters'' then d\<lparr>dc_state := ReplyParameters\<rparr>
                 else begin_skip Reply d)
      | Parameters \<Rightarrow>
          (None, if is ''addresses'' then d\<lparr>dc_state := ParametersAddresses\<rparr>
                 else if is ''name'' then d\<lparr>dc_state := ParametersName\<rparr>
                 else if is ''flags'' then d\<lparr>dc_state := ParametersFlags\<rparr>
                 else begin_skip Parameters d)
      | Address \<Rightarrow>
          (None, if is ''ifindex'' then d\<lparr>dc_state := AddressIfindex\<rparr>
                 else if is ''family'' then d\<lparr>dc_state := AddressFamily\<rparr>
                 else if is ''address'' then d\<lparr>dc_state := AddressOctetsStart\<rparr>
                 else begin_skip Address d)
      | Skip \<Rightarrow> (None, d)
      | _ \<Rightarrow> (Some UnexpectedType, d))"

definition take_address :: "decoder \<Rightarrow> reply_error_kind + resolved_address" where
  "take_address d =
     (case (pa_family (dc_address d), pa_has_octets (dc_address d)) of
        (Some family, True) \<Rightarrow>
          Inr \<lparr>ra_ifindex = (case pa_ifindex (dc_address d) of Some i \<Rightarrow> i | None \<Rightarrow> 0),
               ra_family = family, ra_octets = pa_octets (dc_address d),
               ra_length = pa_length (dc_address d)\<rparr>
      | _ \<Rightarrow> Inl MissingMember)"

section \<open>The bridge\<close>

type_synonym ('v, 'o) bridge_result = "(reply_error_kind + 'o) option \<times> decoder \<times> 'v"

definition machine :: "reply_error_kind option \<times> decoder \<Rightarrow> 'v \<Rightarrow> ('v, 'o) bridge_result" where
  "machine r v = (case r of (k, d) \<Rightarrow> (map_option Inl k, d, v))"

definition report :: "('v, 'o) reply_visitor \<Rightarrow> reply_item \<Rightarrow> decoder \<Rightarrow> 'v \<Rightarrow> ('v, 'o) bridge_result" where
  "report visitor item d v = (case visitor item v of (out, v') \<Rightarrow> (map_option Inr out, d, v'))"

definition bridge_object_end :: "('v, 'o) reply_visitor \<Rightarrow> decoder \<Rightarrow> 'v \<Rightarrow> ('v, 'o) bridge_result" where
  "bridge_object_end visitor d0 v =
     (let d = dc_close d0 in
      case dc_state d of
        Reply \<Rightarrow> (None, d\<lparr>dc_state := Complete\<rparr>, v)
      | Parameters \<Rightarrow> (None, d\<lparr>dc_state := Reply\<rparr>, v)
      | Address \<Rightarrow>
          (let d = d\<lparr>dc_state := Addresses\<rparr> in
           case take_address d of
             Inr a \<Rightarrow> report visitor (AddressItem a) d v
           | Inl kind \<Rightarrow> (Some (Inl kind), d, v))
      | Skip \<Rightarrow> (None, close_skipped d, v)
      | _ \<Rightarrow> (Some (Inl UnexpectedType), d, v))"

definition bridge_string :: "('v, 'o) reply_visitor \<Rightarrow> string \<Rightarrow> decoder \<Rightarrow> 'v \<Rightarrow> ('v, 'o) bridge_result" where
  "bridge_string visitor s d v =
     (case dc_state d of
        ReplyErrorValue \<Rightarrow> report visitor (ErrorItem s) (d\<lparr>dc_seen_error := True, dc_state := Reply\<rparr>) v
      | ParametersName \<Rightarrow> report visitor (NameItem s) (d\<lparr>dc_state := Parameters\<rparr>) v
      | Skip \<Rightarrow> (None, end_skipped_value d, v)
      | _ \<Rightarrow> (Some (Inl UnexpectedType), d, v))"

definition bridge_escape_string ::
    "('v, 'o) reply_visitor \<Rightarrow> escape_string \<Rightarrow> decoder \<Rightarrow> 'v \<Rightarrow> ('v, 'o) bridge_result" where
  "bridge_escape_string visitor s d v =
     (case dc_state d of
        ReplyErrorValue \<Rightarrow> (Some (Inl UnexpectedEscape), d, v)
      | ParametersName \<Rightarrow> report visitor (EscapeNameItem s) (d\<lparr>dc_state := Parameters\<rparr>) v
      | Skip \<Rightarrow> (None, end_skipped_value d, v)
      | _ \<Rightarrow> (Some (Inl UnexpectedType), d, v))"

definition bridge_number :: "('v, 'o) reply_visitor \<Rightarrow> string \<Rightarrow> decoder \<Rightarrow> 'v \<Rightarrow> ('v, 'o) bridge_result" where
  "bridge_number visitor s d v =
     (if dc_state d \<noteq> ParametersFlags then machine (dc_number s d) v
      else let d = d\<lparr>dc_state := Parameters\<rparr> in
           case integer_u64 s of
             Inr flags \<Rightarrow> report visitor (FlagsItem flags) d v
           | Inl kind \<Rightarrow> (Some (Inl kind), d, v))"

fun bridge :: "('v, 'o) reply_visitor \<Rightarrow> (decoder \<times> 'v, reply_error_kind + 'o) visitor" where
  "bridge visitor ObjectStart (d, v) = machine (dc_object_start d) v"
| "bridge visitor ObjectEnd (d, v) = bridge_object_end visitor d v"
| "bridge visitor ArrayStart (d, v) = machine (dc_array_start d) v"
| "bridge visitor ArrayEnd (d, v) = machine (dc_array_end d) v"
| "bridge visitor (Key name) (d, v) = machine (member (\<lambda>candidate. name = candidate) d) v"
| "bridge visitor (EscapeKey name) (d, v) = machine (member (\<lambda>candidate. eq_unescaped name candidate) d) v"
| "bridge visitor (StringTok s) (d, v) = bridge_string visitor s d v"
| "bridge visitor (EscapeStringTok s) (d, v) = bridge_escape_string visitor s d v"
| "bridge visitor (NumberTok s) (d, v) = bridge_number visitor s d v"
| "bridge visitor (BooleanTok _) (d, v) = machine (discard_scalar d) v"
| "bridge visitor NullTok (d, v) = machine (discard_scalar d) v"

section \<open>\<open>ResolveHostnameReply\<close>\<close>

record hostname_reply =
  rp_tokenizer :: tokenizer
  rp_decoder :: decoder
  rp_finished :: bool

definition reply_new :: "string \<Rightarrow> hostname_reply" where
  "reply_new json = \<lparr>rp_tokenizer = tk_new json, rp_decoder = dc_new, rp_finished = False\<rparr>"

definition reply_drive ::
    "('v, 'o) reply_visitor \<Rightarrow> hostname_reply \<Rightarrow> 'v \<Rightarrow> (reply_error + 'o option) \<times> hostname_reply \<times> 'v" where
  "reply_drive visitor r v =
     (if rp_finished r then (Inr None, r, v)
      else
        (case drive (bridge visitor) (rp_tokenizer r) (rp_decoder r, v) of
           (outcome, tk, d, v') \<Rightarrow>
             (let r' = r\<lparr>rp_tokenizer := tk, rp_decoder := d\<rparr> in
              case outcome of
                Inr (Some (Inr out)) \<Rightarrow> (Inr (Some out), r', v')
              | Inr (Some (Inl kind)) \<Rightarrow>
                  (Inl (RError kind (tk_offset tk)), r'\<lparr>rp_finished := True\<rparr>, v')
              | Inr None \<Rightarrow>
                  (if dc_seen_error d \<or> dc_seen_addresses d then Inr None
                   else Inl (RError MissingMember (tk_offset tk)),
                   r'\<lparr>rp_finished := True\<rparr>, v')
              | Inl e \<Rightarrow> (Inl (from_json e), r'\<lparr>rp_finished := True\<rparr>, v'))))"

end
