(* ===== verification/Varlink_Correct.thy ===== *)
theory Varlink_Correct
  imports Varlink_Reply
begin

text \<open>
  What the reply decoder computes. The reference decoder reads a parsed JSON value by
  recursion over the schema, with no tokens, no states and no counters; the state machine
  that the tokenizer drives reports the same items, in the same order, and rejects a reply
  for the same reason.
\<close>

section \<open>Feeding tokens to a visitor\<close>

fun visit_all :: "('v, 'o) visitor \<Rightarrow> token list \<Rightarrow> 'v \<Rightarrow> 'o option \<times> 'v" where
  "visit_all visitor [] v = (None, v)"
| "visit_all visitor (t # ts) v =
     (case visitor t v of (Some out, v') \<Rightarrow> (Some out, v') | (None, v') \<Rightarrow> visit_all visitor ts v')"

lemma visit_all_append:
  "visit_all visitor (xs @ ys) v =
     (case visit_all visitor xs v of (Some out, v') \<Rightarrow> (Some out, v') | (None, v') \<Rightarrow> visit_all visitor ys v')"
  by (induction xs arbitrary: v) (auto split: prod.splits option.splits)

lemma run_collect_extends: "\<exists>zs. snd (snd (run collect tk log)) = log @ zs"
proof (induction "length (tk_input tk) - tk_offset tk" arbitrary: tk log rule: less_induct)
  case less
  obtain b tk1 where sk: "skip_whitespace tk = (b, tk1)" by (cases "skip_whitespace tk")
  show ?case
  proof (cases b)
    case None
    with sk show ?thesis by (subst run.simps) simp
  next
    case (Some byte)
    obtain r tk2 where d: "dispatch byte tk1 = (r, tk2)" by (cases "dispatch byte tk1")
    show ?thesis
    proof (cases r)
      case (Inl e)
      with sk Some d show ?thesis by (subst run.simps) simp
    next
      case (Inr t)
      have "run collect tk log = run collect tk2 (log @ emitted t)"
        using sk Some d Inr by (intro run_collect_turn) (auto simp: turns_into_def)
      moreover have "length (tk_input tk2) - tk_offset tk2 < length (tk_input tk) - tk_offset tk"
        using turn_progress sk Some d Inr by blast
      ultimately show ?thesis using less.hyps [of tk2 "log @ emitted t"] by auto
    qed
  qed
qed

lemma run_visit_all:
  "run collect tk log = (Inr None, tkf, log @ ts) \<Longrightarrow>
   \<exists>tk'. run visitor tk v = (Inr (fst (visit_all visitor ts v)), tk', snd (visit_all visitor ts v))"
proof (induction "length (tk_input tk) - tk_offset tk" arbitrary: tk log ts v rule: less_induct)
  case less
  obtain b tk1 where sk: "skip_whitespace tk = (b, tk1)" by (cases "skip_whitespace tk")
  show ?case
  proof (cases b)
    case None
    with less.prems sk have "tk_state tk1 = Done" "ts = []"
      by (subst (asm) run.simps, auto split: tstate.splits)+
    with None sk show ?thesis by (subst run.simps) simp
  next
    case (Some byte)
    with less.prems sk obtain t tk2 where d: "dispatch byte tk1 = (Inr t, tk2)"
      by (subst (asm) run.simps) (auto split: prod.splits sum.splits)
    have run2: "run collect tk2 (log @ emitted t) = (Inr None, tkf, log @ ts)"
      using run_collect_turn [of tk "emitted t" tk2 log] less.prems sk Some d
      by (auto simp: turns_into_def)
    from run_collect_extends [of tk2 "log @ emitted t"] run2 obtain zs where zs: "ts = emitted t @ zs" by auto
    have less': "length (tk_input tk2) - tk_offset tk2 < length (tk_input tk) - tk_offset tk"
      using turn_progress [OF sk [unfolded Some] d] .
    have run3: "run collect tk2 (log @ emitted t) = (Inr None, tkf, (log @ emitted t) @ zs)"
      using run2 zs by simp
    show ?thesis
    proof (cases t)
      case None
      with less.hyps [OF less' run3, of v] zs sk Some d show ?thesis
        by (subst run.simps) simp
    next
      case (Some tok)
      obtain out v2 where v2: "visitor tok v = (out, v2)" by (cases "visitor tok v")
      from less.hyps [OF less' run3, of v2] zs sk \<open>b = Some byte\<close> d Some v2 show ?thesis
        by (subst run.simps) (cases out, auto)
    qed
  qed
qed

section \<open>The reference decoder\<close>

definition key_is :: "string \<Rightarrow> string \<Rightarrow> bool" where
  "key_is k c = (if CHR 0x5C \<in> set k then eq_unescaped (es_new k) c else k = c)"

text \<open>A member the schema does not name: only its nesting below the depth \<open>d\<close> counts.\<close>

definition ref_skip :: "nat \<Rightarrow> json \<Rightarrow> reply_error_kind option" where
  "ref_skip d j = (if d + nesting j \<le> REPLY_MAX_DEPTH then None else Some ReplyDepthExceeded)"

fun is_container :: "json \<Rightarrow> bool" where
  "is_container (JArr _) = True"
| "is_container (JObj _) = True"
| "is_container _ = False"

fun ref_octets :: "json list \<Rightarrow> 8 word list \<Rightarrow> reply_error_kind + 8 word list" where
  "ref_octets [] os = Inr os"
| "ref_octets (JNum n # vs) os =
     (if length os \<ge> MAX_ADDRESS_BYTES then Inl AddressTooLong
      else (case integer_u8 n of Inl k \<Rightarrow> Inl k | Inr octet \<Rightarrow> ref_octets vs (os @ [octet])))"
| "ref_octets (v # vs) os = Inl (if is_container v then ReplyDepthExceeded else UnexpectedType)"

type_synonym entry = "int option \<times> int option \<times> 8 word list option"

definition ref_i32 :: "json \<Rightarrow> reply_error_kind + int" where
  "ref_i32 v = (case v of JNum n \<Rightarrow> integer_i32 n | _ \<Rightarrow> Inl UnexpectedType)"

definition ref_octet_array :: "json \<Rightarrow> reply_error_kind + 8 word list" where
  "ref_octet_array v = (case v of JArr vs \<Rightarrow> ref_octets vs [] | _ \<Rightarrow> Inl UnexpectedType)"

fun ref_member :: "string \<Rightarrow> json \<Rightarrow> entry \<Rightarrow> reply_error_kind + entry" where
  "ref_member k v (i, f, os) =
     (if key_is k ''ifindex'' then map_sum id (\<lambda>n. (Some n, f, os)) (ref_i32 v)
      else if key_is k ''family'' then map_sum id (\<lambda>n. (i, Some n, os)) (ref_i32 v)
      else if key_is k ''address'' then map_sum id (\<lambda>bs. (i, f, Some bs)) (ref_octet_array v)
      else (case ref_skip 4 v of Some x \<Rightarrow> Inl x | None \<Rightarrow> Inr (i, f, os)))"

fun ref_entry :: "(string \<times> json) list \<Rightarrow> entry \<Rightarrow> reply_error_kind + entry" where
  "ref_entry [] e = Inr e"
| "ref_entry ((k, v) # ms) e =
     (case ref_member k v e of Inl x \<Rightarrow> Inl x | Inr e' \<Rightarrow> ref_entry ms e')"

definition ref_address :: "entry \<Rightarrow> reply_error_kind + resolved_address" where
  "ref_address e =
     (case e of
        (i, Some f, Some bs) \<Rightarrow>
          Inr \<lparr>ra_ifindex = (case i of Some n \<Rightarrow> n | None \<Rightarrow> 0), ra_family = f,
               ra_octets = bs @ replicate (MAX_ADDRESS_BYTES - length bs) 0, ra_length = length bs\<rparr>
      | _ \<Rightarrow> Inl MissingMember)"

type_synonym report = "reply_item list \<times> reply_error_kind option"

fun ref_sequence :: "('a \<Rightarrow> report) \<Rightarrow> 'a list \<Rightarrow> report" where
  "ref_sequence f [] = ([], None)"
| "ref_sequence f (x # xs) =
     (case f x of (items, Some k) \<Rightarrow> (items, Some k)
      | (items, None) \<Rightarrow> (case ref_sequence f xs of (items', r) \<Rightarrow> (items @ items', r)))"

definition ref_element :: "json \<Rightarrow> report" where
  "ref_element v =
     (case v of
        JObj ms \<Rightarrow>
          (case ref_entry ms (None, None, None) of Inl k \<Rightarrow> ([], Some k)
           | Inr e \<Rightarrow> (case ref_address e of Inl k \<Rightarrow> ([], Some k) | Inr a \<Rightarrow> ([AddressItem a], None)))
      | _ \<Rightarrow> ([], Some UnexpectedType))"

definition ref_parameter :: "string \<Rightarrow> json \<Rightarrow> report" where
  "ref_parameter k v =
     (if key_is k ''addresses'' then (case v of JArr vs \<Rightarrow> ref_sequence ref_element vs | _ \<Rightarrow> ([], Some UnexpectedType))
      else if key_is k ''name'' then
        (case v of JStr b \<Rightarrow> ([if CHR 0x5C \<in> set b then EscapeNameItem (es_new b) else NameItem b], None)
         | _ \<Rightarrow> ([], Some UnexpectedType))
      else if key_is k ''flags'' then
        (case v of JNum n \<Rightarrow> (case integer_u64 n of Inl x \<Rightarrow> ([], Some x) | Inr f \<Rightarrow> ([FlagsItem f], None))
         | _ \<Rightarrow> ([], Some UnexpectedType))
      else ([], ref_skip 2 v))"

definition ref_top :: "string \<Rightarrow> json \<Rightarrow> report" where
  "ref_top k v =
     (if key_is k ''error'' then
        (case v of JStr b \<Rightarrow> if CHR 0x5C \<in> set b then ([], Some UnexpectedEscape) else ([ErrorItem b], None)
         | _ \<Rightarrow> ([], Some UnexpectedType))
      else if key_is k ''parameters'' then
        (case v of JObj ms \<Rightarrow> ref_sequence (\<lambda>(k, v). ref_parameter k v) ms | _ \<Rightarrow> ([], Some UnexpectedType))
      else ([], ref_skip 1 v))"

text \<open>Whether the reply answers: it has an \<open>error\<close>, or \<open>addresses\<close> in its \<open>parameters\<close>.\<close>

definition has_error :: "(string \<times> json) list \<Rightarrow> bool" where
  "has_error ms \<longleftrightarrow> list_ex (\<lambda>(k, v). key_is k ''error'') ms"

definition has_addresses :: "(string \<times> json) list \<Rightarrow> bool" where
  "has_addresses ms \<longleftrightarrow>
     list_ex (\<lambda>(k, v). \<not> key_is k ''error'' \<and> key_is k ''parameters'' \<and>
        (case v of JObj ps \<Rightarrow> list_ex (\<lambda>(k, v). key_is k ''addresses'') ps | _ \<Rightarrow> False)) ms"

definition ref_reply :: "json \<Rightarrow> report" where
  "ref_reply j =
     (case j of
        JObj ms \<Rightarrow>
          (case ref_sequence (\<lambda>(k, v). ref_top k v) ms of
             (items, Some k) \<Rightarrow> (items, Some k)
           | (items, None) \<Rightarrow>
               (items, if has_error ms \<or> has_addresses ms then None else Some MissingMember))
      | _ \<Rightarrow> ([], Some UnexpectedType))"

section \<open>The state machine follows the reference\<close>

definition collect_items :: "(reply_item list, unit) reply_visitor" where
  "collect_items item log = (None, log @ [item])"

definition feed ::
    "token list \<Rightarrow> decoder \<Rightarrow> reply_item list \<Rightarrow> (reply_error_kind + unit) option \<times> decoder \<times> reply_item list" where
  "feed ts d log = visit_all (bridge collect_items) ts (d, log)"

text \<open>
  \<open>ends r log None P\<close>: the machine consumed its tokens, the items are \<open>log\<close> and the decoder
  satisfies \<open>P\<close>; \<open>ends r log (Some k) P\<close>: it rejected the reply with \<open>k\<close>.
\<close>

definition ends ::
    "(reply_error_kind + unit) option \<times> decoder \<times> reply_item list \<Rightarrow> reply_item list \<Rightarrow>
     reply_error_kind option \<Rightarrow> (decoder \<Rightarrow> bool) \<Rightarrow> bool" where
  "ends r log k P \<longleftrightarrow>
     (case k of None \<Rightarrow> \<exists>d. r = (None, d, log) \<and> P d | Some x \<Rightarrow> \<exists>d. r = (Some (Inl x), d, log))"

lemma feed_Nil [simp]: "feed [] d log = (None, d, log)"
  by (simp add: feed_def)

lemma feed_Cons:
  "feed (t # ts) d log =
     (case bridge collect_items t (d, log) of
        (Some out, r) \<Rightarrow> (Some out, r) | (None, d', log') \<Rightarrow> feed ts d' log')"
  by (simp add: feed_def split: prod.splits option.splits)

lemma ends_Nil [simp]: "ends (None, d, log) log None P \<longleftrightarrow> P d"
  by (simp add: ends_def)

lemma ends_Some [simp]: "ends (Some (Inl k), d, log) log (Some k) P"
  by (simp add: ends_def)

lemma ends_weaken: "ends r log (Some k) P \<Longrightarrow> ends r log (Some k) Q"
  by (simp add: ends_def)

lemma ends_append:
  assumes "ends (feed xs d log) log1 None P"
    and "\<And>d1. P d1 \<Longrightarrow> ends (feed ys d1 log1) log2 k Q"
  shows "ends (feed (xs @ ys) d log) log2 k Q"
  using assms by (auto simp: ends_def feed_def visit_all_append split: option.splits)

lemma ends_append_error:
  "ends (feed xs d log) log1 (Some k) P \<Longrightarrow> ends (feed (xs @ ys) d log) log1 (Some k) Q"
  by (auto simp: ends_def feed_def visit_all_append)

lemma ends_mono: "ends r log k P \<Longrightarrow> (\<And>d. P d \<Longrightarrow> Q d) \<Longrightarrow> ends r log k Q"
  by (auto simp: ends_def split: option.splits)

subsection \<open>Skipping\<close>

lemma end_skipped_inner: "dc_skip_depth d \<noteq> 0 \<Longrightarrow> end_skipped_value d = d"
  by (simp add: end_skipped_value_def)

definition skips :: "json \<Rightarrow> bool" where
  "skips j \<longleftrightarrow> (\<forall>d log. dc_state d = Skip \<longrightarrow> dc_depth d \<le> REPLY_MAX_DEPTH \<longrightarrow>
     ends (feed (tokens_of j) d log) log (ref_skip (dc_depth d) j) (\<lambda>d'. d' = end_skipped_value d))"

lemma skips_elements:
  assumes "\<forall>x\<in>set xs. skips (f x) \<and> (\<exists>pre. toks x = pre @ tokens_of (f x) \<and>
      (\<forall>d log. dc_state d = Skip \<longrightarrow> feed pre d log = (None, d, log)))"
    and "dc_state d = Skip" "dc_skip_depth d \<noteq> 0" "dc_depth d \<le> REPLY_MAX_DEPTH"
  shows "ends (feed (concat (map toks xs)) d log) log
    (if dc_depth d + foldr (\<lambda>x n. max (nesting (f x)) n) xs 0 \<le> REPLY_MAX_DEPTH then None
     else Some ReplyDepthExceeded) (\<lambda>d'. d' = d)"
  using assms(1)
proof (induction xs)
  case Nil
  then show ?case using assms(4) by simp
next
  case (Cons x xs)
  then obtain pre where pre: "toks x = pre @ tokens_of (f x)"
    "\<And>d log. dc_state d = Skip \<Longrightarrow> feed pre d log = (None, d, log)" and sk: "skips (f x)" by auto
  have val: "ends (feed (tokens_of (f x)) d log) log (ref_skip (dc_depth d) (f x)) (\<lambda>d'. d' = d)"
    using sk assms(2-4) end_skipped_inner [of d] unfolding skips_def by fastforce
  have x: "ends (feed (toks x) d log) log (ref_skip (dc_depth d) (f x)) (\<lambda>d'. d' = d)"
    using val pre(2) [OF assms(2), of log] unfolding pre(1)
    by (auto simp: feed_def visit_all_append)
  show ?case
  proof (cases "dc_depth d + nesting (f x) \<le> REPLY_MAX_DEPTH")
    case True
    then have "ends (feed (toks x) d log) log None (\<lambda>d'. d' = d)" using x by (simp add: ref_skip_def)
    from ends_append [OF this, of "concat (map toks xs)"] Cons True show ?thesis
      by (auto split: if_splits)
  next
    case False
    then have "ends (feed (toks x) d log) log (Some ReplyDepthExceeded) (\<lambda>d'. d' = d)"
      using x by (simp add: ref_skip_def)
    from ends_append_error [OF this, of "concat (map toks xs)" "\<lambda>d'. d' = d"] False show ?thesis
      by (auto split: if_splits)
  qed
qed

lemma bridge_key_token: "bridge visitor (key_token k) (d, v) = machine (member (key_is k) d) v"
proof -
  have "key_is k = (if CHR 0x5C \<in> set k then eq_unescaped (es_new k) else (=) k)"
    by (rule ext) (simp add: key_is_def)
  then show ?thesis by (simp add: key_token_def)
qed

lemma skips_container:
  assumes inner: "\<And>d log. dc_state d = Skip \<Longrightarrow> dc_skip_depth d \<noteq> 0 \<Longrightarrow> dc_depth d \<le> REPLY_MAX_DEPTH \<Longrightarrow>
      ends (feed ts d log) log
        (if dc_depth d + n \<le> REPLY_MAX_DEPTH then None else Some ReplyDepthExceeded) (\<lambda>d'. d' = d)"
    and toks: "tokens_of j = a # ts @ [z]" and n: "nesting j = Suc n"
    and ends: "(a, z) = (ArrayStart, ArrayEnd) \<or> (a, z) = (ObjectStart, ObjectEnd)"
  shows "skips j"
proof -
  { fix d :: decoder and log :: "reply_item list"
    assume d: "dc_state d = Skip" "dc_depth d \<le> REPLY_MAX_DEPTH"
    let ?d = "d\<lparr>dc_depth := dc_depth d + 1, dc_skip_depth := dc_skip_depth d + 1\<rparr>"
    have first: "bridge collect_items a (d, log) =
        (if dc_depth d + 1 \<le> REPLY_MAX_DEPTH then (None, ?d, log)
         else (Some (Inl ReplyDepthExceeded), d\<lparr>dc_depth := dc_depth d + 1\<rparr>, log))"
      using ends d by (auto simp: machine_def dc_array_start_def dc_object_start_def dc_open_def Let_def)
    have last: "bridge collect_items z (?d, log) = (None, end_skipped_value d, log)"
      using ends d by (auto simp: machine_def dc_array_end_def bridge_object_end_def dc_close_def
          close_skipped_def end_skipped_value_def)
    have "ends (feed (tokens_of j) d log) log (ref_skip (dc_depth d) j) (\<lambda>d'. d' = end_skipped_value d)"
    proof (cases "dc_depth d + 1 \<le> REPLY_MAX_DEPTH")
      case False
      then show ?thesis using first n toks by (simp add: feed_Cons ref_skip_def ends_def)
    next
      case True
      have i: "ends (feed ts ?d log) log
          (if dc_depth d + Suc n \<le> REPLY_MAX_DEPTH then None else Some ReplyDepthExceeded) (\<lambda>d'. d' = ?d)"
        using inner [of ?d log] d True by simp
      have "ends (feed (ts @ [z]) ?d log) log (ref_skip (dc_depth d) j) (\<lambda>d'. d' = end_skipped_value d)"
      proof (cases "dc_depth d + Suc n \<le> REPLY_MAX_DEPTH")
        case True
        with i have "ends (feed ts ?d log) log None (\<lambda>d'. d' = ?d)" by simp
        from ends_append [OF this, of "[z]" log None] show ?thesis
          using True n last by (simp add: ref_skip_def feed_Cons)
      next
        case False
        with i have "ends (feed ts ?d log) log (Some ReplyDepthExceeded) (\<lambda>d'. d' = ?d)" by simp
        from ends_append_error [OF this, of "[z]"] show ?thesis
          using False n by (simp add: ref_skip_def)
      qed
      then show ?thesis using first True toks by (simp add: feed_Cons)
    qed }
  then show ?thesis unfolding skips_def by blast
qed

lemma skips_all: "skips j"
proof (induction j)
  case (JArr vs)
  show ?case
  proof (rule skips_container)
    fix d :: decoder and log
    assume "dc_state d = Skip" "dc_skip_depth d \<noteq> 0" "dc_depth d \<le> REPLY_MAX_DEPTH"
    then show "ends (feed (concat (map tokens_of vs)) d log) log
        (if dc_depth d + foldr (\<lambda>v n. max (nesting v) n) vs 0 \<le> REPLY_MAX_DEPTH then None
         else Some ReplyDepthExceeded) (\<lambda>d'. d' = d)"
      using JArr by (intro skips_elements [where f = "\<lambda>x. x"]) auto
  qed auto
next
  case (JObj ms)
  show ?case
  proof (rule skips_container)
    fix d :: decoder and log
    assume "dc_state d = Skip" "dc_skip_depth d \<noteq> 0" "dc_depth d \<le> REPLY_MAX_DEPTH"
    moreover have "\<forall>x\<in>set ms. skips (snd x) \<and>
        (\<exists>pre. (case x of (k, v) \<Rightarrow> key_token k # tokens_of v) = pre @ tokens_of (snd x) \<and>
          (\<forall>d log. dc_state d = Skip \<longrightarrow> feed pre d log = (None, d, log)))"
    proof
      fix x assume x: "x \<in> set ms"
      obtain k v where kv: "x = (k, v)" by (cases x)
      have "feed [key_token k] d log = (None, d, log)" if "dc_state d = Skip" for d log
        using that by (simp add: feed_Cons bridge_key_token member_def machine_def)
      moreover have "skips v" using JObj [OF x] kv by (cases x) (auto simp: snds.simps)
      ultimately show "skips (snd x) \<and>
        (\<exists>pre. (case x of (k, v) \<Rightarrow> key_token k # tokens_of v) = pre @ tokens_of (snd x) \<and>
          (\<forall>d log. dc_state d = Skip \<longrightarrow> feed pre d log = (None, d, log)))"
        using kv by (intro conjI exI [of _ "[key_token k]"]) auto
    qed
    ultimately show "ends (feed (concat (map (\<lambda>(k, v). key_token k # tokens_of v) ms)) d log) log
        (if dc_depth d + foldr (\<lambda>kv n. max (nesting (snd kv)) n) ms 0 \<le> REPLY_MAX_DEPTH then None
         else Some ReplyDepthExceeded) (\<lambda>d'. d' = d)"
      by (intro skips_elements)
  qed auto
qed (auto simp: skips_def feed_Cons ends_def ref_skip_def machine_def discard_scalar_def
      bridge_number_def dc_number_def string_token_def bridge_string_def bridge_escape_string_def)

lemma skip_member:
  assumes "dc_depth d \<le> REPLY_MAX_DEPTH"
  shows "ends (feed (tokens_of j) (begin_skip st d) log) log (ref_skip (dc_depth d) j)
    (\<lambda>d'. d' = d\<lparr>dc_skip_resume := st, dc_skip_depth := 0, dc_state := st\<rparr>)"
  using skips_all [of j] assms unfolding skips_def
  by (auto simp: begin_skip_def end_skipped_value_def dest!: spec [of _ "begin_skip st d"])

subsection \<open>Addresses\<close>

definition failure :: "'e + 'a \<Rightarrow> 'e option" where
  "failure r = (case r of Inl k \<Rightarrow> Some k | Inr _ \<Rightarrow> None)"

lemma failure_simps [simp]: "failure (Inl k) = Some k" "failure (Inr x) = None"
  by (simp_all add: failure_def)

definition padded :: "8 word list \<Rightarrow> 8 word list" where
  "padded os = os @ replicate (MAX_ADDRESS_BYTES - length os) 0"

definition set_octets :: "8 word list \<Rightarrow> decoder \<Rightarrow> decoder" where
  "set_octets os d = d\<lparr>dc_address := (dc_address d)\<lparr>pa_octets := padded os, pa_length := length os\<rparr>\<rparr>"

lemma set_octets_simps [simp]:
  "dc_state (set_octets os d) = dc_state d" "dc_depth (set_octets os d) = dc_depth d"
  by (simp_all add: set_octets_def)

lemma push_octet_set_octets:
  "push_octet n (set_octets os d) =
     (if length os \<ge> MAX_ADDRESS_BYTES then (Inl AddressTooLong, set_octets os d)
      else case integer_u8 n of Inl k \<Rightarrow> (Inl k, set_octets os d)
           | Inr octet \<Rightarrow> (Inr (), set_octets (os @ [octet]) d))"
proof -
  have "(padded os)[length os := octet] = padded (os @ [octet])" if "length os < MAX_ADDRESS_BYTES" for octet
  proof -
    have "MAX_ADDRESS_BYTES - length os = Suc (MAX_ADDRESS_BYTES - length (os @ [octet]))"
      using that by simp
    then show ?thesis by (simp add: padded_def list_update_append)
  qed
  then show ?thesis
    by (auto simp: push_octet_def set_octets_def Let_def padded_def MAX_ADDRESS_BYTES_def split: sum.splits)
qed

lemma feed_error: "bridge collect_items t (d, log) = (Some (Inl k), d', log) \<Longrightarrow>
    ends (feed (t # ts) d log) log (Some k) P"
  by (simp add: feed_Cons ends_def)

lemmas bridge_simps = machine_def report_def collect_items_def dc_object_start_def dc_array_start_def
  dc_array_end_def dc_open_def dc_close_def dc_number_def discard_scalar_def bridge_object_end_def
  bridge_number_def bridge_string_def bridge_escape_string_def Let_def

lemma octets_follow:
  assumes "dc_state d = AddressOctets" "dc_depth d = REPLY_MAX_DEPTH" "length os \<le> MAX_ADDRESS_BYTES"
  shows "ends (feed (concat (map tokens_of vs)) (set_octets os d) log) log (failure (ref_octets vs os))
    (\<lambda>d'. \<exists>bs. ref_octets vs os = Inr bs \<and> length bs \<le> MAX_ADDRESS_BYTES \<and> d' = set_octets bs d)"
  using assms(3)
proof (induction vs os rule: ref_octets.induct)
  case (1 os)
  then show ?case by simp
next
  case (2 n vs os)
  show ?case
  proof (cases "integer_u8 n")
    case (Inl k)
    then show ?thesis using assms(1)
      by (auto intro!: feed_error simp: bridge_simps push_octet_set_octets)
  next
    case (Inr octet)
    then show ?thesis using 2 assms(1)
      by (cases "MAX_ADDRESS_BYTES \<le> length os")
        (simp_all add: feed_Cons bridge_simps push_octet_set_octets)
  qed
qed (insert assms, auto intro!: feed_error simp: bridge_simps string_token_def)

definition entry_is :: "entry \<Rightarrow> decoder \<Rightarrow> bool" where
  "entry_is e d \<longleftrightarrow>
     (case e of (i, f, os) \<Rightarrow>
        pa_ifindex (dc_address d) = i \<and> pa_family (dc_address d) = f \<and>
        pa_has_octets (dc_address d) = (os \<noteq> None) \<and>
        (\<forall>bs. os = Some bs \<longrightarrow> length bs \<le> MAX_ADDRESS_BYTES \<and>
           pa_octets (dc_address d) = padded bs \<and> pa_length (dc_address d) = length bs))"

text \<open>Where the machine stands: its state, its depth and whether the reply answered.\<close>

definition stands :: "dstate \<Rightarrow> nat \<Rightarrow> bool \<times> bool \<Rightarrow> decoder \<Rightarrow> bool" where
  "stands st n seen d \<longleftrightarrow>
     dc_state d = st \<and> dc_depth d = n \<and> (dc_seen_error d, dc_seen_addresses d) = seen"

lemma octet_array_follow:
  assumes "stands AddressOctetsStart 4 seen d" "entry_is (i, f, os) d"
  shows "ends (feed (tokens_of v) d log) log (failure (ref_octet_array v))
    (\<lambda>d'. \<exists>bs. ref_octet_array v = Inr bs \<and> stands Address 4 seen d' \<and> entry_is (i, f, Some bs) d')"
proof (cases "\<exists>vs. v = JArr vs")
  case True
  then obtain vs where v: "v = JArr vs" by blast
  let ?d = "d\<lparr>dc_depth := 5, dc_state := AddressOctets,
      dc_address := (dc_address d)\<lparr>pa_has_octets := True\<rparr>\<rparr>"
  have start: "bridge collect_items ArrayStart (d, log) = (None, set_octets [] ?d, log)"
    using assms by (simp add: bridge_simps stands_def REPLY_MAX_DEPTH_def set_octets_def padded_def)
  have body: "ends (feed (concat (map tokens_of vs)) (set_octets [] ?d) log) log (failure (ref_octets vs []))
      (\<lambda>d'. \<exists>bs. ref_octets vs [] = Inr bs \<and> length bs \<le> MAX_ADDRESS_BYTES \<and> d' = set_octets bs ?d)"
    by (rule octets_follow) (simp_all add: REPLY_MAX_DEPTH_def)
  have "ends (feed (concat (map tokens_of vs) @ [ArrayEnd]) (set_octets [] ?d) log) log
      (failure (ref_octets vs []))
      (\<lambda>d'. \<exists>bs. ref_octets vs [] = Inr bs \<and> stands Address 4 seen d' \<and> entry_is (i, f, Some bs) d')"
  proof (cases "ref_octets vs []")
    case (Inl k)
    with body show ?thesis by (auto intro: ends_append_error)
  next
    case (Inr bs)
    with body have "ends (feed (concat (map tokens_of vs)) (set_octets [] ?d) log) log None
        (\<lambda>d'. length bs \<le> MAX_ADDRESS_BYTES \<and> d' = set_octets bs ?d)" by simp
    from ends_append [OF this, of "[ArrayEnd]" log None] Inr assms show ?thesis
      by (simp add: feed_Cons bridge_simps stands_def entry_is_def set_octets_def)
  qed
  then show ?thesis using start v by (simp add: feed_Cons ref_octet_array_def)
next
  case False
  then show ?thesis using assms
    by (cases v) (auto intro!: feed_error simp: bridge_simps string_token_def stands_def
        ref_octet_array_def REPLY_MAX_DEPTH_def)
qed

abbreviation member_tokens :: "(string \<times> json) list \<Rightarrow> token list" where
  "member_tokens ms \<equiv> concat (map (\<lambda>(k, v). key_token k # tokens_of v) ms)"

lemma feed_key:
  "member (key_is k) d = (None, d1) \<Longrightarrow> feed (key_token k # ts) d log = feed ts d1 log"
  by (simp add: feed_Cons bridge_key_token machine_def)

lemma i32_follow:
  assumes "stands st 4 seen d" "entry_is (i, f, os) d" "st = AddressIfindex \<or> st = AddressFamily"
  shows "ends (feed (tokens_of v) d log) log (failure (ref_i32 v))
    (\<lambda>d'. \<exists>n. ref_i32 v = Inr n \<and> stands Address 4 seen d' \<and>
       entry_is (if st = AddressIfindex then (Some n, f, os) else (i, Some n, os)) d')"
proof (cases "\<exists>n. v = JNum n")
  case True
  then obtain n where "v = JNum n" by blast
  with assms show ?thesis
    by (cases "integer_i32 n")
      (auto intro!: feed_error simp: feed_Cons bridge_simps stands_def ref_i32_def entry_is_def)
next
  case False
  then show ?thesis using assms
    by (cases v) (auto intro!: feed_error simp: bridge_simps string_token_def stands_def
        ref_i32_def REPLY_MAX_DEPTH_def)
qed

lemma entry_member_follow:
  assumes "stands Address 4 seen d" "entry_is e d"
  shows "ends (feed (key_token k # tokens_of v) d log) log (failure (ref_member k v e))
    (\<lambda>d'. \<exists>e'. ref_member k v e = Inr e' \<and> stands Address 4 seen d' \<and> entry_is e' d')"
proof -
  obtain i f os where e: "e = (i, f, os)" by (cases e)
  have go: "stands st 4 seen (d\<lparr>dc_state := st\<rparr>)" "entry_is (i, f, os) (d\<lparr>dc_state := st\<rparr>)" for st
    using assms e by (simp_all add: stands_def entry_is_def)
  consider "key_is k ''ifindex''" | "\<not> key_is k ''ifindex''" "key_is k ''family''"
    | "\<not> key_is k ''ifindex''" "\<not> key_is k ''family''" "key_is k ''address''"
    | "\<not> key_is k ''ifindex''" "\<not> key_is k ''family''" "\<not> key_is k ''address''" by blast
  then show ?thesis
  proof cases
    case 1
    then have "member (key_is k) d = (None, d\<lparr>dc_state := AddressIfindex\<rparr>)"
      using assms by (simp add: member_def stands_def)
    then show ?thesis using 1 e i32_follow [OF go [of AddressIfindex], of v log]
      by (cases "ref_i32 v") (simp_all add: feed_key)
  next
    case 2
    then have "member (key_is k) d = (None, d\<lparr>dc_state := AddressFamily\<rparr>)"
      using assms by (simp add: member_def stands_def)
    then show ?thesis using 2 e i32_follow [OF go [of AddressFamily], of v log]
      by (cases "ref_i32 v") (simp_all add: feed_key)
  next
    case 3
    then have "member (key_is k) d = (None, d\<lparr>dc_state := AddressOctetsStart\<rparr>)"
      using assms by (simp add: member_def stands_def)
    then show ?thesis using 3 e octet_array_follow [OF go [of AddressOctetsStart], of v log]
      by (cases "ref_octet_array v") (simp_all add: feed_key)
  next
    case 4
    then have "member (key_is k) d = (None, begin_skip Address d)"
      using assms by (simp add: member_def stands_def)
    moreover have "dc_depth d = 4" using assms by (simp add: stands_def)
    moreover have "ends (feed (tokens_of v) (begin_skip Address d) log) log (ref_skip 4 v)
        (\<lambda>d'. stands Address 4 seen d' \<and> entry_is e d')"
      using skip_member [of d v Address log] \<open>dc_depth d = 4\<close> assms
      by (auto simp: REPLY_MAX_DEPTH_def stands_def entry_is_def elim!: ends_mono)
    ultimately show ?thesis using 4 e
      by (cases "ref_skip 4 v") (simp_all add: feed_key ends_weaken)
  qed
qed

lemma entry_follow:
  assumes "stands Address 4 seen d" "entry_is e d"
  shows "ends (feed (member_tokens ms) d log) log (failure (ref_entry ms e))
    (\<lambda>d'. \<exists>e'. ref_entry ms e = Inr e' \<and> stands Address 4 seen d' \<and> entry_is e' d')"
  using assms
proof (induction ms e arbitrary: d rule: ref_entry.induct)
  case (1 e)
  then show ?case by auto
next
  case (2 k v ms e)
  note head = entry_member_follow [OF 2(2,3), of k v log]
  show ?case
  proof (cases "ref_member k v e")
    case (Inl x)
    with head show ?thesis by (auto dest: ends_append_error)
  next
    case (Inr e')
    with head have "ends (feed (key_token k # tokens_of v) d log) log None
        (\<lambda>d'. stands Address 4 seen d' \<and> entry_is e' d')" by simp
    from ends_append [OF this] 2(1) [OF Inr] Inr show ?thesis by simp
  qed
qed

lemma address_item:
  "entry_is e d \<Longrightarrow> take_address (d\<lparr>dc_depth := n, dc_state := st\<rparr>) = ref_address e"
  by (auto simp: take_address_def ref_address_def entry_is_def padded_def split: option.splits prod.splits bool.splits)

lemma address_element_follow:
  assumes "stands Addresses 3 seen d"
  shows "ends (feed (tokens_of v) d log) (log @ fst (ref_element v)) (snd (ref_element v))
    (stands Addresses 3 seen)"
proof (cases "\<exists>ms. v = JObj ms")
  case False
  then show ?thesis using assms
    by (cases v) (auto intro!: feed_error simp: bridge_simps string_token_def stands_def
        ref_element_def REPLY_MAX_DEPTH_def)
next
  case True
  then obtain ms where v: "v = JObj ms" by blast
  let ?d = "d\<lparr>dc_depth := 4, dc_address := EMPTY, dc_state := Address\<rparr>"
  have start: "bridge collect_items ObjectStart (d, log) = (None, ?d, log)"
    using assms by (simp add: bridge_simps stands_def REPLY_MAX_DEPTH_def)
  have body: "ends (feed (member_tokens ms) ?d log) log (failure (ref_entry ms (None, None, None)))
      (\<lambda>d'. \<exists>e'. ref_entry ms (None, None, None) = Inr e' \<and> stands Address 4 seen d' \<and> entry_is e' d')"
    using assms by (intro entry_follow) (simp_all add: stands_def entry_is_def EMPTY_def)
  show ?thesis
  proof (cases "ref_entry ms (None, None, None)")
    case (Inl k)
    with body start v show ?thesis by (auto simp: feed_Cons ref_element_def intro: ends_append_error)
  next
    case (Inr e)
    with body have "ends (feed (member_tokens ms) ?d log) log None
        (\<lambda>d'. stands Address 4 seen d' \<and> entry_is e d')" by simp
    then have "ends (feed (member_tokens ms @ [ObjectEnd]) ?d log)
        (log @ (case ref_address e of Inl _ \<Rightarrow> [] | Inr a \<Rightarrow> [AddressItem a])) (failure (ref_address e))
        (stands Addresses 3 seen)"
      by (rule ends_append)
        (cases "ref_address e"; auto simp: feed_Cons bridge_simps stands_def address_item)
    then show ?thesis using Inr start v
      by (cases "ref_address e") (simp_all add: feed_Cons ref_element_def)
  qed
qed

subsection \<open>Parameters and the reply\<close>

lemma sequence_follow:
  assumes "\<And>x d log seen. x \<in> set xs \<Longrightarrow> stands st n seen d \<Longrightarrow>
      ends (feed (toks x) d log) (log @ fst (f x)) (snd (f x)) (stands st n (upd x seen))"
    and "stands st n seen d"
  shows "ends (feed (concat (map toks xs)) d log) (log @ fst (ref_sequence f xs)) (snd (ref_sequence f xs))
    (stands st n (fold upd xs seen))"
  using assms
proof (induction xs arbitrary: d log seen)
  case Nil
  then show ?case by simp
next
  case (Cons x xs)
  obtain items r where x: "f x = (items, r)" by (cases "f x")
  note head = Cons(2) [of x seen d log]
  show ?case
  proof (cases r)
    case None
    with head Cons(3) x have "ends (feed (toks x) d log) (log @ items) None (stands st n (upd x seen))"
      by simp
    then have "ends (feed (toks x @ concat (map toks xs)) d log)
        ((log @ items) @ fst (ref_sequence f xs)) (snd (ref_sequence f xs))
        (stands st n (fold upd xs (upd x seen)))"
      by (rule ends_append) (rule Cons.IH, simp add: Cons(2), assumption)
    with None x show ?thesis by (cases "ref_sequence f xs") simp
  next
    case (Some k)
    with head Cons(3) x show ?thesis by (auto dest: ends_append_error)
  qed
qed

lemma addresses_follow:
  assumes "stands ParametersAddresses 2 (e, a) d"
  shows "ends (feed (tokens_of (JArr vs)) d log) (log @ fst (ref_sequence ref_element vs))
    (snd (ref_sequence ref_element vs)) (stands Parameters 2 (e, True))"
proof -
  let ?d = "d\<lparr>dc_depth := 3, dc_seen_addresses := True, dc_state := Addresses\<rparr>"
  have start: "bridge collect_items ArrayStart (d, log) = (None, ?d, log)"
    using assms by (simp add: bridge_simps stands_def REPLY_MAX_DEPTH_def)
  have body: "ends (feed (concat (map tokens_of vs)) ?d log) (log @ fst (ref_sequence ref_element vs))
      (snd (ref_sequence ref_element vs)) (stands Addresses 3 (fold (\<lambda>_ s. s) vs (e, True)))"
    using assms by (intro sequence_follow address_element_follow) (simp_all add: stands_def)
  have id: "fold (\<lambda>_ s. s) vs s = s" for s :: "bool \<times> bool" by (induction vs) auto
  show ?thesis
  proof (cases "snd (ref_sequence ref_element vs)")
    case None
    with body id have "ends (feed (concat (map tokens_of vs)) ?d log) (log @ fst (ref_sequence ref_element vs))
      None (stands Addresses 3 (e, True))" by simp
    then have "ends (feed (concat (map tokens_of vs) @ [ArrayEnd]) ?d log)
       (log @ fst (ref_sequence ref_element vs)) None (stands Parameters 2 (e, True))"
      by (rule ends_append) (simp add: feed_Cons bridge_simps stands_def)
    with start None show ?thesis by (simp add: feed_Cons)
  next
    case (Some k)
    with body start show ?thesis by (auto simp: feed_Cons intro: ends_append_error)
  qed
qed

definition saw_parameter :: "string \<times> json \<Rightarrow> bool \<times> bool \<Rightarrow> bool \<times> bool" where
  "saw_parameter m s = (case (m, s) of ((k, v), e, a) \<Rightarrow> (e, a \<or> key_is k ''addresses''))"

lemma skip_follow:
  assumes "stands st n seen d" "n \<le> REPLY_MAX_DEPTH"
  shows "ends (feed (tokens_of v) (begin_skip st d) log) log (ref_skip n v) (stands st n seen)"
  using skip_member [of d v st log] assms by (auto simp: stands_def elim!: ends_mono)

lemma parameter_follow:
  assumes "stands Parameters 2 seen d"
  shows "ends (feed (key_token k # tokens_of v) d log) (log @ fst (ref_parameter k v))
    (snd (ref_parameter k v)) (stands Parameters 2 (saw_parameter (k, v) seen))"
proof -
  obtain e a where seen: "seen = (e, a)" by (cases seen)
  have go: "stands st 2 (e, a) (d\<lparr>dc_state := st\<rparr>)" for st using assms seen by (simp add: stands_def)
  consider "key_is k ''addresses''" | "\<not> key_is k ''addresses''" "key_is k ''name''"
    | "\<not> key_is k ''addresses''" "\<not> key_is k ''name''" "key_is k ''flags''"
    | "\<not> key_is k ''addresses''" "\<not> key_is k ''name''" "\<not> key_is k ''flags''" by blast
  then show ?thesis
  proof cases
    case 1
    then have key: "member (key_is k) d = (None, d\<lparr>dc_state := ParametersAddresses\<rparr>)"
      using assms by (simp add: member_def stands_def)
    show ?thesis
    proof (cases "\<exists>vs. v = JArr vs")
      case True
      with 1 key seen addresses_follow [OF go] show ?thesis
        by (auto simp: feed_key ref_parameter_def saw_parameter_def)
    next
      case False
      with 1 key seen assms show ?thesis
        by (cases v) (auto intro!: feed_error simp: feed_key bridge_simps string_token_def stands_def
            ref_parameter_def REPLY_MAX_DEPTH_def)
    qed
  next
    case 2
    then have key: "member (key_is k) d = (None, d\<lparr>dc_state := ParametersName\<rparr>)"
      using assms by (simp add: member_def stands_def)
    with 2 seen assms show ?thesis
      by (cases v) (auto simp: feed_Cons bridge_key_token bridge_simps string_token_def stands_def
            ref_parameter_def saw_parameter_def REPLY_MAX_DEPTH_def)
  next
    case 3
    then have key: "member (key_is k) d = (None, d\<lparr>dc_state := ParametersFlags\<rparr>)"
      using assms by (simp add: member_def stands_def)
    show ?thesis
    proof (cases "\<exists>n. v = JNum n")
      case True
      then obtain n where "v = JNum n" by blast
      with 3 key seen assms show ?thesis
        by (cases "integer_u64 n") (auto simp: feed_Cons bridge_key_token bridge_simps stands_def
            ref_parameter_def saw_parameter_def)
    next
      case False
      with 3 key seen assms show ?thesis
        by (cases v) (auto simp: feed_Cons bridge_key_token bridge_simps string_token_def stands_def
            ref_parameter_def REPLY_MAX_DEPTH_def)
    qed
  next
    case 4
    then have "member (key_is k) d = (None, begin_skip Parameters d)"
      using assms by (simp add: member_def stands_def)
    then show ?thesis using 4 seen skip_follow [OF assms, of v log]
      by (simp add: feed_key ref_parameter_def saw_parameter_def REPLY_MAX_DEPTH_def)
  qed
qed

lemma fold_saw_parameter:
  "fold saw_parameter ms (e, a) = (e, a \<or> list_ex (\<lambda>(k, v). key_is k ''addresses'') ms)"
  by (induction ms arbitrary: a) (auto simp: saw_parameter_def)

abbreviation ref_parameters :: "(string \<times> json) list \<Rightarrow> report" where
  "ref_parameters \<equiv> ref_sequence (\<lambda>(k, v). ref_parameter k v)"

lemma parameters_follow:
  assumes "stands ReplyParameters 1 (e, a) d"
  shows "ends (feed (tokens_of (JObj ms)) d log) (log @ fst (ref_parameters ms)) (snd (ref_parameters ms))
    (stands Reply 1 (e, a \<or> list_ex (\<lambda>(k, v). key_is k ''addresses'') ms))"
proof -
  let ?d = "d\<lparr>dc_depth := 2, dc_state := Parameters\<rparr>"
  let ?seen = "(e, a \<or> list_ex (\<lambda>(k, v). key_is k ''addresses'') ms)"
  have start: "bridge collect_items ObjectStart (d, log) = (None, ?d, log)"
    using assms by (simp add: bridge_simps stands_def REPLY_MAX_DEPTH_def)
  have "stands Parameters 2 (e, a) ?d" using assms by (simp add: stands_def)
  then have body: "ends (feed (member_tokens ms) ?d log) (log @ fst (ref_parameters ms))
      (snd (ref_parameters ms)) (stands Parameters 2 (fold saw_parameter ms (e, a)))"
    by (intro sequence_follow) (auto intro: parameter_follow)
  show ?thesis
  proof (cases "snd (ref_parameters ms)")
    case None
    with body have "ends (feed (member_tokens ms) ?d log) (log @ fst (ref_parameters ms))
      None (stands Parameters 2 ?seen)" by (simp add: fold_saw_parameter)
    then have "ends (feed (member_tokens ms @ [ObjectEnd]) ?d log)
       (log @ fst (ref_parameters ms)) None (stands Reply 1 ?seen)"
      by (rule ends_append) (auto simp: feed_Cons bridge_simps stands_def)
    with start None show ?thesis by (simp add: feed_Cons)
  next
    case (Some k)
    with body start show ?thesis by (auto simp: feed_Cons intro: ends_append_error)
  qed
qed

definition saw_top :: "string \<times> json \<Rightarrow> bool \<times> bool \<Rightarrow> bool \<times> bool" where
  "saw_top m s = (case s of (e, a) \<Rightarrow> (e \<or> has_error [m], a \<or> has_addresses [m]))"

lemma top_follow:
  assumes "stands Reply 1 seen d"
  shows "ends (feed (key_token k # tokens_of v) d log) (log @ fst (ref_top k v))
    (snd (ref_top k v)) (stands Reply 1 (saw_top (k, v) seen))"
proof -
  obtain e a where seen: "seen = (e, a)" by (cases seen)
  consider "key_is k ''error''" | "\<not> key_is k ''error''" "key_is k ''parameters''"
    | "\<not> key_is k ''error''" "\<not> key_is k ''parameters''" by blast
  then show ?thesis
  proof cases
    case 1
    then have key: "member (key_is k) d = (None, d\<lparr>dc_state := ReplyErrorValue\<rparr>)"
      using assms by (simp add: member_def stands_def)
    with 1 seen assms show ?thesis
      by (cases v) (auto simp: feed_Cons bridge_key_token bridge_simps string_token_def stands_def
            ref_top_def saw_top_def has_error_def has_addresses_def REPLY_MAX_DEPTH_def)
  next
    case 2
    then have key: "member (key_is k) d = (None, d\<lparr>dc_state := ReplyParameters\<rparr>)"
      using assms by (simp add: member_def stands_def)
    have go: "stands ReplyParameters 1 (e, a) (d\<lparr>dc_state := ReplyParameters\<rparr>)"
      using assms seen by (simp add: stands_def)
    show ?thesis
    proof (cases "\<exists>ms. v = JObj ms")
      case True
      with 2 key seen parameters_follow [OF go] show ?thesis
        by (auto simp: feed_key ref_top_def saw_top_def has_error_def has_addresses_def)
    next
      case False
      with 2 key seen assms show ?thesis
        by (cases v) (auto simp: feed_Cons bridge_key_token bridge_simps string_token_def stands_def
            ref_top_def REPLY_MAX_DEPTH_def)
    qed
  next
    case 3
    then have "member (key_is k) d = (None, begin_skip Reply d)"
      using assms by (simp add: member_def stands_def)
    then show ?thesis using 3 seen skip_follow [OF assms, of v log]
      by (simp add: feed_key ref_top_def saw_top_def has_error_def has_addresses_def REPLY_MAX_DEPTH_def)
  qed
qed

lemma fold_saw_top: "fold saw_top ms (e, a) = (e \<or> has_error ms, a \<or> has_addresses ms)"
  by (induction ms arbitrary: e a) (auto simp: saw_top_def has_error_def has_addresses_def)

abbreviation ref_members :: "(string \<times> json) list \<Rightarrow> report" where
  "ref_members \<equiv> ref_sequence (\<lambda>(k, v). ref_top k v)"

lemma reply_object_follow:
  "ends (feed (tokens_of (JObj ms)) dc_new []) (fst (ref_members ms)) (snd (ref_members ms))
    (stands Complete 0 (has_error ms, has_addresses ms))"
proof -
  let ?d = "dc_new\<lparr>dc_depth := 1, dc_state := Reply\<rparr>"
  have start: "bridge collect_items ObjectStart (dc_new, []) = (None, ?d, [])"
    by (simp add: bridge_simps dc_new_def REPLY_MAX_DEPTH_def)
  have "stands Reply 1 (False, False) ?d" by (simp add: stands_def dc_new_def)
  then have "ends (feed (member_tokens ms) ?d []) ([] @ fst (ref_members ms))
      (snd (ref_members ms)) (stands Reply 1 (fold saw_top ms (False, False)))"
    by (intro sequence_follow) (auto simp del: One_nat_def intro: top_follow)
  then have body: "ends (feed (member_tokens ms) ?d []) (fst (ref_members ms))
      (snd (ref_members ms)) (stands Reply 1 (has_error ms, has_addresses ms))"
    by (simp add: fold_saw_top)
  show ?thesis
  proof (cases "snd (ref_members ms)")
    case None
    with body have "ends (feed (member_tokens ms) ?d []) (fst (ref_members ms))
      None (stands Reply 1 (has_error ms, has_addresses ms))" by simp
    then have "ends (feed (member_tokens ms @ [ObjectEnd]) ?d [])
       (fst (ref_members ms)) None (stands Complete 0 (has_error ms, has_addresses ms))"
      by (rule ends_append) (auto simp: feed_Cons bridge_simps stands_def)
    with start None show ?thesis by (simp add: feed_Cons)
  next
    case (Some k)
    with body start show ?thesis by (auto simp: feed_Cons intro: ends_append_error)
  qed
qed

lemma reply_other_follow:
  "\<nexists>ms. j = JObj ms \<Longrightarrow> ends (feed (tokens_of j) dc_new []) [] (Some UnexpectedType) P"
  by (cases j) (auto intro!: feed_error simp: bridge_simps string_token_def dc_new_def REPLY_MAX_DEPTH_def)

lemma drive_bridge:
  assumes "run collect (tk_new input) [] = (Inr None, tkf, ts)"
  shows "\<exists>tk'. drive visitor (tk_new input) v =
    (Inr (fst (visit_all visitor ts v)), tk', snd (visit_all visitor ts v))"
proof -
  from run_visit_all [of "tk_new input" "[]" tkf ts visitor v] assms obtain tk' where
    "run visitor (tk_new input) v = (Inr (fst (visit_all visitor ts v)), tk', snd (visit_all visitor ts v))"
    by auto
  then show ?thesis by (simp add: drive_def tk_new_def)
qed

lemma reply_feed:
  obtains (rejected) d k where "feed (tokens_of j) dc_new [] = (Some (Inl k), d, fst (ref_reply j))" "snd (ref_reply j) = Some k"
  | (complete) d where "feed (tokens_of j) dc_new [] = (None, d, fst (ref_reply j))"
      "snd (ref_reply j) = (if dc_seen_error d \<or> dc_seen_addresses d then None else Some MissingMember)"
proof (cases "\<exists>ms. j = JObj ms")
  case False
  then have "ref_reply j = ([], Some UnexpectedType)" by (cases j) (auto simp: ref_reply_def)
  with reply_other_follow [OF False, of "\<lambda>_. True"] show thesis by (auto simp: ends_def intro: rejected)
next
  case True
  then obtain ms where j: "j = JObj ms" by blast
  obtain items k where ms: "ref_members ms = (items, k)" by (cases "ref_members ms")
  show thesis
  proof (cases k)
    case None
    with reply_object_follow [of ms] ms obtain d where
      "feed (tokens_of j) dc_new [] = (None, d, items)"
      "dc_seen_error d = has_error ms" "dc_seen_addresses d = has_addresses ms"
      unfolding j by (auto simp: ends_def stands_def)
    with j ms None show thesis by (intro complete [of d]) (simp_all add: ref_reply_def)
  next
    case (Some x)
    with reply_object_follow [of ms] ms obtain d where
      "feed (tokens_of j) dc_new [] = (Some (Inl x), d, items)" unfolding j by (auto simp: ends_def)
    with j ms Some show thesis by (intro rejected [of x d]) (simp_all add: ref_reply_def)
  qed
qed

text \<open>
  C2: The reply decoder implements the schema. On a frame that is whitespace around the text
  of a JSON value \<open>j\<close>, one drive with a visitor that collects what it is told reports exactly
  the items that the reference decoder reads off the value, in order; it ends with success when
  the reference accepts the value, and otherwise with the error kind the reference gives (type,
  range, address length, missing member, depth or escape). Either way the reply is finished.
\<close>

theorem reply_drive_correct:
  assumes "valid_utf8 (w @ t @ w')" "ws w" "ws w'" "json_text j t" "nesting j \<le> MAX_DEPTH"
  shows "\<exists>r r'. reply_drive collect_items (reply_new (w @ t @ w')) [] = (r, r', fst (ref_reply j)) \<and>
    rp_finished r' \<and>
    (case snd (ref_reply j) of None \<Rightarrow> r = Inr None | Some k \<Rightarrow> \<exists>offset. r = Inl (RError k offset))"
proof -
  from run_collect_json [OF assms] obtain tkf where
    "run collect (tk_new (w @ t @ w')) [] = (Inr None, tkf, tokens_of j)" by blast
  from drive_bridge [OF this, of "bridge collect_items" "(dc_new, [])"] obtain tk' where
    drive: "drive (bridge collect_items) (tk_new (w @ t @ w')) (dc_new, []) =
      (Inr (fst (feed (tokens_of j) dc_new [])), tk', snd (feed (tokens_of j) dc_new []))"
    by (auto simp: feed_def)
  show ?thesis
    by (cases rule: reply_feed [of j]) (use drive in \<open>auto simp: reply_drive_def reply_new_def Let_def\<close>)
qed

theorem reply_drive_correct_witness:
  "\<exists>r'. reply_drive collect_items (reply_new (CHR ''{'' # CHR 0x22 # ''error'' @ CHR 0x22 # '':'' @
     CHR 0x22 # ''no'' @ CHR 0x22 # ''}'')) [] = (Inr None, r', [ErrorItem ''no'']) \<and> rp_finished r'"
proof -
  let ?t = "CHR ''{'' # CHR 0x22 # ''error'' @ CHR 0x22 # '':'' @ CHR 0x22 # ''no'' @ CHR 0x22 # ''}''"
  have k: "string_body ''error''" and v: "string_body ''no''"
    by (simp_all add: ordinary empty stops_string_def)
  have "members [(''error'', JStr ''no'')]
      ([] @ CHR 0x22 # ''error'' @ CHR 0x22 # [] @ CHR '':'' # [] @ (CHR 0x22 # ''no'' @ [CHR 0x22]) @ [])"
    by (rule member [OF _ k _ _ json_text_elements_members.string [OF v]]) simp_all
  then have j: "json_text (JObj [(''error'', JStr ''no'')]) ?t"
    using object by fastforce
  have "ref_reply (JObj [(''error'', JStr ''no'')]) = ([ErrorItem ''no''], None)"
    by (simp add: ref_reply_def ref_top_def key_is_def has_error_def)
  with reply_drive_correct [of "[]" ?t "[]", OF _ _ _ j] show ?thesis
    by (simp add: valid_utf8_all_ascii MAX_DEPTH_def STACK_WORDS_def)
qed

text \<open>
  C32: A finished reply stays silent. Once a drive has ended other than by the visitor stopping
  it, every later drive with any visitor reports nothing, succeeds and changes nothing.
\<close>

theorem finished_reply_silent:
  assumes "reply_drive visitor r v = (outcome, r', v')" and "\<And>out. outcome \<noteq> Inr (Some out)"
  shows "reply_drive visitor' r' u = (Inr None, r', u)"
proof -
  have "rp_finished r'"
    using assms by (auto simp: reply_drive_def Let_def split: if_splits prod.splits sum.splits option.splits)
  then show ?thesis by (simp add: reply_drive_def)
qed

theorem finished_reply_silent_witness:
  "reply_drive collect_items (fst (snd (reply_drive collect_items (reply_new ''[]'') []))) [] =
     (Inr None, fst (snd (reply_drive collect_items (reply_new ''[]'') [])), [])"
proof -
  obtain outcome r' v' where d: "reply_drive collect_items (reply_new ''[]'') [] = (outcome, r', v')"
    by (cases "reply_drive collect_items (reply_new ''[]'') []")
  have "outcome \<noteq> Inr (Some out)" for out
  proof -
    have "json_text (JArr []) ''[]''" using array0 [of "[]"] by simp
    note run_collect_json [of "[]" "''[]''" "[]", OF _ _ _ this]
    then obtain tkf where "run collect (tk_new ''[]'') [] = (Inr None, tkf, tokens_of (JArr []))"
      by (auto simp: valid_utf8_all_ascii MAX_DEPTH_def STACK_WORDS_def)
    from drive_bridge [OF this, of "bridge collect_items" "(dc_new, [])"] d show ?thesis
      by (auto simp: reply_drive_def reply_new_def bridge_simps dc_new_def REPLY_MAX_DEPTH_def)
  qed
  from finished_reply_silent [OF d this] d show ?thesis by simp
qed

end
