(* ===== verification/Prefix_Buffer.thy ===== *)
theory Prefix_Buffer
  imports Kimojio_Prelude
begin

text \<open>
  \<open>kimojio/src/prefix_buffer.rs\<close>: buffers that grow at their front. The trait
  \<open>PrefixBuffer\<close> is a record of operations, and its provided methods are functions over such
  a record; the three implementations give a record each. The locale \<open>prefix_buffer\<close> states
  what an implementation promises and derives the provided methods once; it is
  interpreted on all three.

  A \<open>&mut [u8]\<close> that \<open>reserve\<close> hands out is the range of the data it covers, and
  \<open>store\<close> writes through it. The \<open>assert!\<close>, \<open>debug_assert!\<close> and slice bounds checks are
  panics.
\<close>

type_synonym u8 = "8 word"

section \<open>The trait and its provided methods\<close>

record 'b prefix_ops =
  po_as_slice :: "'b \<Rightarrow> u8 list may_panic"
  po_available :: "'b \<Rightarrow> nat may_panic"
  po_len :: "'b \<Rightarrow> nat may_panic"
  po_reserve :: "'b \<Rightarrow> nat \<Rightarrow> ((nat \<times> nat) \<times> 'b) may_panic"
  po_store :: "'b \<Rightarrow> nat \<times> nat \<Rightarrow> u8 list \<Rightarrow> 'b"
  po_take :: "'b \<Rightarrow> nat \<Rightarrow> 'b may_panic"
  po_reset :: "'b \<Rightarrow> 'b may_panic"

definition store_range :: "u8 list \<Rightarrow> nat \<times> nat \<Rightarrow> u8 list \<Rightarrow> u8 list" where
  "store_range data r value = (case r of (a, b) \<Rightarrow> take a data @ value @ drop b data)"

definition u32_from_le_bytes :: "u8 list \<Rightarrow> 32 word" where
  "u32_from_le_bytes bs =
     word_of_nat (unat (bs ! 0) + 256 * unat (bs ! 1) + 65536 * unat (bs ! 2) + 16777216 * unat (bs ! 3))"

definition u32_to_le_bytes :: "32 word \<Rightarrow> u8 list" where
  "u32_to_le_bytes v =
     [word_of_nat (unat v), word_of_nat (unat v div 256), word_of_nat (unat v div 65536),
      word_of_nat (unat v div 16777216)]"

definition pb_take_u32 :: "'b prefix_ops \<Rightarrow> 'b \<Rightarrow> (32 word \<times> 'b) may_panic" where
  "pb_take_u32 ops b =
     (case po_len ops b of Inl p \<Rightarrow> Inl p
      | Inr n \<Rightarrow>
          if \<not> 4 \<le> n then Inl (Panic ''You can only take as much as you have'')
          else (case po_as_slice ops b of Inl p \<Rightarrow> Inl p
            | Inr s \<Rightarrow>
                (case get_range s 0 4 of None \<Rightarrow> Inl (Panic ''range end index out of range'')
                 | Some bytes \<Rightarrow>
                     (case po_take ops b 4 of Inl p \<Rightarrow> Inl p
                      | Inr b' \<Rightarrow> Inr (u32_from_le_bytes bytes, b')))))"

definition pb_default_reset :: "('b \<Rightarrow> nat may_panic) \<Rightarrow> ('b \<Rightarrow> nat \<Rightarrow> 'b may_panic) \<Rightarrow> 'b \<Rightarrow> 'b may_panic" where
  "pb_default_reset len tak b = (case len b of Inl p \<Rightarrow> Inl p | Inr n \<Rightarrow> tak b n)"

definition pb_prefix :: "'b prefix_ops \<Rightarrow> 'b \<Rightarrow> u8 list \<Rightarrow> 'b may_panic" where
  "pb_prefix ops b value =
     (case po_available ops b of Inl p \<Rightarrow> Inl p
      | Inr available \<Rightarrow>
          if \<not> length value \<le> available
          then Inl (Panic ''You can only prefix as much as you have available'')
          else (case po_reserve ops b (length value) of Inl p \<Rightarrow> Inl p
            | Inr (r, b') \<Rightarrow> Inr (po_store ops b' r value)))"

definition pb_set :: "'b prefix_ops \<Rightarrow> 'b \<Rightarrow> u8 list \<Rightarrow> 'b may_panic" where
  "pb_set ops b value =
     (case po_reset ops b of Inl p \<Rightarrow> Inl p | Inr b' \<Rightarrow> pb_prefix ops b' value)"

definition pb_is_empty :: "'b prefix_ops \<Rightarrow> 'b \<Rightarrow> bool may_panic" where
  "pb_is_empty ops b = (case po_len ops b of Inl p \<Rightarrow> Inl p | Inr n \<Rightarrow> Inr (n = 0))"

section \<open>\<open>BufferView\<close>\<close>

record buffer_view =
  bv_head :: nat
  bv_data :: "u8 list"

definition bv_new :: "u8 list \<Rightarrow> buffer_view" where
  "bv_new data = \<lparr>bv_head = length data, bv_data = data\<rparr>"

definition bv_with_available :: "nat \<Rightarrow> u8 list \<Rightarrow> buffer_view may_panic" where
  "bv_with_available available data =
     (if \<not> available \<le> length data
      then Inl (Panic ''available must be less than or equal to the length of the slice'')
      else Inr \<lparr>bv_head = available, bv_data = data\<rparr>)"

definition bv_with_prefix :: "u8 list \<Rightarrow> u8 list \<Rightarrow> buffer_view may_panic" where
  "bv_with_prefix data value =
     (if \<not> length value \<le> length data
      then Inl (Panic ''the prefix must be smaller than the buffer'')
      else let head = length data - length value in
           Inr \<lparr>bv_head = head, bv_data = store_range data (head, length data) value\<rparr>)"

definition bv_available :: "buffer_view \<Rightarrow> nat may_panic" where
  "bv_available b = (if bv_head b \<le> length (bv_data b) then Inr (bv_head b) else Inl (Panic ''debug_assert''))"

definition bv_as_slice :: "buffer_view \<Rightarrow> u8 list may_panic" where
  "bv_as_slice b =
     (if bv_head b \<le> length (bv_data b) then Inr (drop (bv_head b) (bv_data b))
      else Inl (Panic ''debug_assert''))"

definition bv_len :: "buffer_view \<Rightarrow> nat may_panic" where
  "bv_len b =
     (if bv_head b \<le> length (bv_data b) then Inr (length (bv_data b) - bv_head b)
      else Inl (Panic ''debug_assert''))"

definition bv_reserve :: "buffer_view \<Rightarrow> nat \<Rightarrow> ((nat \<times> nat) \<times> buffer_view) may_panic" where
  "bv_reserve b sz =
     (if \<not> sz \<le> bv_head b
      then Inl (Panic ''You can only reserve as much as you have available'')
      else let new_head = bv_head b - sz in
           if \<not> bv_head b \<le> length (bv_data b) then Inl (Panic ''range end index out of range'')
           else Inr ((new_head, bv_head b), b\<lparr>bv_head := new_head\<rparr>))"

definition bv_take :: "buffer_view \<Rightarrow> nat \<Rightarrow> buffer_view may_panic" where
  "bv_take b amount =
     (if \<not> bv_head b + amount \<le> length (bv_data b)
      then Inl (Panic ''You can only take as much as you have'')
      else Inr (b\<lparr>bv_head := bv_head b + amount\<rparr>))"

definition bv_view :: "buffer_view \<Rightarrow> buffer_view" where
  "bv_view b = \<lparr>bv_head = bv_head b, bv_data = bv_data b\<rparr>"

definition bv_ops :: "buffer_view prefix_ops" where
  "bv_ops = \<lparr>po_as_slice = bv_as_slice, po_available = bv_available, po_len = bv_len,
     po_reserve = bv_reserve, po_store = (\<lambda>b r v. b\<lparr>bv_data := store_range (bv_data b) r v\<rparr>),
     po_take = bv_take, po_reset = pb_default_reset bv_len bv_take\<rparr>"

section \<open>\<open>StaticBuffer\<close>\<close>

record static_buffer =
  sb_head :: nat
  sb_tail :: nat
  sb_data :: "u8 list"

definition sb_new :: "nat \<Rightarrow> static_buffer" where
  "sb_new SIZE = \<lparr>sb_head = SIZE, sb_tail = SIZE, sb_data = replicate SIZE 0\<rparr>"

definition sb_keep :: "static_buffer \<Rightarrow> nat \<Rightarrow> static_buffer may_panic" where
  "sb_keep b sz =
     (let tail = sb_head b + sz in
      if \<not> tail \<le> sb_tail b then Inl (Panic ''You can only keep as much as you have'')
      else Inr (b\<lparr>sb_tail := tail\<rparr>))"

definition sb_available :: "static_buffer \<Rightarrow> nat may_panic" where
  "sb_available b = (if sb_head b \<le> sb_tail b then Inr (sb_head b) else Inl (Panic ''debug_assert''))"

definition sb_as_slice :: "static_buffer \<Rightarrow> u8 list may_panic" where
  "sb_as_slice b =
     (if \<not> sb_head b \<le> sb_tail b then Inl (Panic ''debug_assert'')
      else case get_range (sb_data b) (sb_head b) (sb_tail b) of
          Some s \<Rightarrow> Inr s | None \<Rightarrow> Inl (Panic ''range end index out of range''))"

definition sb_len :: "static_buffer \<Rightarrow> nat may_panic" where
  "sb_len b = (if sb_head b \<le> sb_tail b then Inr (sb_tail b - sb_head b) else Inl (Panic ''debug_assert''))"

definition sb_reserve :: "static_buffer \<Rightarrow> nat \<Rightarrow> ((nat \<times> nat) \<times> static_buffer) may_panic" where
  "sb_reserve b sz =
     (if \<not> sz \<le> sb_head b
      then Inl (Panic ''You can only reserve as much as you have available'')
      else let new_head = sb_head b - sz in
           if \<not> sb_head b \<le> length (sb_data b) then Inl (Panic ''range end index out of range'')
           else Inr ((new_head, sb_head b), b\<lparr>sb_head := new_head\<rparr>))"

definition sb_take :: "static_buffer \<Rightarrow> nat \<Rightarrow> static_buffer may_panic" where
  "sb_take b amount =
     (if \<not> sb_head b + amount \<le> sb_tail b
      then Inl (Panic ''You can only take as much as you have'')
      else Inr (b\<lparr>sb_head := sb_head b + amount\<rparr>))"

definition sb_reset :: "static_buffer \<Rightarrow> static_buffer" where
  "sb_reset b = b\<lparr>sb_head := length (sb_data b), sb_tail := length (sb_data b)\<rparr>"

definition sb_view :: "static_buffer \<Rightarrow> buffer_view may_panic" where
  "sb_view b =
     (if \<not> sb_tail b \<le> length (sb_data b) then Inl (Panic ''range end index out of range'')
      else bv_with_available (sb_head b) (take (sb_tail b) (sb_data b)))"

definition sb_ops :: "static_buffer prefix_ops" where
  "sb_ops = \<lparr>po_as_slice = sb_as_slice, po_available = sb_available, po_len = sb_len,
     po_reserve = sb_reserve, po_store = (\<lambda>b r v. b\<lparr>sb_data := store_range (sb_data b) r v\<rparr>),
     po_take = sb_take, po_reset = (\<lambda>b. Inr (sb_reset b))\<rparr>"

definition sb_with :: "nat \<Rightarrow> u8 list \<Rightarrow> static_buffer may_panic" where
  "sb_with SIZE value = pb_set sb_ops (sb_new SIZE) value"

section \<open>\<open>OwnedBuffer\<close>\<close>

record owned_buffer =
  ob_head :: nat
  ob_tail :: nat
  ob_data :: "u8 list"

definition ob_new :: "nat \<Rightarrow> owned_buffer" where
  "ob_new sz = \<lparr>ob_head = sz, ob_tail = sz, ob_data = replicate sz 0\<rparr>"

definition ob_keep :: "owned_buffer \<Rightarrow> nat \<Rightarrow> owned_buffer may_panic" where
  "ob_keep b sz =
     (let tail = ob_head b + sz in
      if \<not> tail \<le> ob_tail b then Inl (Panic ''You can only keep as much as you have'')
      else Inr (b\<lparr>ob_tail := tail\<rparr>))"

definition ob_available :: "owned_buffer \<Rightarrow> nat may_panic" where
  "ob_available b = (if ob_head b \<le> ob_tail b then Inr (ob_head b) else Inl (Panic ''debug_assert''))"

definition ob_as_slice :: "owned_buffer \<Rightarrow> u8 list may_panic" where
  "ob_as_slice b =
     (if \<not> ob_head b \<le> ob_tail b then Inl (Panic ''debug_assert'')
      else case get_range (ob_data b) (ob_head b) (ob_tail b) of
          Some s \<Rightarrow> Inr s | None \<Rightarrow> Inl (Panic ''range end index out of range''))"

definition ob_len :: "owned_buffer \<Rightarrow> nat may_panic" where
  "ob_len b = (if ob_head b \<le> ob_tail b then Inr (ob_tail b - ob_head b) else Inl (Panic ''debug_assert''))"

definition ob_reserve :: "owned_buffer \<Rightarrow> nat \<Rightarrow> ((nat \<times> nat) \<times> owned_buffer) may_panic" where
  "ob_reserve b sz =
     (if \<not> sz \<le> ob_head b
      then Inl (Panic ''You can only reserve as much as you have available'')
      else let new_head = ob_head b - sz in
           if \<not> ob_head b \<le> length (ob_data b) then Inl (Panic ''range end index out of range'')
           else Inr ((new_head, ob_head b), b\<lparr>ob_head := new_head\<rparr>))"

definition ob_take :: "owned_buffer \<Rightarrow> nat \<Rightarrow> owned_buffer may_panic" where
  "ob_take b amount =
     (if \<not> ob_head b + amount \<le> ob_tail b
      then Inl (Panic ''You can only take as much as you have'')
      else Inr (b\<lparr>ob_head := ob_head b + amount\<rparr>))"

definition ob_reset :: "owned_buffer \<Rightarrow> owned_buffer" where
  "ob_reset b = b\<lparr>ob_head := length (ob_data b), ob_tail := length (ob_data b)\<rparr>"

definition ob_view :: "owned_buffer \<Rightarrow> buffer_view may_panic" where
  "ob_view b =
     (if \<not> ob_tail b \<le> length (ob_data b) then Inl (Panic ''range end index out of range'')
      else bv_with_available (ob_head b) (take (ob_tail b) (ob_data b)))"

definition ob_ops :: "owned_buffer prefix_ops" where
  "ob_ops = \<lparr>po_as_slice = ob_as_slice, po_available = ob_available, po_len = ob_len,
     po_reserve = ob_reserve, po_store = (\<lambda>b r v. b\<lparr>ob_data := store_range (ob_data b) r v\<rparr>),
     po_take = ob_take, po_reset = (\<lambda>b. Inr (ob_reset b))\<rparr>"

definition ob_with :: "nat \<Rightarrow> u8 list \<Rightarrow> owned_buffer may_panic" where
  "ob_with sz value = pb_set ob_ops (ob_new sz) value"

section \<open>The contract\<close>

locale prefix_buffer =
  fixes ops :: "'b prefix_ops"
    and inv :: "'b \<Rightarrow> bool"
    and contents :: "'b \<Rightarrow> u8 list"
    and room :: "'b \<Rightarrow> nat"
    and cap :: "'b \<Rightarrow> nat"
  assumes slice_law: "inv b \<Longrightarrow> po_as_slice ops b = Inr (contents b)"
    and len_law: "inv b \<Longrightarrow> po_len ops b = Inr (length (contents b))"
    and available_law: "inv b \<Longrightarrow> po_available ops b = Inr (room b)"
    and reserve_law: "inv b \<Longrightarrow> length v \<le> room b \<Longrightarrow>
      \<exists>r b'. po_reserve ops b (length v) = Inr (r, b') \<and> inv (po_store ops b' r v) \<and>
        contents (po_store ops b' r v) = v @ contents b \<and>
        room (po_store ops b' r v) = room b - length v \<and> cap (po_store ops b' r v) = cap b"
    and take_law: "inv b \<Longrightarrow> n \<le> length (contents b) \<Longrightarrow>
      \<exists>b'. po_take ops b n = Inr b' \<and> inv b' \<and> contents b' = drop n (contents b) \<and>
        room b' = room b + n \<and> cap b' = cap b"
    and take_panic_law: "inv b \<Longrightarrow> length (contents b) < n \<Longrightarrow> \<exists>p. po_take ops b n = Inl p"
    and reset_law: "inv b \<Longrightarrow>
      \<exists>b'. po_reset ops b = Inr b' \<and> inv b' \<and> contents b' = [] \<and> room b' = cap b \<and> cap b' = cap b"
begin

lemma prefix_fits:
  assumes "inv b" "length v \<le> room b"
  obtains b' where "pb_prefix ops b v = Inr b'" "inv b'" "contents b' = v @ contents b"
    "room b' = room b - length v" "cap b' = cap b"
  using reserve_law [OF assms] assms available_law by (fastforce simp: pb_prefix_def)

lemma prefix_panics: "inv b \<Longrightarrow> room b < length v \<Longrightarrow> \<exists>p. pb_prefix ops b v = Inl p"
  by (simp add: pb_prefix_def available_law)

lemma set_fits:
  assumes "inv b" "length v \<le> cap b"
  obtains b' where "pb_set ops b v = Inr b'" "inv b'" "contents b' = v"
    "room b' = cap b - length v" "cap b' = cap b"
proof -
  from reset_law [OF assms(1)] obtain b1 where b1: "po_reset ops b = Inr b1" "inv b1"
    "contents b1 = []" "room b1 = cap b" "cap b1 = cap b" by blast
  with assms(2) obtain b' where "pb_prefix ops b1 v = Inr b'" "inv b'" "contents b' = v @ contents b1"
    "room b' = room b1 - length v" "cap b' = cap b1" by (metis prefix_fits)
  with b1 show thesis by (intro that [of b']) (simp_all add: pb_set_def)
qed

lemma set_panics: "inv b \<Longrightarrow> cap b < length v \<Longrightarrow> \<exists>p. pb_set ops b v = Inl p"
  using reset_law [of b] by (auto simp: pb_set_def dest: prefix_panics [of _ v])

lemma take_u32_law:
  assumes "inv b" "4 \<le> length (contents b)"
  obtains b' where "pb_take_u32 ops b = Inr (u32_from_le_bytes (take 4 (contents b)), b')" "inv b'"
    "contents b' = drop 4 (contents b)" "room b' = room b + 4" "cap b' = cap b"
  using take_law [OF assms] assms
  by (auto simp: pb_take_u32_def len_law slice_law get_range_def)

lemma take_u32_panics: "inv b \<Longrightarrow> length (contents b) < 4 \<Longrightarrow> \<exists>p. pb_take_u32 ops b = Inl p"
  by (simp add: pb_take_u32_def len_law)

end

section \<open>Scripts against a reference\<close>

text \<open>
  The reference keeps the contents as a list and the number of bytes that may still be
  prefixed; a step it refuses is one where the code panics.
\<close>

datatype pb_op = OpPrefix "u8 list" | OpTake nat | OpTakeU32 | OpReset | OpSet "u8 list"

fun pb_step :: "'b prefix_ops \<Rightarrow> pb_op \<Rightarrow> 'b \<Rightarrow> (32 word list \<times> 'b) may_panic" where
  "pb_step ops (OpPrefix v) b = (case pb_prefix ops b v of Inl p \<Rightarrow> Inl p | Inr b' \<Rightarrow> Inr ([], b'))"
| "pb_step ops (OpTake n) b = (case po_take ops b n of Inl p \<Rightarrow> Inl p | Inr b' \<Rightarrow> Inr ([], b'))"
| "pb_step ops OpTakeU32 b = (case pb_take_u32 ops b of Inl p \<Rightarrow> Inl p | Inr (w, b') \<Rightarrow> Inr ([w], b'))"
| "pb_step ops OpReset b = (case po_reset ops b of Inl p \<Rightarrow> Inl p | Inr b' \<Rightarrow> Inr ([], b'))"
| "pb_step ops (OpSet v) b = (case pb_set ops b v of Inl p \<Rightarrow> Inl p | Inr b' \<Rightarrow> Inr ([], b'))"

fun pb_run :: "'b prefix_ops \<Rightarrow> pb_op list \<Rightarrow> 'b \<Rightarrow> (32 word list \<times> 'b) may_panic" where
  "pb_run ops [] b = Inr ([], b)"
| "pb_run ops (x # xs) b =
     (case pb_step ops x b of Inl p \<Rightarrow> Inl p
      | Inr (w, b') \<Rightarrow> (case pb_run ops xs b' of Inl p \<Rightarrow> Inl p | Inr (ws, b'') \<Rightarrow> Inr (w @ ws, b'')))"

fun ref_step :: "nat \<Rightarrow> pb_op \<Rightarrow> u8 list \<times> nat \<Rightarrow> (32 word list \<times> u8 list \<times> nat) option" where
  "ref_step k (OpPrefix v) (c, room) = (if length v \<le> room then Some ([], v @ c, room - length v) else None)"
| "ref_step k (OpTake n) (c, room) = (if n \<le> length c then Some ([], drop n c, room + n) else None)"
| "ref_step k OpTakeU32 (c, room) =
     (if 4 \<le> length c then Some ([u32_from_le_bytes (take 4 c)], drop 4 c, room + 4) else None)"
| "ref_step k OpReset (c, room) = Some ([], [], k)"
| "ref_step k (OpSet v) (c, room) = (if length v \<le> k then Some ([], v, k - length v) else None)"

fun ref_run :: "nat \<Rightarrow> pb_op list \<Rightarrow> u8 list \<times> nat \<Rightarrow> (32 word list \<times> u8 list \<times> nat) option" where
  "ref_run k [] (c, room) = Some ([], c, room)"
| "ref_run k (x # xs) s =
     (case ref_step k x s of None \<Rightarrow> None
      | Some (w, s') \<Rightarrow> (case ref_run k xs s' of None \<Rightarrow> None | Some (ws, s'') \<Rightarrow> Some (w @ ws, s'')))"

context prefix_buffer
begin

lemma step_refines:
  assumes "inv b"
  shows "case ref_step (cap b) x (contents b, room b) of
      None \<Rightarrow> \<exists>p. pb_step ops x b = Inl p
    | Some (w, c, r) \<Rightarrow> \<exists>b'. pb_step ops x b = Inr (w, b') \<and> inv b' \<and> contents b' = c \<and> room b' = r \<and>
        cap b' = cap b"
proof (cases x)
  case (OpPrefix v)
  then show ?thesis using assms prefix_panics [of b v]
    by (cases "length v \<le> room b") (auto elim: prefix_fits [of b v])
next
  case (OpTake n)
  then show ?thesis using assms take_law [of b n] take_panic_law [of b n]
    by (cases "n \<le> length (contents b)") auto
next
  case OpTakeU32
  then show ?thesis using assms take_u32_panics [of b]
    by (cases "4 \<le> length (contents b)") (auto elim: take_u32_law [of b])
next
  case OpReset
  then show ?thesis using reset_law [OF assms] by auto
next
  case (OpSet v)
  then show ?thesis using assms set_panics [of b v]
    by (cases "length v \<le> cap b") (auto elim: set_fits [of b v])
qed

lemma run_refines:
  "inv b \<Longrightarrow> case ref_run (cap b) xs (contents b, room b) of
      None \<Rightarrow> \<exists>p. pb_run ops xs b = Inl p
    | Some (ws, c, r) \<Rightarrow> \<exists>b'. pb_run ops xs b = Inr (ws, b') \<and> inv b' \<and> contents b' = c \<and> room b' = r"
proof (induction xs arbitrary: b)
  case (Cons x xs)
  show ?case
  proof (cases "ref_step (cap b) x (contents b, room b)")
    case None
    with step_refines [OF Cons.prems, of x] show ?thesis by auto
  next
    case (Some s)
    obtain w c r where s: "s = (w, c, r)" by (cases s) auto
    with step_refines [OF Cons.prems, of x] Some obtain b' where
      b': "pb_step ops x b = Inr (w, b')" "inv b'" "contents b' = c" "room b' = r" "cap b' = cap b"
      by auto
    from Cons.IH [OF b'(2)] b' Some s show ?thesis
      by (auto split: option.splits prod.splits)
  qed
qed simp

end

definition pb_outcome :: "'b prefix_ops \<Rightarrow> pb_op list \<Rightarrow> 'b \<Rightarrow> (32 word list \<times> u8 list) option" where
  "pb_outcome ops xs b =
     (case pb_run ops xs b of Inl _ \<Rightarrow> None
      | Inr (ws, b') \<Rightarrow> (case po_as_slice ops b' of Inl _ \<Rightarrow> None | Inr s \<Rightarrow> Some (ws, s)))"

context prefix_buffer
begin

lemma outcome_refines:
  "inv b \<Longrightarrow> pb_outcome ops xs b = map_option (\<lambda>(ws, c, r). (ws, c)) (ref_run (cap b) xs (contents b, room b))"
  using run_refines [of b xs] slice_law
  by (auto simp: pb_outcome_def split: option.splits prod.splits sum.splits)

end

section \<open>The three implementations keep the contract\<close>

definition bv_inv :: "buffer_view \<Rightarrow> bool" where
  "bv_inv b \<longleftrightarrow> bv_head b \<le> length (bv_data b)"

definition sb_inv :: "static_buffer \<Rightarrow> bool" where
  "sb_inv b \<longleftrightarrow> sb_head b \<le> sb_tail b \<and> sb_tail b \<le> length (sb_data b)"

definition ob_inv :: "owned_buffer \<Rightarrow> bool" where
  "ob_inv b \<longleftrightarrow> ob_head b \<le> ob_tail b \<and> ob_tail b \<le> length (ob_data b)"

definition span :: "nat \<Rightarrow> nat \<Rightarrow> u8 list \<Rightarrow> u8 list" where
  "span h t d = take (t - h) (drop h d)"

lemma length_span [simp]: "h \<le> t \<Longrightarrow> t \<le> length d \<Longrightarrow> length (span h t d) = t - h"
  by (simp add: span_def)

lemma span_empty [simp]: "span h h d = []"
  by (simp add: span_def)

lemma drop_span: "n \<le> t - h \<Longrightarrow> drop n (span h t d) = span (h + n) t d"
  by (simp add: span_def drop_take add.commute)

lemma length_store [simp]:
  "length v \<le> h \<Longrightarrow> h \<le> length d \<Longrightarrow> length (store_range d (h - length v, h) v) = length d"
  by (simp add: store_range_def)

lemma span_store:
  assumes "length v \<le> h" "h \<le> t" "t \<le> length d"
  shows "span (h - length v) t (store_range d (h - length v, h) v) = v @ span h t d"
  using assms by (simp add: span_def store_range_def)

interpretation view_buf: prefix_buffer bv_ops bv_inv
  "\<lambda>b. span (bv_head b) (length (bv_data b)) (bv_data b)" bv_head "\<lambda>b. length (bv_data b)"
  by unfold_locales
     (auto simp: bv_ops_def bv_inv_def bv_as_slice_def bv_len_def bv_available_def bv_reserve_def
       bv_take_def pb_default_reset_def Let_def drop_span span_store, simp add: span_def)

interpretation static_buf: prefix_buffer sb_ops sb_inv
  "\<lambda>b. span (sb_head b) (sb_tail b) (sb_data b)" sb_head "\<lambda>b. length (sb_data b)"
  by unfold_locales
     (auto simp: sb_ops_def sb_inv_def sb_as_slice_def sb_len_def sb_available_def sb_reserve_def
       sb_take_def sb_reset_def get_range_def Let_def drop_span span_store, simp add: span_def)

interpretation owned_buf: prefix_buffer ob_ops ob_inv
  "\<lambda>b. span (ob_head b) (ob_tail b) (ob_data b)" ob_head "\<lambda>b. length (ob_data b)"
  by unfold_locales
     (auto simp: ob_ops_def ob_inv_def ob_as_slice_def ob_len_def ob_available_def ob_reserve_def
       ob_take_def ob_reset_def get_range_def Let_def drop_span span_store, simp add: span_def)

text \<open>
  C6: The three buffers refine one reference. Whatever script of prefix, take, take_u32, reset and
  set calls runs on a fresh view, static or owned buffer of \<open>n\<close> bytes, it panics exactly when
  the reference on lists refuses a step, and otherwise returns the same integers and ends
  with the same contents as the reference.
\<close>

theorem prefix_buffers_refine_lists:
  "pb_outcome bv_ops xs (bv_new (replicate n 0)) = map_option (\<lambda>(ws, c, r). (ws, c)) (ref_run n xs ([], n)) \<and>
   pb_outcome sb_ops xs (sb_new n) = map_option (\<lambda>(ws, c, r). (ws, c)) (ref_run n xs ([], n)) \<and>
   pb_outcome ob_ops xs (ob_new n) = map_option (\<lambda>(ws, c, r). (ws, c)) (ref_run n xs ([], n))"
  using view_buf.outcome_refines [of "bv_new (replicate n 0)" xs]
    static_buf.outcome_refines [of "sb_new n" xs] owned_buf.outcome_refines [of "ob_new n" xs]
  by (simp add: bv_inv_def bv_new_def sb_inv_def sb_new_def ob_inv_def ob_new_def)

section \<open>Integers, truncation and views\<close>

lemma le_bytes_digits:
  assumes "n < 4294967296"
  shows "n mod 256 + 256 * (n div 256 mod 256) + 65536 * (n div 65536 mod 256)
       + 16777216 * (n div 16777216 mod 256) = (n :: nat)"
proof -
  have a: "n div 16777216 mod 256 = n div 16777216" using assms by simp
  have b: "n div 65536 = n div 16777216 * 256 + n div 65536 mod 256"
    using div_mult_mod_eq [of "n div 65536" 256] by (simp add: div_mult2_eq [symmetric])
  have c: "n div 256 = n div 65536 * 256 + n div 256 mod 256"
    using div_mult_mod_eq [of "n div 256" 256] by (simp add: div_mult2_eq [symmetric])
  have d: "n = n div 256 * 256 + n mod 256" by simp
  show ?thesis using a b c d by linarith
qed

lemma u32_le_bytes: "u32_from_le_bytes (u32_to_le_bytes v) = v"
proof -
  have "unat v < 4294967296" using unsigned_less [of v] by simp
  note digits = le_bytes_digits [OF this]
  have byte: "unat (word_of_nat k :: u8) = k mod 256" for k
    by (simp add: unat_of_nat)
  have "u32_from_le_bytes (u32_to_le_bytes v) = word_of_nat (unat v mod 256
      + 256 * (unat v div 256 mod 256) + 65536 * (unat v div 65536 mod 256)
      + 16777216 * (unat v div 16777216 mod 256))"
    unfolding u32_from_le_bytes_def u32_to_le_bytes_def nth_Cons_0 nth_Cons_numeral nth_Cons_Suc
      One_nat_def numeral_2_eq_2 numeral_3_eq_3 byte ..
  then show ?thesis unfolding digits by simp
qed

text \<open>
  C29: Prefixing the four little-endian bytes of a 32-bit integer to an owned buffer and then
  taking a \<open>u32\<close> returns the integer and restores the contents.
\<close>

theorem prefix_take_u32_roundtrip:
  assumes "ob_inv b" and "ob_available b = Inr n" and "4 \<le> n" and "ob_as_slice b = Inr c"
  shows "\<exists>b1 b2. pb_prefix ob_ops b (u32_to_le_bytes v) = Inr b1 \<and>
    pb_take_u32 ob_ops b1 = Inr (v, b2) \<and> ob_as_slice b2 = Inr c \<and> ob_available b2 = Inr n"
proof -
  let ?bs = "u32_to_le_bytes v" and ?c = "\<lambda>b. span (ob_head b) (ob_tail b) (ob_data b)"
  have len: "length ?bs = 4" by (simp add: u32_to_le_bytes_def)
  have n: "ob_head b = n" using assms(2) by (auto simp: ob_available_def split: if_splits)
  from assms(1,3) n len obtain b1 where b1: "pb_prefix ob_ops b ?bs = Inr b1" "ob_inv b1"
    "?c b1 = ?bs @ ?c b" "ob_head b1 = ob_head b - length ?bs"
    by (metis owned_buf.prefix_fits)
  from b1(2,3) len obtain b2 where b2: "pb_take_u32 ob_ops b1 = Inr (u32_from_le_bytes (take 4 (?c b1)), b2)"
    "ob_inv b2" "?c b2 = drop 4 (?c b1)" "ob_head b2 = ob_head b1 + 4"
    by (metis length_append le_add1 owned_buf.take_u32_law)
  have slice: "ob_inv x \<Longrightarrow> ob_as_slice x = Inr (?c x)" for x
    using owned_buf.slice_law [of x] by (simp add: ob_ops_def)
  have avail: "ob_inv x \<Longrightarrow> ob_available x = Inr (ob_head x)" for x
    using owned_buf.available_law [of x] by (simp add: ob_ops_def)
  show ?thesis
    using b1 b2 len assms n slice [OF assms(1)] slice [OF b2(2)] avail [OF b2(2)]
    by (auto simp: u32_le_bytes)
qed

theorem prefix_take_u32_roundtrip_witness:
  "\<exists>b1 b2. pb_prefix ob_ops (ob_new 6) (u32_to_le_bytes 258) = Inr b1 \<and>
    pb_take_u32 ob_ops b1 = Inr (258, b2) \<and> ob_as_slice b2 = Inr [] \<and> ob_available b2 = Inr 6"
  by (rule prefix_take_u32_roundtrip)
     (simp_all add: ob_inv_def ob_new_def ob_available_def ob_as_slice_def get_range_def)

text \<open>
  C30: Keeping \<open>n\<close> bytes of an owned buffer truncates its contents to their first \<open>n\<close> bytes,
  panics when there are fewer, and a view taken afterwards shows exactly these bytes and the
  same room in front of them.
\<close>

theorem keep_then_view:
  assumes "ob_inv b" and "ob_as_slice b = Inr c"
  shows "if n \<le> length c
    then \<exists>b' w. ob_keep b n = Inr b' \<and> ob_inv b' \<and> ob_view b' = Inr w \<and>
      bv_as_slice w = Inr (take n c) \<and> bv_available w = ob_available b
    else \<exists>p. ob_keep b n = Inl p"
proof -
  have c: "c = take (ob_tail b - ob_head b) (drop (ob_head b) (ob_data b))"
    using assms by (auto simp: ob_as_slice_def ob_inv_def get_range_def split: if_splits)
  then have "length c = ob_tail b - ob_head b" using assms(1) by (auto simp: ob_inv_def min_def)
  with c assms(1) show ?thesis
    by (auto simp: ob_keep_def ob_inv_def ob_view_def bv_with_available_def bv_as_slice_def
        bv_available_def ob_available_def Let_def drop_take min_def)
qed

theorem keep_then_view_witness:
  "\<exists>p. ob_keep (ob_new 3) 1 = Inl p"
  using keep_then_view [of "ob_new 3" "[]" 1]
  by (simp add: ob_inv_def ob_new_def ob_as_slice_def get_range_def)

end
