(* ===== verification/Wait_List.thy ===== *)
theory Wait_List
  imports Kimojio_Prelude
begin

text \<open>
  The wait lists of \<open>kimojio/src/async_event.rs\<close>: \<open>WaitData\<close>, \<open>WaitList\<close> and the part of the
  runtime they touch. A \<open>WaitFuture\<close> creates one \<open>WaitData\<close> and only ever registers it with the
  list of its own source, so a list carries the \<open>WaitData\<close> that were made for it, numbered in
  the order of creation, and the intrusive queue is a list of those numbers; the link of a
  \<open>WaitData\<close> is a flag of its own, as in \<open>LinkedListLink\<close>. A waker is the number of the task it
  wakes. The wakers that were called and the trace events that were written are logs of the
  world; what calling a waker does to the ready queues belongs to the scheduler.
\<close>

section \<open>The world of a poll\<close>

datatype canceled_error = CanceledError

datatype 'a poll = PollReady 'a | PollPending

datatype task_ready_state = Unknown | Ready | Running | Suspend | Aborted | Complete

type_synonym waker = nat

datatype trace_event = AsyncWaitStart nat nat | AsyncWaitEnd nat nat

text \<open>A reference to a \<open>WaitData\<close>: the list it was made for and its number there.\<close>

type_synonym wait_ref = "nat \<times> nat"

record current_task =
  ct_index :: nat
  ct_activity_id :: nat
  ct_state :: task_ready_state
  ct_waits :: "wait_ref list option"

record world =
  w_current :: current_task
  w_wakes :: "waker list"
  w_trace :: "(nat \<times> trace_event) list"

definition register_wait :: "wait_ref \<Rightarrow> world \<Rightarrow> world" where
  "register_wait r w =
     (case ct_waits (w_current w) of
        Some ws \<Rightarrow> w\<lparr>w_current := (w_current w)\<lparr>ct_waits := Some (ws @ [r])\<rparr>\<rparr>
      | None \<Rightarrow> w)"

section \<open>Wait data and wait lists\<close>

record wait_data =
  wd_activity_id :: nat
  wd_waker :: "waker option"
  wd_task_id :: nat
  wd_canceled :: bool
  wd_tag :: nat
  wd_linked :: bool

record wait_list =
  wl_id :: nat
  wl_nodes :: "wait_data list"
  wl_queue :: "nat list"

definition wl_update :: "nat \<Rightarrow> (wait_data \<Rightarrow> wait_data) \<Rightarrow> wait_list \<Rightarrow> wait_list" where
  "wl_update n f l = l\<lparr>wl_nodes := (wl_nodes l)[n := f (wl_nodes l ! n)]\<rparr>"

definition set_waker :: "waker \<Rightarrow> wait_data \<Rightarrow> wait_data" where
  "set_waker k d = d\<lparr>wd_waker := Some k\<rparr>"

definition wl_new :: "nat \<Rightarrow> wait_list" where
  "wl_new i = \<lparr>wl_id = i, wl_nodes = [], wl_queue = []\<rparr>"

definition wl_any_waiting :: "wait_list \<Rightarrow> bool" where
  "wl_any_waiting l \<longleftrightarrow> wl_queue l \<noteq> []"

definition wake_by_ref :: "waker option \<Rightarrow> world \<Rightarrow> world" where
  "wake_by_ref k w = (case k of Some t \<Rightarrow> w\<lparr>w_wakes := w_wakes w @ [t]\<rparr> | None \<Rightarrow> w)"

definition write_event :: "nat \<Rightarrow> trace_event \<Rightarrow> world \<Rightarrow> world" where
  "write_event i ev w = w\<lparr>w_trace := w_trace w @ [(i, ev)]\<rparr>"

definition wl_wake_one :: "wait_list \<Rightarrow> world \<Rightarrow> bool \<times> wait_list \<times> world" where
  "wl_wake_one l w =
     (case wl_queue l of
        [] \<Rightarrow> (False, l, w)
      | n # q \<Rightarrow>
          (let task = wl_nodes l ! n;
               l1 = wl_update n (\<lambda>d. d\<lparr>wd_linked := False\<rparr>) (l\<lparr>wl_queue := q\<rparr>);
               w1 = write_event (wd_task_id task) (AsyncWaitEnd (wd_tag task) (wd_activity_id task)) w in
           (True, l1, wake_by_ref (wd_waker task) w1)))"

function wl_wake_all :: "wait_list \<Rightarrow> world \<Rightarrow> wait_list \<times> world" where
  "wl_wake_all l w =
     (case wl_wake_one l w of (True, l', w') \<Rightarrow> wl_wake_all l' w' | (False, l', w') \<Rightarrow> (l', w'))"
  by auto
termination
  by (relation "measure (\<lambda>(l, _). length (wl_queue l))")
     (auto simp: wl_wake_one_def wl_update_def Let_def split: list.splits)

declare wl_wake_all.simps [simp del]

definition wl_register :: "nat \<Rightarrow> nat \<Rightarrow> nat \<Rightarrow> nat \<Rightarrow> wait_list \<Rightarrow> world \<Rightarrow> wait_list \<times> world" where
  "wl_register n task_id activity_id tag l w =
     (if \<not> wd_linked (wl_nodes l ! n)
      then (wl_update n (\<lambda>d. d\<lparr>wd_linked := True\<rparr>) (l\<lparr>wl_queue := wl_queue l @ [n]\<rparr>),
            write_event task_id (AsyncWaitStart tag activity_id) w)
      else (l, w))"

definition wl_unregister :: "nat \<Rightarrow> wait_list \<Rightarrow> wait_list" where
  "wl_unregister n l =
     (if wd_linked (wl_nodes l ! n)
      then wl_update n (\<lambda>d. d\<lparr>wd_linked := False\<rparr>) (l\<lparr>wl_queue := remove1 n (wl_queue l)\<rparr>)
      else l)"

text \<open>What canceling an I/O scope does to one of the waits registered with it.\<close>

definition cancel_wait :: "nat \<Rightarrow> wait_list \<Rightarrow> world \<Rightarrow> wait_list \<times> world" where
  "cancel_wait n l w =
     (let l1 = wl_update n (\<lambda>d. d\<lparr>wd_canceled := True\<rparr>) l in
      (l1, wake_by_ref (wd_waker (wl_nodes l1 ! n)) w))"

section \<open>Well-linked lists\<close>

definition wl_ok :: "wait_list \<Rightarrow> bool" where
  "wl_ok l \<longleftrightarrow> distinct (wl_queue l) \<and> (\<forall>n\<in>set (wl_queue l). n < length (wl_nodes l)) \<and>
     (\<forall>n<length (wl_nodes l). wd_linked (wl_nodes l ! n) \<longleftrightarrow> n \<in> set (wl_queue l))"

lemma wl_update_simps [simp]:
  "wl_queue (wl_update n f l) = wl_queue l" "wl_id (wl_update n f l) = wl_id l"
  "length (wl_nodes (wl_update n f l)) = length (wl_nodes l)"
  "m < length (wl_nodes l) \<Longrightarrow>
     wl_nodes (wl_update n f l) ! m = (if m = n then f (wl_nodes l ! m) else wl_nodes l ! m)"
  by (auto simp: wl_update_def nth_list_update)

lemma wl_update_field: "(\<And>d. g (f d) = g d) \<Longrightarrow> g (wl_nodes (wl_update n f l) ! m) = g (wl_nodes l ! m)"
  by (cases "n < length (wl_nodes l)"; cases "m = n") (simp_all add: wl_update_def list_update_beyond)

lemmas wl_update_fields [simp] =
  wl_update_field [of wd_canceled "\<lambda>d. d\<lparr>wd_linked := b\<rparr>" for b, simplified]
  wl_update_field [of wd_waker "\<lambda>d. d\<lparr>wd_linked := b\<rparr>" for b, simplified]

lemma wl_ok_new [simp]: "wl_ok (wl_new i)"
  by (simp add: wl_ok_def wl_new_def)

lemma wl_ok_wake_one:
  "wl_ok l \<Longrightarrow> wl_wake_one l w = (b, l', w') \<Longrightarrow> wl_ok l'"
  by (auto simp: wl_ok_def wl_wake_one_def Let_def split: list.splits if_splits)

lemma wl_ok_register:
  "wl_ok l \<Longrightarrow> n < length (wl_nodes l) \<Longrightarrow> wl_register n i a t l w = (l', w') \<Longrightarrow> wl_ok l'"
  by (auto simp: wl_ok_def wl_register_def split: if_splits)

lemma wl_ok_unregister: "wl_ok l \<Longrightarrow> n < length (wl_nodes l) \<Longrightarrow> wl_ok (wl_unregister n l)"
  by (auto simp: wl_ok_def wl_unregister_def)

lemma wl_ok_cancel: "wl_ok l \<Longrightarrow> cancel_wait n l w = (l', w') \<Longrightarrow> wl_ok l'"
  by (auto simp: wl_ok_def cancel_wait_def Let_def split: if_splits)

definition unlinked :: "wait_data \<Rightarrow> wait_data" where
  "unlinked d = d\<lparr>wd_linked := False\<rparr>"

definition waker_log :: "wait_list \<Rightarrow> waker list" where
  "waker_log l = concat (map (\<lambda>n. case wd_waker (wl_nodes l ! n) of Some k \<Rightarrow> [k] | None \<Rightarrow> []) (wl_queue l))"

lemma wake_by_ref_simps [simp]:
  "w_wakes (wake_by_ref k w) = w_wakes w @ (case k of Some t \<Rightarrow> [t] | None \<Rightarrow> [])"
  "w_current (wake_by_ref k w) = w_current w"
  by (simp_all add: wake_by_ref_def split: option.splits)

lemma write_event_simps [simp]:
  "w_wakes (write_event i ev w) = w_wakes w" "w_current (write_event i ev w) = w_current w"
  by (simp_all add: write_event_def)

lemma wake_all_effect:
  assumes "wl_ok l"
  shows "\<exists>w'. wl_wake_all l w = (l\<lparr>wl_queue := [], wl_nodes := map unlinked (wl_nodes l)\<rparr>, w') \<and>
    w_wakes w' = w_wakes w @ waker_log l \<and> w_current w' = w_current w"
  using assms
proof (induction "wl_queue l" arbitrary: l w)
  case Nil
  then have "map unlinked (wl_nodes l) = wl_nodes l"
    by (intro nth_equalityI) (auto simp: wl_ok_def unlinked_def)
  with Nil show ?case
    by (subst wl_wake_all.simps) (cases l, auto simp: wl_wake_one_def waker_log_def)
next
  case (Cons n q)
  have q: "wl_queue l = n # q" using Cons.hyps(2) by simp
  obtain b l1 w1 where one: "wl_wake_one l w = (b, l1, w1)" by (cases "wl_wake_one l w")
  have ok: "wl_ok l1" using wl_ok_wake_one [OF Cons.prems one] .
  have n: "n < length (wl_nodes l)" "n \<notin> set q" "\<forall>m\<in>set q. m < length (wl_nodes l)"
    using Cons.prems by (auto simp: wl_ok_def q)
  have l1: "b" "wl_queue l1 = q" "l1 = wl_update n (\<lambda>d. d\<lparr>wd_linked := False\<rparr>) (l\<lparr>wl_queue := q\<rparr>)"
    and w1: "w_wakes w1 = w_wakes w @ (case wd_waker (wl_nodes l ! n) of Some k \<Rightarrow> [k] | None \<Rightarrow> [])"
      "w_current w1 = w_current w"
    using one by (auto simp: wl_wake_one_def Let_def q)
  from Cons.hyps(1) [OF l1(2) [symmetric] ok] obtain w' where w':
    "wl_wake_all l1 w1 = (l1\<lparr>wl_queue := [], wl_nodes := map unlinked (wl_nodes l1)\<rparr>, w')"
    "w_wakes w' = w_wakes w1 @ waker_log l1" "w_current w' = w_current w1" by blast
  have log: "waker_log l = (case wd_waker (wl_nodes l ! n) of Some k \<Rightarrow> [k] | None \<Rightarrow> []) @ waker_log l1"
  proof -
    have "wd_waker (wl_nodes l1 ! m) = wd_waker (wl_nodes l ! m)" if "m \<in> set q" for m
      using that n l1(3) by auto
    then have "map (\<lambda>m. case wd_waker (wl_nodes l1 ! m) of Some k \<Rightarrow> [k] | None \<Rightarrow> []) q =
        map (\<lambda>m. case wd_waker (wl_nodes l ! m) of Some k \<Rightarrow> [k] | None \<Rightarrow> []) q" by simp
    then show ?thesis unfolding waker_log_def l1(2) q list.map concat.simps by (simp only:)
  qed
  have nodes: "map unlinked (wl_nodes l1) = map unlinked (wl_nodes l)"
    using n(1) l1(3) by (intro nth_equalityI) (auto simp: unlinked_def)
  have "l1\<lparr>wl_queue := [], wl_nodes := map unlinked (wl_nodes l1)\<rparr> =
      l\<lparr>wl_queue := [], wl_nodes := map unlinked (wl_nodes l)\<rparr>"
    unfolding nodes using l1(3) by (simp add: wl_update_def)
  moreover have "wl_wake_all l w = wl_wake_all l1 w1"
    using one l1(1) by (subst wl_wake_all.simps) simp
  ultimately show ?case using w1 w' log by simp
qed

lemma wake_all_more: "wl_wake_all l w = (l', w') \<Longrightarrow> set (w_wakes w) \<subseteq> set (w_wakes w')"
proof (induction l w arbitrary: l' w' rule: wl_wake_all.induct)
  case (1 l w)
  obtain b l1 w1 where one: "wl_wake_one l w = (b, l1, w1)" by (cases "wl_wake_one l w")
  have "set (w_wakes w) \<subseteq> set (w_wakes w1)"
    using one by (auto simp: wl_wake_one_def Let_def split: list.splits)
  with 1 one show ?case by (cases b) (force simp: wl_wake_all.simps [of l w])+
qed

section \<open>Waiting futures\<close>

text \<open>
  \<open>room l K F\<close>: the futures that wait on the list are \<open>dom F\<close>, future \<open>i\<close> with the \<open>WaitData\<close>
  numbered \<open>F i\<close>, whose waker wakes task \<open>i\<close>. A waiting future that is not in the queue, or
  that was canceled, has been woken: \<open>K\<close> holds the tasks woken and not polled since.
\<close>

definition room :: "wait_list \<Rightarrow> nat set \<Rightarrow> (nat \<rightharpoonup> nat) \<Rightarrow> bool" where
  "room l K F \<longleftrightarrow> wl_ok l \<and> (\<forall>i j n. F i = Some n \<longrightarrow> F j = Some n \<longrightarrow> i = j) \<and>
     (\<forall>i n. F i = Some n \<longrightarrow> n < length (wl_nodes l) \<and> wd_waker (wl_nodes l ! n) = Some i \<and>
        (n \<notin> set (wl_queue l) \<or> wd_canceled (wl_nodes l ! n) \<longrightarrow> i \<in> K))"

definition deliver :: "nat \<Rightarrow> current_task \<Rightarrow> world \<Rightarrow> world" where
  "deliver i c w = w\<lparr>w_current := c, w_wakes := filter (\<lambda>k. k \<noteq> i) (w_wakes w)\<rparr>"

abbreviation woken :: "world \<Rightarrow> nat set" where
  "woken w \<equiv> set (w_wakes w)"

lemma deliver_simps [simp]: "woken (deliver i c w) = woken w - {i}" "w_current (deliver i c w) = c"
  by (auto simp: deliver_def)

lemma room_deliver: "room l K F \<Longrightarrow> room l (K - {i}) (F(i := None))"
  by (auto simp: room_def split: if_splits)

lemma room_forget: "room l K F \<Longrightarrow> room l K (F(i := None))"
  by (auto simp: room_def split: if_splits)

lemma room_more: "room l K F \<Longrightarrow> K \<subseteq> K' \<Longrightarrow> room l K' F"
  by (auto simp: room_def)

lemma room_empty [simp]: "room (wl_new i) K Map.empty"
  by (simp add: room_def)

lemma room_wl_ok: "room l K F \<Longrightarrow> wl_ok l"
  by (simp add: room_def)

lemma room_inj: "room l K F \<Longrightarrow> F i = Some n \<Longrightarrow> F j = Some n \<Longrightarrow> i = j"
  by (auto simp: room_def split: if_splits)

lemma room_D:
  assumes "room l K F" "F i = Some n"
  shows "n < length (wl_nodes l)" "wd_waker (wl_nodes l ! n) = Some i"
    "n \<notin> set (wl_queue l) \<or> wd_canceled (wl_nodes l ! n) \<Longrightarrow> i \<in> K"
  using assms unfolding room_def by blast+

lemma room_update:
  assumes "room l K F" "n \<notin> ran F" "\<And>d. wd_linked (f d) = wd_linked d"
  shows "room (wl_update n f l) K F"
  using assms by (auto simp: room_def wl_ok_def ran_def)

lemma room_alloc:
  "room l K F \<Longrightarrow> \<not> wd_linked d \<Longrightarrow> room (l\<lparr>wl_nodes := wl_nodes l @ [d]\<rparr>) K F"
  by (auto simp: room_def wl_ok_def nth_append less_Suc_eq)

lemma room_unregister:
  assumes "room l K F" "n \<notin> ran F" "n < length (wl_nodes l)"
  shows "room (wl_unregister n l) K F" "wl_queue (wl_unregister n l) = remove1 n (wl_queue l)"
proof -
  show "wl_queue (wl_unregister n l) = remove1 n (wl_queue l)"
    using assms by (auto simp: room_def wl_ok_def wl_unregister_def remove1_idem)
  have "wl_ok (wl_unregister n l)" using assms wl_ok_unregister room_wl_ok by blast
  then show "room (wl_unregister n l) K F"
    using assms by (auto simp: room_def wl_unregister_def ran_def)
qed

lemma room_register:
  assumes "room l K (F(i := None))" "n \<notin> ran (F(i := None))" "n < length (wl_nodes l)"
    "wd_waker (wl_nodes l ! n) = Some i" "\<not> wd_canceled (wl_nodes l ! n)"
    "wl_register n t a g l w = (l', w')"
  shows "room l' K (F(i \<mapsto> n))" "wl_id l' = wl_id l" "w_wakes w' = w_wakes w" "w_current w' = w_current w"
    "wl_queue l' = (if n \<in> set (wl_queue l) then wl_queue l else wl_queue l @ [n])"
    "\<And>m. wd_canceled (wl_nodes l' ! m) = wd_canceled (wl_nodes l ! m)"
    "length (wl_nodes l') = length (wl_nodes l)"
proof -
  have lk: "wd_linked (wl_nodes l ! n) = (n \<in> set (wl_queue l))"
    using room_wl_ok [OF assms(1)] assms(3) by (simp add: wl_ok_def)
  have inj: "j = k" if "(F(i \<mapsto> n)) j = Some m" "(F(i \<mapsto> n)) k = Some m" for j k m
  proof (cases "j = i \<or> k = i")
    case True
    with that assms(2) show ?thesis by (auto simp: ran_def split: if_splits)
  next
    case False
    with that room_inj [OF assms(1), of j m k] show ?thesis by simp
  qed
  have ok: "wl_ok l'" using wl_ok_register [OF room_wl_ok [OF assms(1)] assms(3,6)] .
  show q: "wl_queue l' = (if n \<in> set (wl_queue l) then wl_queue l else wl_queue l @ [n])"
    using assms(6) lk by (auto simp: wl_register_def split: if_splits)
  show nodes: "wd_canceled (wl_nodes l' ! m) = wd_canceled (wl_nodes l ! m)"
    "length (wl_nodes l') = length (wl_nodes l)" for m
    using assms(6) by (cases "wd_linked (wl_nodes l ! n)"; clarsimp simp: wl_register_def)+
  have waker: "wd_waker (wl_nodes l' ! m) = wd_waker (wl_nodes l ! m)" for m
    using assms(6) by (auto simp: wl_register_def split: if_splits)
  show "room l' K (F(i \<mapsto> n))"
    unfolding room_def
  proof (intro conjI allI impI ok)
    fix j k m assume "(F(i \<mapsto> n)) j = Some m" "(F(i \<mapsto> n)) k = Some m"
    then show "j = k" by (rule inj)
  next
    fix j m assume j: "(F(i \<mapsto> n)) j = Some m"
    have r: "m < length (wl_nodes l) \<and> wd_waker (wl_nodes l ! m) = Some j \<and>
        (m \<notin> set (wl_queue l) \<or> wd_canceled (wl_nodes l ! m) \<longrightarrow> j \<in> K)" if "j \<noteq> i"
      using room_D [OF assms(1), of j m] j that by simp
    show "m < length (wl_nodes l')" using r j assms(3) nodes by (cases "j = i") simp_all
    show "wd_waker (wl_nodes l' ! m) = Some j" using r j assms(4) waker by (cases "j = i") simp_all
    assume "m \<notin> set (wl_queue l') \<or> wd_canceled (wl_nodes l' ! m)"
    then show "j \<in> K" using r j assms(5) nodes q by (cases "j = i") (simp_all split: if_splits)
  qed
  show "wl_id l' = wl_id l" "w_wakes w' = w_wakes w" "w_current w' = w_current w"
    using assms(6) by (auto simp: wl_register_def split: if_splits)
qed

lemma room_wake_all:
  assumes "room l K F" "wl_wake_all l w = (l', w')" "K = woken w"
  shows "room l' (woken w') F" "wl_queue l' = []" "wl_id l' = wl_id l" "w_current w' = w_current w"
    "woken w \<subseteq> woken w'" "wl_nodes l' = map unlinked (wl_nodes l)"
proof -
  from wake_all_effect [OF room_wl_ok [OF assms(1)], of w] assms(2)
  have l': "l' = l\<lparr>wl_queue := [], wl_nodes := map unlinked (wl_nodes l)\<rparr>"
    and w': "w_wakes w' = w_wakes w @ waker_log l" "w_current w' = w_current w" by auto
  have "i \<in> set (waker_log l)" if "F i = Some n" "n \<in> set (wl_queue l)" for i n
    using assms(1) that by (force simp: waker_log_def room_def)
  moreover have "wl_ok l'" by (auto simp: l' wl_ok_def unlinked_def)
  ultimately show "room l' (woken w') F"
    using assms(1,3) unfolding room_def l' w' by (simp add: unlinked_def) blast
qed (use wake_all_effect [OF room_wl_ok [OF assms(1)], of w] assms(2) in auto)

lemma room_wake_one:
  assumes "room l K F" "wl_wake_one l w = (b, l', w')" "K = woken w"
  shows "room l' (woken w') F" "wl_queue l' = tl (wl_queue l)" "b = (wl_queue l \<noteq> [])" "wl_id l' = wl_id l"
    "w_current w' = w_current w" "woken w \<subseteq> woken w'"
    "\<And>m. wd_canceled (wl_nodes l' ! m) = wd_canceled (wl_nodes l ! m)"
    "length (wl_nodes l') = length (wl_nodes l)"
proof -
  have ok: "wl_ok l'" using wl_ok_wake_one [OF room_wl_ok [OF assms(1)] assms(2)] .
  show "room l' (woken w') F"
  proof (cases "wl_queue l")
    case Nil
    with assms show ?thesis by (auto simp: wl_wake_one_def)
  next
    case (Cons m q)
    have l': "wl_queue l' = q" "length (wl_nodes l') = length (wl_nodes l)"
      "\<And>n. n < length (wl_nodes l) \<Longrightarrow> wd_waker (wl_nodes l' ! n) = wd_waker (wl_nodes l ! n) \<and>
         wd_canceled (wl_nodes l' ! n) = wd_canceled (wl_nodes l ! n)"
      and w': "woken w' = woken w \<union> set_option (wd_waker (wl_nodes l ! m))"
      using assms(2) Cons by (auto simp: wl_wake_one_def Let_def split: option.splits if_splits)
    have "i \<in> woken w'" if "F i = Some n" "n \<notin> set q \<or> wd_canceled (wl_nodes l ! n)" for i n
      using that assms(1,3) Cons w' by (cases "n = m") (auto simp: room_def)
    with assms(1) ok l' show ?thesis unfolding room_def by auto
  qed
  show "\<And>m. wd_canceled (wl_nodes l' ! m) = wd_canceled (wl_nodes l ! m)"
    using assms(2) by (auto simp: wl_wake_one_def Let_def split: list.splits)
qed (insert assms, auto simp: wl_wake_one_def Let_def split: list.splits)

lemma room_cancel:
  assumes "room l K F" "cancel_wait n l w = (l', w')" "K = woken w" "F i = Some n"
  shows "room l' (woken w') F" "wl_queue l' = wl_queue l" "wl_id l' = wl_id l" "woken w' = insert i (woken w)"
    "wd_canceled (wl_nodes l' ! n)" "length (wl_nodes l') = length (wl_nodes l)"
proof -
  have "wl_ok l'" using wl_ok_cancel room_wl_ok assms by blast
  then show "room l' (woken w') F"
    using assms room_inj [OF assms(1)]
    by (auto simp: room_def cancel_wait_def Let_def split: if_splits option.splits)
qed (insert assms, auto simp: cancel_wait_def Let_def room_def)

end
