(* ===== verification/Async_Event.thy ===== *)
theory Async_Event
  imports Wait_List
begin

text \<open>
  \<open>kimojio/src/async_event.rs\<close>: \<open>AsyncEvent\<close>, the \<open>WaitSource\<close> trait and \<open>WaitFuture\<close>. Every
  implementation of the trait delegates \<open>wake_all\<close>, \<open>register\<close> and \<open>unregister\<close> to one
  \<open>WaitList\<close>, so a source over a state is its \<open>is_complete\<close> and the access to that list. A
  future keeps whether its source is still there; the source itself is fixed when the future
  is made and is an argument of the operations. The tag of a wait is the address of the pinned
  future, an argument of the poll.
\<close>

section \<open>\<open>AsyncEvent\<close>\<close>

record async_event =
  ev_state :: bool
  ev_waiting_tasks :: wait_list

definition ev_with_state :: "nat \<Rightarrow> bool \<Rightarrow> async_event" where
  "ev_with_state i state = \<lparr>ev_state = state, ev_waiting_tasks = wl_new i\<rparr>"

definition ev_new :: "nat \<Rightarrow> async_event" where
  "ev_new i = ev_with_state i False"

definition ev_wake_all :: "async_event \<Rightarrow> world \<Rightarrow> async_event \<times> world" where
  "ev_wake_all e w = (case wl_wake_all (ev_waiting_tasks e) w of (l, w') \<Rightarrow> (e\<lparr>ev_waiting_tasks := l\<rparr>, w'))"

definition ev_set :: "async_event \<Rightarrow> world \<Rightarrow> async_event \<times> world" where
  "ev_set e w = ev_wake_all (e\<lparr>ev_state := True\<rparr>) w"

definition ev_is_set :: "async_event \<Rightarrow> bool" where
  "ev_is_set e = ev_state e"

fun ev_wake_n :: "nat \<Rightarrow> async_event \<Rightarrow> world \<Rightarrow> async_event \<times> world" where
  "ev_wake_n 0 e w = (e, w)"
| "ev_wake_n (Suc count) e w =
     (case wl_wake_one (ev_waiting_tasks e) w of
        (True, l, w') \<Rightarrow> ev_wake_n count (e\<lparr>ev_waiting_tasks := l\<rparr>) w'
      | (False, _) \<Rightarrow> (e, w))"

definition ev_set_wake_n :: "nat \<Rightarrow> async_event \<Rightarrow> world \<Rightarrow> async_event \<times> world" where
  "ev_set_wake_n count e w = ev_wake_n count (e\<lparr>ev_state := True\<rparr>) w"

definition ev_set_wake_one :: "async_event \<Rightarrow> world \<Rightarrow> async_event \<times> world" where
  "ev_set_wake_one e w = ev_set_wake_n 1 e w"

definition ev_reset :: "async_event \<Rightarrow> world \<Rightarrow> async_event \<times> world" where
  "ev_reset e w = ev_wake_all (e\<lparr>ev_state := False\<rparr>) w"

definition ev_any_waiting :: "async_event \<Rightarrow> bool" where
  "ev_any_waiting e = wl_any_waiting (ev_waiting_tasks e)"

section \<open>Sources and futures\<close>

record 's wait_source =
  ws_is_complete :: "'s \<Rightarrow> bool"
  ws_list :: "'s \<Rightarrow> wait_list"
  ws_set_list :: "wait_list \<Rightarrow> 's \<Rightarrow> 's"

definition ws_wake_all :: "'s wait_source \<Rightarrow> 's \<Rightarrow> world \<Rightarrow> 's \<times> world" where
  "ws_wake_all src s w = (case wl_wake_all (ws_list src s) w of (l, w') \<Rightarrow> (ws_set_list src l s, w'))"

definition ws_register :: "'s wait_source \<Rightarrow> nat \<Rightarrow> nat \<Rightarrow> nat \<Rightarrow> nat \<Rightarrow> 's \<Rightarrow> world \<Rightarrow> 's \<times> world" where
  "ws_register src n task_id activity_id tag s w =
     (case wl_register n task_id activity_id tag (ws_list src s) w of (l, w') \<Rightarrow> (ws_set_list src l s, w'))"

definition ws_unregister :: "'s wait_source \<Rightarrow> nat \<Rightarrow> 's \<Rightarrow> 's" where
  "ws_unregister src n s = ws_set_list src (wl_unregister n (ws_list src s)) s"

definition event_source :: "bool \<Rightarrow> async_event wait_source" where
  "event_source expected_state =
     \<lparr>ws_is_complete = (\<lambda>e. ev_state e = expected_state), ws_list = ev_waiting_tasks,
      ws_set_list = (\<lambda>l e. e\<lparr>ev_waiting_tasks := l\<rparr>)\<rparr>"

record wait_future =
  wf_source :: bool
  wf_wait_data :: "nat option"

definition wf_new :: wait_future where
  "wf_new = \<lparr>wf_source = True, wf_wait_data = None\<rparr>"

definition wf_is_terminated :: "wait_future \<Rightarrow> bool" where
  "wf_is_terminated f = (\<not> wf_source f)"

definition unregister_canceled_wait ::
    "'s wait_source \<Rightarrow> wait_future \<Rightarrow> 's \<Rightarrow> world \<Rightarrow> wait_future \<times> 's \<times> world" where
  "unregister_canceled_wait src f s w =
     (case wf_wait_data f of
        None \<Rightarrow> (f, s, w)
      | Some n \<Rightarrow>
          (let f1 = f\<lparr>wf_wait_data := None\<rparr> in
           if wf_source f then
             (let s1 = ws_unregister src n s in
              if ws_is_complete src s1 then (case ws_wake_all src s1 w of (s2, w2) \<Rightarrow> (f1, s2, w2))
              else (f1, s1, w))
           else (f1, s, w)))"

definition wf_drop :: "'s wait_source \<Rightarrow> wait_future \<Rightarrow> 's \<Rightarrow> world \<Rightarrow> 's \<times> world" where
  "wf_drop src f s w = snd (unregister_canceled_wait src f s w)"

record poll_context =
  cx_waker :: waker
  cx_tag :: nat

type_synonym ('a, 'f, 's) poll_result = "(panic + 'a poll) \<times> 'f \<times> 's \<times> world"

definition wf_new_wait :: "'s wait_source \<Rightarrow> poll_context \<Rightarrow> 's \<Rightarrow> world \<Rightarrow> nat \<times> 's \<times> world" where
  "wf_new_wait src cx s w =
     (let l = ws_list src s; n = length (wl_nodes l);
          task_id = ct_index (w_current w); activity_id = ct_activity_id (w_current w);
          d = \<lparr>wd_activity_id = activity_id, wd_waker = Some (cx_waker cx), wd_task_id = task_id,
               wd_canceled = False, wd_tag = cx_tag cx, wd_linked = False\<rparr> in
      case ws_register src n task_id activity_id (cx_tag cx)
             (ws_set_list src (l\<lparr>wl_nodes := wl_nodes l @ [d]\<rparr>) s) w of
        (s1, w1) \<Rightarrow> (n, s1, register_wait (wl_id l, n) w1))"

definition wf_wait_again :: "'s wait_source \<Rightarrow> poll_context \<Rightarrow> nat \<Rightarrow> 's \<Rightarrow> world \<Rightarrow> 's \<times> world" where
  "wf_wait_again src cx n s w =
     (let l = wl_update n (set_waker (cx_waker cx)) (ws_list src s); d = wl_nodes l ! n in
      case ws_register src n (wd_task_id d) (wd_activity_id d) (cx_tag cx) (ws_set_list src l s) w of
        (s1, w1) \<Rightarrow> (s1, register_wait (wl_id l, n) w1))"

definition wf_canceled :: "'s wait_source \<Rightarrow> wait_future \<Rightarrow> 's \<Rightarrow> bool" where
  "wf_canceled src f s =
     (case wf_wait_data f of Some n \<Rightarrow> wd_canceled (wl_nodes (ws_list src s) ! n) | None \<Rightarrow> False)"

definition wf_poll ::
    "'s wait_source \<Rightarrow> poll_context \<Rightarrow> wait_future \<Rightarrow> 's \<Rightarrow> world \<Rightarrow>
     (canceled_error + unit, wait_future, 's) poll_result" where
  "wf_poll src cx f s w =
     (if wf_canceled src f s then
        (let l = wl_update (the (wf_wait_data f)) (\<lambda>d. d\<lparr>wd_canceled := False\<rparr>) (ws_list src s) in
         case unregister_canceled_wait src f (ws_set_list src l s) w of
           (f1, s1, w1) \<Rightarrow> (Inr (PollReady (Inl CanceledError)), f1, s1, w1))
      else if ct_state (w_current w) = Aborted then
        (case (if wf_source f then ws_wake_all src s w else (s, w)) of
           (s1, w1) \<Rightarrow> (Inl (Panic ''Task aborted''), f, s1, w1))
      else if wf_source f then
        (if ws_is_complete src s then (Inr (PollReady (Inr ())), f\<lparr>wf_source := False\<rparr>, s, w)
         else (case wf_wait_data f of
             Some n \<Rightarrow> (case wf_wait_again src cx n s w of (s1, w1) \<Rightarrow> (Inr PollPending, f, s1, w1))
           | None \<Rightarrow> (case wf_new_wait src cx s w of
               (n, s1, w1) \<Rightarrow> (Inr PollPending, f\<lparr>wf_wait_data := Some n\<rparr>, s1, w1))))
      else (Inl (Panic ''It is not valid to poll a completed task.''), f, s, w))"

text \<open>
  The futures of \<open>wait\<close> and \<open>wait_reset\<close>, one for each state waited for. \<open>WaitAsyncEventFuture\<close>
  forgets the source a \<open>WaitFuture\<close> hands back, which is \<open>()\<close> here already.
\<close>

definition ev_wait :: wait_future where
  "ev_wait = wf_new"

definition ev_wait_reset :: wait_future where
  "ev_wait_reset = wf_new"

definition ev_wait_poll ::
    "bool \<Rightarrow> poll_context \<Rightarrow> wait_future \<Rightarrow> async_event \<Rightarrow> world \<Rightarrow>
     (canceled_error + unit, wait_future, async_event) poll_result" where
  "ev_wait_poll expected_state cx f e w =
     (case wf_poll (event_source expected_state) cx f e w of
        (Inr (PollReady (Inr _)), r) \<Rightarrow> (Inr (PollReady (Inr ())), r)
      | (Inr (PollReady (Inl _)), r) \<Rightarrow> (Inr (PollReady (Inl CanceledError)), r)
      | (Inr PollPending, r) \<Rightarrow> (Inr PollPending, r)
      | (Inl p, r) \<Rightarrow> (Inl p, r))"

section \<open>What a source promises\<close>

text \<open>
  The contract of \<open>WaitSource\<close> the futures rely on: the list is a part of the state of its own,
  and completion is read off the rest of the state.
\<close>

locale lawful_source =
  fixes src :: "'s wait_source"
  assumes get_put [simp]: "ws_list src (ws_set_list src l s) = l"
    and put_put [simp]: "ws_set_list src l (ws_set_list src l' s) = ws_set_list src l s"
    and put_get [simp]: "ws_set_list src (ws_list src s) s = s"
    and complete_put [simp]: "ws_is_complete src (ws_set_list src l s) = ws_is_complete src s"
begin

lemma unregister_effect:
  assumes "room (ws_list src s) (woken w) F" "n \<notin> ran F" "n < length (wl_nodes (ws_list src s))"
    "unregister_canceled_wait src \<lparr>wf_source = True, wf_wait_data = Some n\<rparr> s w = (f', s', w')"
  shows "\<exists>l'. s' = ws_set_list src l' s \<and> room l' (woken w') F \<and>
      wl_queue l' = (if ws_is_complete src s then [] else remove1 n (wl_queue (ws_list src s)))"
    "wf_wait_data f' = None" "woken w \<subseteq> woken w'"
proof -
  let ?l = "wl_unregister n (ws_list src s)"
  note un = room_unregister [OF assms(1-3)]
  show "\<exists>l'. s' = ws_set_list src l' s \<and> room l' (woken w') F \<and>
      wl_queue l' = (if ws_is_complete src s then [] else remove1 n (wl_queue (ws_list src s)))"
    and "woken w \<subseteq> woken w'"
  proof (atomize (full), cases "ws_is_complete src s")
    case True
    obtain l2 w2 where wake: "wl_wake_all ?l w = (l2, w2)" by (cases "wl_wake_all ?l w")
    from room_wake_all [OF un(1) wake refl] assms(4) True wake
    show "(\<exists>l'. s' = ws_set_list src l' s \<and> room l' (woken w') F \<and>
      wl_queue l' = (if ws_is_complete src s then [] else remove1 n (wl_queue (ws_list src s)))) \<and>
      woken w \<subseteq> woken w'"
      by (auto simp: unregister_canceled_wait_def ws_unregister_def ws_wake_all_def Let_def)
  next
    case False
    with assms(4) un
    show "(\<exists>l'. s' = ws_set_list src l' s \<and> room l' (woken w') F \<and>
      wl_queue l' = (if ws_is_complete src s then [] else remove1 n (wl_queue (ws_list src s)))) \<and>
      woken w \<subseteq> woken w'"
      by (auto simp: unregister_canceled_wait_def ws_unregister_def Let_def)
  qed
  show "wf_wait_data f' = None"
    using assms(4) by (auto simp: unregister_canceled_wait_def Let_def split: if_splits prod.splits)
qed

lemma drop_effect:
  assumes "room (ws_list src s) (woken w) F" "F i = Some n"
    "wf_drop src \<lparr>wf_source = True, wf_wait_data = Some n\<rparr> s w = (s', w')"
  shows "\<exists>l'. s' = ws_set_list src l' s \<and> room l' (woken w') (F(i := None)) \<and>
    wl_queue l' = (if ws_is_complete src s then [] else remove1 n (wl_queue (ws_list src s))) \<and>
    woken w \<subseteq> woken w'"
proof -
  obtain f' where "unregister_canceled_wait src \<lparr>wf_source = True, wf_wait_data = Some n\<rparr> s w = (f', s', w')"
    using assms(3) by (cases "unregister_canceled_wait src \<lparr>wf_source = True, wf_wait_data = Some n\<rparr> s w")
      (auto simp: wf_drop_def)
  moreover have "n \<notin> ran (F(i := None))"
    using assms(2) room_inj [OF assms(1)] by (auto simp: ran_def split: if_splits)
  ultimately show ?thesis
    using unregister_effect(1,3) room_forget [OF assms(1)] room_D(1) [OF assms(1,2)] by blast
qed

lemma poll_waiting:
  assumes "room (ws_list src s) (woken w) F" "F (cx_waker cx) = Some n"
    "wf_poll src cx \<lparr>wf_source = True, wf_wait_data = Some n\<rparr> s (deliver (cx_waker cx) c w) = (r, f', s', w')"
  obtains
    (canceled) l' where "r = Inr (PollReady (Inl CanceledError))" "wf_wait_data f' = None"
      "s' = ws_set_list src l' s" "room l' (woken w') (F(cx_waker cx := None))"
      "wl_queue l' = (if ws_is_complete src s then [] else remove1 n (wl_queue (ws_list src s)))"
      "woken w - {cx_waker cx} \<subseteq> woken w'"
  | (aborted) l' where "r = Inl (Panic ''Task aborted'')" "f' = \<lparr>wf_source = True, wf_wait_data = Some n\<rparr>"
      "s' = ws_set_list src l' s" "room l' (woken w') (F(cx_waker cx := None))" "wl_queue l' = []"
      "length (wl_nodes l') = length (wl_nodes (ws_list src s))" "woken w - {cx_waker cx} \<subseteq> woken w'"
  | (ready) "ws_is_complete src s" "r = Inr (PollReady (Inr ()))" "s' = s" "w' = deliver (cx_waker cx) c w"
      "f' = \<lparr>wf_source = False, wf_wait_data = Some n\<rparr>" "\<not> wd_canceled (wl_nodes (ws_list src s) ! n)"
  | (pending) l' where "\<not> ws_is_complete src s" "r = Inr PollPending"
      "f' = \<lparr>wf_source = True, wf_wait_data = Some n\<rparr>" "s' = ws_set_list src l' s" "room l' (woken w') F"
      "wl_queue l' = (if n \<in> set (wl_queue (ws_list src s)) then wl_queue (ws_list src s)
                      else wl_queue (ws_list src s) @ [n])"
      "woken w - {cx_waker cx} \<subseteq> woken w'"
proof -
  let ?i = "cx_waker cx" and ?l = "ws_list src s" and ?w = "deliver (cx_waker cx) c w"
  let ?f = "\<lparr>wf_source = True, wf_wait_data = Some n\<rparr>" and ?F = "F(cx_waker cx := None)"
  have n: "n < length (wl_nodes ?l)" "n \<notin> ran ?F"
    using room_D(1) [OF assms(1,2)] room_inj [OF assms(1) assms(2)]
    by (auto simp: ran_def split: if_splits)
  have room: "room ?l (woken ?w) ?F" using room_deliver [OF assms(1)] by simp
  consider "wd_canceled (wl_nodes ?l ! n)" | "\<not> wd_canceled (wl_nodes ?l ! n)" "ct_state c = Aborted"
    | "\<not> wd_canceled (wl_nodes ?l ! n)" "ct_state c \<noteq> Aborted" "ws_is_complete src s"
    | "\<not> wd_canceled (wl_nodes ?l ! n)" "ct_state c \<noteq> Aborted" "\<not> ws_is_complete src s" by blast
  then show thesis
  proof cases
    case 1
    let ?s = "ws_set_list src (wl_update n (\<lambda>d. d\<lparr>wd_canceled := False\<rparr>) ?l) s"
    have r: "room (ws_list src ?s) (woken ?w) ?F" "n < length (wl_nodes (ws_list src ?s))"
      using room_update [OF room n(2)] n(1) by simp_all
    obtain f1 s1 w1 where un: "unregister_canceled_wait src ?f ?s ?w = (f1, s1, w1)"
      by (cases "unregister_canceled_wait src ?f ?s ?w")
    with 1 assms(3) have eq: "r = Inr (PollReady (Inl CanceledError))" "f' = f1" "s' = s1" "w' = w1"
      by (auto simp: wf_poll_def wf_canceled_def)
    from unregister_effect [OF r(1) n(2) r(2) un] eq show thesis by (auto intro: canceled)
  next
    case 2
    obtain l1 w1 where wake: "wl_wake_all ?l ?w = (l1, w1)" by (cases "wl_wake_all ?l ?w")
    from room_wake_all [OF room wake refl] 2 assms(3) wake show thesis
      by (intro aborted [of l1]) (auto simp: wf_poll_def wf_canceled_def ws_wake_all_def)
  next
    case 3
    with assms(3) show thesis by (intro ready) (auto simp: wf_poll_def wf_canceled_def)
  next
    case 4
    let ?l1 = "wl_update n (set_waker ?i) ?l"
    have r: "room ?l1 (woken ?w) ?F" using room_update [OF room n(2)] by (simp add: set_waker_def)
    obtain l2 w2 where reg: "wl_register n (wd_task_id (wl_nodes ?l1 ! n)) (wd_activity_id (wl_nodes ?l1 ! n))
        (cx_tag cx) ?l1 ?w = (l2, w2)" by fastforce
    have "wd_waker (wl_nodes ?l1 ! n) = Some ?i" "\<not> wd_canceled (wl_nodes ?l1 ! n)"
      using n(1) 4 by (simp_all add: set_waker_def)
    note re = room_register [OF r n(2) _ this reg]
    have "F(?i \<mapsto> n) = F" using assms(2) by auto
    moreover have "woken (register_wait x w2) = woken w2" for x
      by (simp add: register_wait_def split: option.splits)
    ultimately show thesis
      using 4 assms(3) reg re n(1)
      by (intro pending [of l2]) (auto simp: wf_poll_def wf_canceled_def wf_wait_again_def ws_register_def Let_def)
  qed
qed

lemma poll_new:
  assumes "room (ws_list src s) (woken w) F" "F (cx_waker cx) = None"
    "wf_poll src cx wf_new s w = (r, f', s', w')"
  obtains
    (aborted) l' where "r = Inl (Panic ''Task aborted'')" "f' = wf_new"
      "s' = ws_set_list src l' s" "room l' (woken w') F" "wl_queue l' = []" "woken w \<subseteq> woken w'"
  | (ready) "ws_is_complete src s" "r = Inr (PollReady (Inr ()))" "s' = s" "w' = w"
      "f' = \<lparr>wf_source = False, wf_wait_data = None\<rparr>"
  | (pending) l' n where "\<not> ws_is_complete src s" "r = Inr PollPending"
      "f' = \<lparr>wf_source = True, wf_wait_data = Some n\<rparr>" "s' = ws_set_list src l' s"
      "room l' (woken w') (F(cx_waker cx \<mapsto> n))" "wl_queue l' = wl_queue (ws_list src s) @ [n]"
      "woken w \<subseteq> woken w'"
proof -
  let ?i = "cx_waker cx" and ?l = "ws_list src s"
  consider "ct_state (w_current w) = Aborted"
    | "ct_state (w_current w) \<noteq> Aborted" "ws_is_complete src s"
    | "ct_state (w_current w) \<noteq> Aborted" "\<not> ws_is_complete src s" by blast
  then show thesis
  proof cases
    case 1
    obtain l1 w1 where wake: "wl_wake_all ?l w = (l1, w1)" by (cases "wl_wake_all ?l w")
    from room_wake_all [OF assms(1) wake refl] 1 assms(3) wake show thesis
      by (intro aborted [of l1]) (auto simp: wf_poll_def wf_canceled_def ws_wake_all_def wf_new_def)
  next
    case 2
    with assms(3) show thesis by (intro ready) (auto simp: wf_poll_def wf_canceled_def wf_new_def)
  next
    case 3
    let ?n = "length (wl_nodes ?l)"
    let ?d = "\<lparr>wd_activity_id = ct_activity_id (w_current w), wd_waker = Some ?i, wd_task_id = ct_index (w_current w),
               wd_canceled = False, wd_tag = cx_tag cx, wd_linked = False\<rparr>"
    let ?l1 = "?l\<lparr>wl_nodes := wl_nodes ?l @ [?d]\<rparr>"
    have F: "F(?i := None) = F" using assms(2) by auto
    have r: "room ?l1 (woken w) F" using room_alloc [OF assms(1), of ?d] by simp
    obtain l2 w2 where reg: "wl_register ?n (ct_index (w_current w)) (ct_activity_id (w_current w))
        (cx_tag cx) ?l1 w = (l2, w2)" by fastforce
    have "?n \<notin> ran F" using room_D(1) [OF assms(1)] by (auto simp: ran_def)
    then have re: "room l2 (woken w) (F(?i \<mapsto> ?n))" "w_wakes w2 = w_wakes w"
      "wl_queue l2 = (if ?n \<in> set (wl_queue ?l) then wl_queue ?l else wl_queue ?l @ [?n])"
      using room_register [of ?l1 "woken w" F ?i ?n, OF _ _ _ _ _ reg] r F by simp_all
    have "?n \<notin> set (wl_queue ?l)" using room_wl_ok [OF assms(1)] by (auto simp: wl_ok_def)
    moreover have "woken (register_wait x w2) = woken w2" for x
      by (simp add: register_wait_def split: option.splits)
    ultimately show thesis
      using 3 assms(3) reg re
      by (intro pending [of ?n l2]) (auto simp: wf_poll_def wf_canceled_def wf_new_wait_def wf_new_def ws_register_def Let_def)
  qed
qed

end

interpretation ev_source: lawful_source "event_source b"
  by unfold_locales (simp_all add: event_source_def)

lemma event_source_simps [simp]:
  "ws_is_complete (event_source b) e \<longleftrightarrow> ev_state e = b"
  "ws_list (event_source b) = ev_waiting_tasks"
  "ws_set_list (event_source b) l e = e\<lparr>ev_waiting_tasks := l\<rparr>"
  by (simp_all add: event_source_def)

lemma ev_wait_poll_eq: "ev_wait_poll b = wf_poll (event_source b)"
proof (intro ext)
  fix cx f e w
  have eq: "CanceledError = x" for x by (cases x) simp
  show "ev_wait_poll b cx f e w = wf_poll (event_source b) cx f e w"
    by (auto simp: ev_wait_poll_def split: prod.splits sum.splits poll.splits intro: eq)
qed

section \<open>Effects of the event operations\<close>

lemma ev_reset_effect:
  "ev_reset e w = (e', w') \<longleftrightarrow>
     wl_wake_all (ev_waiting_tasks e) w = (ev_waiting_tasks e', w') \<and> \<not> ev_state e'"
  by (cases e'; cases e) (auto simp: ev_reset_def ev_wake_all_def split: prod.splits)

lemma ev_set_effect:
  "ev_set e w = (e', w') \<longleftrightarrow>
     wl_wake_all (ev_waiting_tasks e) w = (ev_waiting_tasks e', w') \<and> ev_state e'"
  by (cases e'; cases e) (auto simp: ev_set_def ev_wake_all_def split: prod.splits)

lemma ev_set_wake_one_effect:
  assumes "ev_set_wake_one e w = (e', w')"
  shows "ev_state e'" "\<exists>b. wl_wake_one (ev_waiting_tasks e) w = (b, ev_waiting_tasks e', w')"
proof -
  obtain b l1 w1 where wake: "wl_wake_one (ev_waiting_tasks e) w = (b, l1, w1)"
    by (cases "wl_wake_one (ev_waiting_tasks e) w")
  have "\<not> b \<Longrightarrow> l1 = ev_waiting_tasks e \<and> w1 = w"
    using wake by (auto simp: wl_wake_one_def Let_def split: list.splits)
  then show "ev_state e'" "\<exists>b. wl_wake_one (ev_waiting_tasks e) w = (b, ev_waiting_tasks e', w')"
    using assms wake by (auto simp: ev_set_wake_one_def ev_set_wake_n_def numeral_eq_Suc split: bool.splits)
qed

lemma wl_new_queue [simp]: "wl_queue (wl_new i) = []"
  by (simp add: wl_new_def)

lemma ev_set_new: "ev_set (ev_new i) w = (ev_with_state i True, w)"
  by (simp add: ev_set_def ev_new_def ev_with_state_def ev_wake_all_def wl_wake_all.simps wl_wake_one_def)

text \<open>A task and a world to start from.\<close>

definition idle_task :: current_task where
  "idle_task = \<lparr>ct_index = 1, ct_activity_id = 0, ct_state = Running, ct_waits = None\<rparr>"

definition idle_world :: world where
  "idle_world = \<lparr>w_current = idle_task, w_wakes = [], w_trace = []\<rparr>"

end
