(* ===== verification/Event_Runs.thy ===== *)
theory Event_Runs
  imports Async_Event
begin

text \<open>
  Runs of an event: any number of futures of \<open>wait\<close> and \<open>wait_reset\<close>, each in a task of its
  own, with polls, drops, cancellations and the operations that set and reset the event in any
  order. A future that has returned is dropped. The invariant is the \<open>room\<close> of the wait list.
\<close>

section \<open>Runs\<close>

record event_run =
  er_event :: async_event
  er_world :: world
  er_futures :: "nat \<rightharpoonup> bool \<times> wait_future"

inductive event_step :: "event_run \<Rightarrow> event_run \<Rightarrow> bool" where
  wait: "er_futures y i = None \<Longrightarrow>
    event_step y (y\<lparr>er_futures := (er_futures y)(i \<mapsto> (b, if b then ev_wait else ev_wait_reset))\<rparr>)"
| pend: "er_futures y i = Some (b, f) \<Longrightarrow>
    ev_wait_poll b \<lparr>cx_waker = i, cx_tag = g\<rparr> f (er_event y) (deliver i c (er_world y)) =
      (Inr PollPending, f', e', w') \<Longrightarrow>
    event_step y (y\<lparr>er_event := e', er_world := w', er_futures := (er_futures y)(i \<mapsto> (b, f'))\<rparr>)"
| finish: "er_futures y i = Some (b, f) \<Longrightarrow>
    ev_wait_poll b \<lparr>cx_waker = i, cx_tag = g\<rparr> f (er_event y) (deliver i c (er_world y)) =
      (r, f', e1, w1) \<Longrightarrow> r \<noteq> Inr PollPending \<Longrightarrow>
    wf_drop (event_source b) f' e1 w1 = (e', w') \<Longrightarrow>
    event_step y (y\<lparr>er_event := e', er_world := w', er_futures := (er_futures y)(i := None)\<rparr>)"
| leave: "er_futures y i = Some (b, f) \<Longrightarrow>
    wf_drop (event_source b) f (er_event y) (er_world y) = (e', w') \<Longrightarrow>
    event_step y (y\<lparr>er_event := e', er_world := w', er_futures := (er_futures y)(i := None)\<rparr>)"
| cancel: "er_futures y i = Some (b, f) \<Longrightarrow> wf_wait_data f = Some n \<Longrightarrow>
    cancel_wait n (ev_waiting_tasks (er_event y)) (er_world y) = (l', w') \<Longrightarrow>
    event_step y (y\<lparr>er_event := (er_event y)\<lparr>ev_waiting_tasks := l'\<rparr>, er_world := w'\<rparr>)"
| set: "ev_set (er_event y) (er_world y) = (e', w') \<Longrightarrow>
    event_step y (y\<lparr>er_event := e', er_world := w'\<rparr>)"
| set_some: "ev_set_wake_n k (er_event y) (er_world y) = (e', w') \<Longrightarrow>
    event_step y (y\<lparr>er_event := e', er_world := w'\<rparr>)"
| reset: "ev_reset (er_event y) (er_world y) = (e', w') \<Longrightarrow>
    event_step y (y\<lparr>er_event := e', er_world := w'\<rparr>)"

definition er_start :: "nat \<Rightarrow> bool \<Rightarrow> world \<Rightarrow> event_run" where
  "er_start i b w = \<lparr>er_event = ev_with_state i b, er_world = w, er_futures = Map.empty\<rparr>"

definition er_waiting :: "(nat \<rightharpoonup> bool \<times> wait_future) \<Rightarrow> nat \<rightharpoonup> nat" where
  "er_waiting futs i = (case futs i of Some (_, f) \<Rightarrow> wf_wait_data f | None \<Rightarrow> None)"

definition er_inv :: "event_run \<Rightarrow> bool" where
  "er_inv y \<longleftrightarrow> room (ev_waiting_tasks (er_event y)) (woken (er_world y)) (er_waiting (er_futures y)) \<and>
     (\<forall>i b f. er_futures y i = Some (b, f) \<longrightarrow> wf_source f)"


lemma er_waiting_upd [simp]:
  "er_waiting (futs(i := None)) = (er_waiting futs)(i := None)"
  "er_waiting (futs(i \<mapsto> (b, f))) = (er_waiting futs)(i := wf_wait_data f)"
  by (auto simp: er_waiting_def fun_eq_iff)

lemma ev_wake_n_room:
  assumes "ev_wake_n k e w = (e', w')" "room (ev_waiting_tasks e) (woken w) F"
  shows "room (ev_waiting_tasks e') (woken w') F"
  using assms
proof (induction k e w rule: ev_wake_n.induct)
  case (2 k e w)
  obtain b l1 w1 where one: "wl_wake_one (ev_waiting_tasks e) w = (b, l1, w1)"
    by (cases "wl_wake_one (ev_waiting_tasks e) w")
  with 2 room_wake_one(1) [OF 2(3) one refl] show ?case by (cases b) auto
qed auto

lemma wf_drop_room:
  assumes "room (ev_waiting_tasks e) (woken w) F" "wf_drop (event_source b) f e w = (e', w')" "wf_source f"
    "F i = wf_wait_data f"
  shows "room (ev_waiting_tasks e') (woken w') (F(i := None))"
proof (cases "wf_wait_data f")
  case None
  with assms show ?thesis by (auto simp: wf_drop_def unregister_canceled_wait_def intro: room_forget)
next
  case (Some n)
  then have "f = \<lparr>wf_source = True, wf_wait_data = Some n\<rparr>" using assms(3) by (cases f) simp
  with ev_source.drop_effect [of b e w F i n e' w'] assms Some show ?thesis by auto
qed

lemma wf_poll_pending_room:
  assumes "room (ev_waiting_tasks e) (woken w) F" "F i = wf_wait_data f" "wf_source f"
    "wf_poll (event_source b) \<lparr>cx_waker = i, cx_tag = g\<rparr> f e (deliver i c w) = (Inr PollPending, f', e', w')"
  shows "room (ev_waiting_tasks e') (woken w') (F(i := wf_wait_data f'))" "wf_source f'"
proof -
  have "room (ev_waiting_tasks e') (woken w') (F(i := wf_wait_data f')) \<and> wf_source f'"
  proof (cases "wf_wait_data f")
    case None
    then have f: "f = wf_new" using assms(3) by (cases f) (simp add: wf_new_def)
    have "room (ws_list (event_source b) e) (woken (deliver i c w)) (F(i := None))"
      using room_deliver [OF assms(1), of i] by simp
    from this _ assms(4) [unfolded f] show ?thesis
      by (rule ev_source.poll_new) simp_all
  next
    case (Some n)
    then have f: "f = \<lparr>wf_source = True, wf_wait_data = Some n\<rparr>" using assms(3) by (cases f) simp
    have "room (ws_list (event_source b) e) (woken w) F" "F (cx_waker \<lparr>cx_waker = i, cx_tag = g\<rparr>) = Some n"
      using assms(1,2) Some by simp_all
    moreover have "wf_poll (event_source b) \<lparr>cx_waker = i, cx_tag = g\<rparr> \<lparr>wf_source = True, wf_wait_data = Some n\<rparr> e
      (deliver (cx_waker \<lparr>cx_waker = i, cx_tag = g\<rparr>) c w) = (Inr PollPending, f', e', w')"
      using assms(4) f by simp
    moreover have "F(i \<mapsto> n) = F" using assms(2) Some by auto
    ultimately show ?thesis
      by (cases rule: ev_source.poll_waiting) simp_all
  qed
  then show "room (ev_waiting_tasks e') (woken w') (F(i := wf_wait_data f'))" "wf_source f'" by simp_all
qed

lemma wf_poll_finish_room:
  assumes "room (ev_waiting_tasks e) (woken w) F" "F i = wf_wait_data f" "wf_source f"
    "wf_poll (event_source b) \<lparr>cx_waker = i, cx_tag = g\<rparr> f e (deliver i c w) = (r, f', e1, w1)"
    "r \<noteq> Inr PollPending" "wf_drop (event_source b) f' e1 w1 = (e', w')"
  shows "room (ev_waiting_tasks e') (woken w') (F(i := None))"
proof -
  let ?cx = "\<lparr>cx_waker = i, cx_tag = g\<rparr>" and ?src = "event_source b"
  have room: "room (ws_list ?src e) (woken (deliver i c w)) (F(i := None))"
    using room_deliver [OF assms(1), of i] by simp
  have idle: "room (ev_waiting_tasks e') (woken w') (F(i := None))"
    if "wf_wait_data f' = None \<or> \<not> wf_source f'" "room (ev_waiting_tasks e1) (woken w1) (F(i := None))"
    using assms(6) that by (auto simp: wf_drop_def unregister_canceled_wait_def split: option.splits)
  show ?thesis
  proof (cases "wf_wait_data f")
    case None
    then have f: "f = wf_new" using assms(3) by (cases f) (simp add: wf_new_def)
    from room _ assms(4) [unfolded f] show ?thesis
      by (rule ev_source.poll_new) (use assms(5) room in \<open>auto simp: wf_new_def intro!: idle\<close>)
  next
    case (Some n)
    then have f: "f = \<lparr>wf_source = True, wf_wait_data = Some n\<rparr>" using assms(3) by (cases f) simp
    have Fi: "room (ws_list ?src e) (woken w) F" "F (cx_waker ?cx) = Some n"
      using assms(1,2) Some by simp_all
    from assms(4) f have "wf_poll ?src ?cx \<lparr>wf_source = True, wf_wait_data = Some n\<rparr> e
      (deliver (cx_waker ?cx) c w) = (r, f', e1, w1)" by simp
    from Fi this show ?thesis
    proof (cases rule: ev_source.poll_waiting)
      case (aborted l')
      have "n \<notin> ran (F(i := None))" "n < length (wl_nodes l')"
        using Fi room_inj [OF Fi(1)] room_D(1) [OF Fi] aborted(6) by (auto simp: ran_def split: if_splits)
      with aborted assms(6) ev_source.unregister_effect(1) [of b e1 w1 "F(i := None)" n]
      show ?thesis by (cases "unregister_canceled_wait ?src f' e1 w1") (fastforce simp: wf_drop_def)
    qed (use assms(5) room in \<open>auto intro!: idle\<close>)
  qed
qed

lemma er_inv_step:
  assumes "event_step y y'" "er_inv y"
  shows "er_inv y'"
  using assms
proof (cases rule: event_step.cases)
  case (pend i b f g c f' e' w')
  with assms(2) wf_poll_pending_room [of "er_event y" "er_world y" "er_waiting (er_futures y)" i f b g c f' e' w']
  show ?thesis by (auto simp: er_inv_def er_waiting_def ev_wait_poll_eq)
next
  case (finish i b f g c r f' e1 w1 e' w')
  with assms(2) wf_poll_finish_room [of "er_event y" "er_world y" "er_waiting (er_futures y)" i f b g c r f' e1 w1 e' w']
  show ?thesis by (auto simp: er_inv_def er_waiting_def ev_wait_poll_eq)
next
  case (leave i b f e' w')
  with assms(2) wf_drop_room [of "er_event y" "er_world y" "er_waiting (er_futures y)" b f e' w' i]
  show ?thesis by (auto simp: er_inv_def er_waiting_def)
next
  case (cancel i b f n l' w')
  with assms(2) room_cancel(1) [of "ev_waiting_tasks (er_event y)" "woken (er_world y)" "er_waiting (er_futures y)" n "er_world y" l' w' i]
  show ?thesis by (auto simp: er_inv_def er_waiting_def)
next
  case (set_some k e' w')
  with assms(2) ev_wake_n_room [of k "(er_event y)\<lparr>ev_state := True\<rparr>"] show ?thesis
    by (auto simp: er_inv_def ev_set_wake_n_def)
qed (auto simp: er_inv_def ev_wait_def ev_wait_reset_def wf_new_def ev_set_effect ev_reset_effect
       intro: room_forget dest: room_wake_all(1) [OF _ _ refl])

lemma er_inv_start: "er_inv (er_start i b w)"
proof -
  have "er_waiting Map.empty = Map.empty" by (simp add: er_waiting_def fun_eq_iff)
  then show ?thesis by (simp add: er_start_def er_inv_def ev_with_state_def)
qed

lemma er_inv_reachable: "event_step\<^sup>*\<^sup>* (er_start i b w) y \<Longrightarrow> er_inv y"
  by (induction rule: rtranclp_induct) (auto intro: er_inv_start er_inv_step)


section \<open>No waiter is forgotten\<close>

text \<open>
  C24: however tasks wait on an event, are canceled or give up, and however the event is set and
  reset in between, a waiting future is in the queue of the event or its task has been woken;
  \<open>set\<close> and \<open>reset\<close> both wake the task of every waiting future, and after \<open>set\<close> the next poll
  of a future of \<open>wait\<close> that was not canceled, by a task that was not aborted, returns \<open>Ok\<close>.
\<close>

theorem event_wakes_every_waiter:
  assumes "event_step\<^sup>*\<^sup>* (er_start k b0 w0) y" "er_futures y i = Some (b, f)" "wf_wait_data f = Some n"
    "ev_set (er_event y) (er_world y) = (e', w')" "ev_reset (er_event y) (er_world y) = (e'', w'')"
  shows "(n \<in> set (wl_queue (ev_waiting_tasks (er_event y))) \<or> i \<in> woken (er_world y)) \<and>
    i \<in> woken w' \<and> i \<in> woken w'' \<and>
    (b \<and> ct_state c \<noteq> Aborted \<and> \<not> wf_canceled (event_source b) f (er_event y) \<longrightarrow>
      fst (ev_wait_poll b \<lparr>cx_waker = i, cx_tag = g\<rparr> f e' (deliver i c w')) = Inr (PollReady (Inr ())))"
proof -
  have inv: "er_inv y" by (rule er_inv_reachable [OF assms(1)])
  then have room: "room (ev_waiting_tasks (er_event y)) (woken (er_world y)) (er_waiting (er_futures y))"
    and src: "wf_source f" using assms(2) by (auto simp: er_inv_def)
  have Fi: "er_waiting (er_futures y) i = Some n" using assms(2,3) by (simp add: er_waiting_def)
  have wake: "i \<in> woken w2" if "wl_wake_all (ev_waiting_tasks (er_event y)) (er_world y) = (l2, w2)" for l2 w2
    using room_D(3) [OF room_wake_all(1) [OF room that refl] Fi] room_wake_all(2) [OF room that refl] by simp
  have e': "wl_nodes (ev_waiting_tasks e') = map unlinked (wl_nodes (ev_waiting_tasks (er_event y)))" "ev_state e'"
    using assms(4) room_wake_all(6) [OF room _ refl] by (auto simp: ev_set_effect)
  have "fst (ev_wait_poll b \<lparr>cx_waker = i, cx_tag = g\<rparr> f e' (deliver i c w')) = Inr (PollReady (Inr ()))"
    if "b" "ct_state c \<noteq> Aborted" "\<not> wf_canceled (event_source b) f (er_event y)"
    using that e' src assms(3) room_D(1) [OF room Fi]
    by (auto simp: ev_wait_poll_eq wf_poll_def wf_canceled_def unlinked_def)
  moreover have "i \<in> woken w'" "i \<in> woken w''" using wake assms(4,5) by (auto simp: ev_set_effect ev_reset_effect)
  ultimately show ?thesis using room_D(3) [OF room Fi] by blast
qed

definition er_demo :: event_run where
  "er_demo = \<lparr>er_event = \<lparr>ev_state = False, ev_waiting_tasks = \<lparr>wl_id = 0, wl_nodes =
       [\<lparr>wd_activity_id = 0, wd_waker = Some 7, wd_task_id = 1, wd_canceled = False, wd_tag = 5, wd_linked = True\<rparr>],
       wl_queue = [0]\<rparr>\<rparr>,
     er_world = idle_world\<lparr>w_trace := [(1, AsyncWaitStart 5 0)]\<rparr>,
     er_futures = Map.empty(7 \<mapsto> (True, \<lparr>wf_source = True, wf_wait_data = Some 0\<rparr>))\<rparr>"

lemma er_demo_reachable: "event_step\<^sup>*\<^sup>* (er_start 0 False idle_world) er_demo"
proof -
  let ?y = "(er_start 0 False idle_world)\<lparr>er_futures := Map.empty(7 \<mapsto> (True, ev_wait))\<rparr>"
  have "event_step\<^sup>*\<^sup>* (er_start 0 False idle_world) ?y"
    using event_step.wait [of "er_start 0 False idle_world" 7 True] by (simp add: er_start_def r_into_rtranclp)
  also have "event_step ?y er_demo"
    using event_step.pend [of ?y 7 True ev_wait 5 idle_task "\<lparr>wf_source = True, wf_wait_data = Some 0\<rparr>"
      "er_event er_demo" "er_world er_demo"]
    by (simp add: er_start_def er_demo_def ev_wait_def ev_wait_poll_eq wf_poll_def wf_canceled_def wf_new_def
      wf_new_wait_def ws_register_def wl_register_def wl_new_def wl_update_def Let_def register_wait_def
      write_event_def deliver_def idle_world_def idle_task_def ev_with_state_def)
  finally show ?thesis .
qed

theorem event_wakes_every_waiter_witness:
  "7 \<in> woken (snd (ev_set (er_event er_demo) (er_world er_demo))) \<and>
   fst (ev_wait_poll True \<lparr>cx_waker = 7, cx_tag = 5\<rparr> \<lparr>wf_source = True, wf_wait_data = Some 0\<rparr>
      (fst (ev_set (er_event er_demo) (er_world er_demo)))
      (deliver 7 idle_task (snd (ev_set (er_event er_demo) (er_world er_demo))))) = Inr (PollReady (Inr ()))"
  using event_wakes_every_waiter [OF er_demo_reachable, of 7 True "\<lparr>wf_source = True, wf_wait_data = Some 0\<rparr>" 0
    "fst (ev_set (er_event er_demo) (er_world er_demo))" "snd (ev_set (er_event er_demo) (er_world er_demo))"
    "fst (ev_reset (er_event er_demo) (er_world er_demo))" "snd (ev_reset (er_event er_demo) (er_world er_demo))"
    idle_task 5]
  by (simp add: er_demo_def idle_task_def wf_canceled_def)

end
