(* ===== verification/Async_Await.thy ===== *)
theory Async_Await
  imports Async_Event
begin

text \<open>
  The shape that the asynchronous functions of the synchronisation primitives share: a loop
  that tries a step and, while the step cannot finish, awaits a \<open>WaitFuture\<close> on one source
  (\<open>while cond { event.wait().await? } rest\<close>, or \<open>loop { if let Some(x) = try()? { return x }
  wait.await? }\<close>). A future of such a function is not started, suspended in the wait, or
  finished; one poll runs until the next suspension or the result, and the wait is dropped
  when its await ends, by result, by error or by a panic that unwinds. A poll whose loop spins
  without suspending has no result, which is \<open>None\<close> here.
\<close>

section \<open>Polling a loop\<close>

datatype await_future = Unstarted | Suspended wait_future | Finished

type_synonym ('s, 'a) await_step = "'s \<Rightarrow> world \<Rightarrow> 'a option \<times> 's \<times> world"

partial_function (option) await_wait ::
    "'s wait_source \<Rightarrow> ('s, 'a) await_step \<Rightarrow> poll_context \<Rightarrow> wait_future \<Rightarrow> 's \<Rightarrow> world \<Rightarrow>
     (canceled_error + 'a, await_future, 's) poll_result option" where
  "await_wait src step cx f s w =
     (case wf_poll src cx f s w of
        (r, f1, s1, w1) \<Rightarrow>
          if r = Inr PollPending then Some (Inr PollPending, Suspended f1, s1, w1)
          else
            (case wf_drop src f1 s1 w1 of
               (s2, w2) \<Rightarrow>
                 (case r of
                    Inl p \<Rightarrow> Some (Inl p, Finished, s2, w2)
                  | Inr (PollReady (Inl e)) \<Rightarrow> Some (Inr (PollReady (Inl e)), Finished, s2, w2)
                  | _ \<Rightarrow>
                      (case step s2 w2 of
                         (Some a, s3, w3) \<Rightarrow> Some (Inr (PollReady (Inr a)), Finished, s3, w3)
                       | (None, s3, w3) \<Rightarrow> await_wait src step cx wf_new s3 w3))))"

definition await_poll ::
    "'s wait_source \<Rightarrow> ('s, 'a) await_step \<Rightarrow> poll_context \<Rightarrow> await_future \<Rightarrow> 's \<Rightarrow> world \<Rightarrow>
     (canceled_error + 'a, await_future, 's) poll_result option" where
  "await_poll src step cx fut s w =
     (case fut of
        Unstarted \<Rightarrow>
          (case step s w of
             (Some a, s1, w1) \<Rightarrow> Some (Inr (PollReady (Inr a)), Finished, s1, w1)
           | (None, s1, w1) \<Rightarrow> await_wait src step cx wf_new s1 w1)
      | Suspended f \<Rightarrow> await_wait src step cx f s w
      | Finished \<Rightarrow> Some (Inl (Panic ''async fn resumed after completion''), Finished, s, w))"

definition await_drop :: "'s wait_source \<Rightarrow> await_future \<Rightarrow> 's \<Rightarrow> world \<Rightarrow> 's \<times> world" where
  "await_drop src fut s w = (case fut of Suspended f \<Rightarrow> wf_drop src f s w | _ \<Rightarrow> (s, w))"

text \<open>A wait that may end goes on with the step in the same poll.\<close>

lemma await_poll_complete:
  assumes "f = \<lparr>wf_source = True, wf_wait_data = Some n\<rparr>" "\<not> wf_canceled src f s" "ct_state (w_current w) \<noteq> Aborted"
    "ws_is_complete src s" "step s w = (Some a, s', w')"
  shows "await_poll src step cx (Suspended f) s w = Some (Inr (PollReady (Inr a)), Finished, s', w')"
  using assms
  by (simp add: await_poll_def await_wait.simps [of src step cx "\<lparr>wf_source = True, wf_wait_data = Some n\<rparr>"]
    wf_poll_def wf_drop_def unregister_canceled_wait_def)

text \<open>
  A function that returns a result of its own: the error of a canceled wait is turned into an
  error of the function (\<open>map_err\<close>, or the conversion that \<open>?\<close> applies).
\<close>

definition or_else ::
    "(canceled_error \<Rightarrow> 'e) \<Rightarrow> (canceled_error + ('e + 'a), 'f, 's) poll_result option \<Rightarrow>
     ('e + 'a, 'f, 's) poll_result option" where
  "or_else conv = map_option (apfst (map_sum id (map_poll (case_sum (\<lambda>e. Inl (conv e)) id))))"

text \<open>A step whose result is put into a larger type, and the polls of its loop.\<close>

definition map_step :: "('a \<Rightarrow> 'b) \<Rightarrow> ('s, 'a) await_step \<Rightarrow> ('s, 'b) await_step" where
  "map_step h step s w = apfst (map_option h) (step s w)"

abbreviation map_result ::
    "('a \<Rightarrow> 'b) \<Rightarrow> (canceled_error + 'a, 'f, 's) poll_result \<Rightarrow> (canceled_error + 'b, 'f, 's) poll_result" where
  "map_result h \<equiv> apfst (map_sum (\<lambda>x. x) (map_poll (map_sum (\<lambda>x. x) h)))"

lemma await_wait_map_step_Some:
  "await_wait src step cx f s w = Some res \<Longrightarrow> await_wait src (map_step h step) cx f s w = Some (map_result h res)"
proof (induction src step cx f s w res rule: await_wait.raw_induct [rotated 1, consumes 1])
  case (1 rec src step cx f s w res)
  obtain r f1 s1 w1 where poll: "wf_poll src cx f s w = (r, f1, s1, w1)" by (cases "wf_poll src cx f s w")
  obtain s2 w2 where drop: "wf_drop src f1 s1 w1 = (s2, w2)" by (cases "wf_drop src f1 s1 w1")
  obtain a s3 w3 where st: "step s2 w2 = (a, s3, w3)" by (cases "step s2 w2")
  then have st': "map_step h step s2 w2 = (map_option h a, s3, w3)" by (simp add: map_step_def)
  from 1(2) poll drop st st' 1(1) [of src step cx wf_new s3 w3 res] show ?case
    by (subst await_wait.simps) (auto split: if_splits sum.splits poll.splits option.splits)
qed

lemma await_wait_map_step_back:
  "await_wait src step' cx f s w = Some res' \<Longrightarrow> step' = map_step h step \<Longrightarrow>
     \<exists>res. await_wait src step cx f s w = Some res"
proof (induction src step' cx f s w res' rule: await_wait.raw_induct [rotated 1, consumes 1])
  case (1 rec src step' cx f s w res')
  obtain r f1 s1 w1 where poll: "wf_poll src cx f s w = (r, f1, s1, w1)" by (cases "wf_poll src cx f s w")
  obtain s2 w2 where drop: "wf_drop src f1 s1 w1 = (s2, w2)" by (cases "wf_drop src f1 s1 w1")
  obtain a s3 w3 where st: "step s2 w2 = (a, s3, w3)" by (cases "step s2 w2")
  then have st': "map_step h step s2 w2 = (map_option h a, s3, w3)" by (simp add: map_step_def)
  from 1(2,3) poll drop st st' 1(1) [of src step' cx wf_new s3 w3 res'] show ?case
    by (subst await_wait.simps) (auto split: if_splits sum.splits poll.splits option.splits)
qed

lemma await_wait_map_step:
  "await_wait src (map_step h step) cx f s w = map_option (map_result h) (await_wait src step cx f s w)"
proof (cases "await_wait src step cx f s w")
  case None
  then show ?thesis
    using await_wait_map_step_back [of src "map_step h step" cx f s w _ h step]
    by (cases "await_wait src (map_step h step) cx f s w") auto
qed (simp add: await_wait_map_step_Some)

lemma await_poll_map_step:
  "await_poll src (map_step h step) cx fut s w = map_option (map_result h) (await_poll src step cx fut s w)"
proof (cases fut)
  case Unstarted
  obtain a s1 w1 where "step s w = (a, s1, w1)" by (cases "step s w")
  with Unstarted show ?thesis by (cases a) (simp_all add: await_poll_def map_step_def await_wait_map_step)
qed (simp_all add: await_poll_def await_wait_map_step)

section \<open>Loops that return\<close>

text \<open>
  What such a loop relies on: a step that cannot finish leaves the source incomplete, so the
  wait that follows suspends. Then a poll always returns.
\<close>

definition waits_as :: "await_future \<Rightarrow> nat option \<Rightarrow> bool" where
  "waits_as fut n \<longleftrightarrow>
     (case n of None \<Rightarrow> fut = Unstarted | Some m \<Rightarrow> fut = Suspended \<lparr>wf_source = True, wf_wait_data = Some m\<rparr>)"

locale await_loop = lawful_source src
  for src :: "'s wait_source" +
  fixes step :: "('s, 'a) await_step"
    and inv :: "'s \<Rightarrow> bool"
  assumes inv_put: "inv (ws_set_list src l s) = inv s"
    and step_inv: "inv s \<Longrightarrow> step s w = (r, s', w') \<Longrightarrow> inv s'"
    and step_waits: "inv s \<Longrightarrow> step s w = (None, s', w') \<Longrightarrow> \<not> ws_is_complete src s'"
    and step_room: "inv s \<Longrightarrow> step s w = (r, s', w') \<Longrightarrow> room (ws_list src s) (woken w) F \<Longrightarrow>
      room (ws_list src s') (woken w') F"
    and step_more: "inv s \<Longrightarrow> step s w = (r, s', w') \<Longrightarrow> room (ws_list src s) (woken w) F \<Longrightarrow>
      woken w \<subseteq> woken w'"
begin

lemma wait_new:
  assumes "inv s" "\<not> ws_is_complete src s" "room (ws_list src s) (woken w) F" "F (cx_waker cx) = None"
  obtains
    (aborted) l' p s' w' where "await_wait src step cx wf_new s w = Some (Inl p, Finished, s', w')"
      "s' = ws_set_list src l' s" "room l' (woken w') F" "wl_queue l' = []" "woken w \<subseteq> woken w'"
  | (pending) l' n s' w' where "await_wait src step cx wf_new s w =
        Some (Inr PollPending, Suspended \<lparr>wf_source = True, wf_wait_data = Some n\<rparr>, s', w')"
      "s' = ws_set_list src l' s" "room l' (woken w') (F(cx_waker cx \<mapsto> n))"
      "wl_queue l' = wl_queue (ws_list src s) @ [n]" "woken w \<subseteq> woken w'"
proof -
  obtain r f1 s1 w1 where poll: "wf_poll src cx wf_new s w = (r, f1, s1, w1)"
    by (cases "wf_poll src cx wf_new s w")
  from assms(3,4) poll show thesis
  proof (cases rule: poll_new)
    case (aborted l')
    have "wf_drop src wf_new s1 w1 = (s1, w1)"
      by (simp add: wf_drop_def unregister_canceled_wait_def wf_new_def)
    with poll aborted show thesis
      by (intro that(1) [of "Panic ''Task aborted''" s1 w1 l']) (simp_all add: await_wait.simps)
  next
    case ready
    with assms(2) show thesis by simp
  next
    case (pending l' n)
    with poll show thesis by (intro that(2) [of n s1 w1 l']) (simp_all add: await_wait.simps)
  qed
qed

lemma poll_cases:
  fixes cx c w F
  defines "i \<equiv> cx_waker cx" and "w0 \<equiv> deliver (cx_waker cx) c w"
  assumes "inv s" "room (ws_list src s) (woken w) F" "waits_as fut (F i)"
  obtains
    (finished) a s1 w1 where "await_poll src step cx fut s w0 = Some (Inr (PollReady (Inr a)), Finished, s1, w1)"
      "step s w0 = (Some a, s1, w1)"
      "\<And>n. F i = Some n \<Longrightarrow> ws_is_complete src s \<and> \<not> wd_canceled (wl_nodes (ws_list src s) ! n)"
  | (failed) r l' s1 w1 s0 where "await_poll src step cx fut s w0 = Some (r, Finished, s1, w1)"
      "\<And>a. r \<noteq> Inr (PollReady (Inr a))" "r \<noteq> Inr PollPending"
      "s0 = s \<or> (\<exists>w2. step s w0 = (None, s0, w2))"
      "s1 = ws_set_list src l' s0" "room l' (woken w1) (F(i := None))"
      "wl_queue l' = [] \<or>
         \<not> ws_is_complete src s0 \<and> (\<exists>n. F i = Some n \<and> s0 = s \<and> wl_queue l' = remove1 n (wl_queue (ws_list src s)))"
      "woken w - {i} \<subseteq> woken w1"
  | (pending) n l' s1 w1 s0 where
      "await_poll src step cx fut s w0 =
         Some (Inr PollPending, Suspended \<lparr>wf_source = True, wf_wait_data = Some n\<rparr>, s1, w1)"
      "s0 = s \<or> (\<exists>w2. step s w0 = (None, s0, w2))" "\<not> ws_is_complete src s0"
      "s1 = ws_set_list src l' s0" "room l' (woken w1) (F(i \<mapsto> n))"
      "set (wl_queue l') = insert n (set (wl_queue (ws_list src s0)))"
      "\<And>m. F i = Some m \<Longrightarrow> m = n \<or> ws_is_complete src s" "woken w - {i} \<subseteq> woken w1"
proof -
  note suspends = pending
  have room: "room (ws_list src s) (woken w0) (F(i := None))"
    using room_deliver [OF assms(4)] by (simp add: w0_def i_def)
  have cont: thesis
    if eq: "await_poll src step cx fut s w0 =
        (case step s w0 of
           (Some a, s3, w3) \<Rightarrow> Some (Inr (PollReady (Inr a)), Finished, s3, w3)
         | (None, s3, w3) \<Rightarrow> await_wait src step cx wf_new s3 w3)"
      and wk: "\<And>n. F i = Some n \<Longrightarrow> ws_is_complete src s \<and> \<not> wd_canceled (wl_nodes (ws_list src s) ! n)"
  proof -
    obtain a s3 w3 where st: "step s w0 = (a, s3, w3)" by (cases "step s w0")
    note st_more = step_more [OF assms(3) st room, unfolded w0_def]
    note st_room = step_room [OF assms(3) st room] and st_inv = step_inv [OF assms(3) st]
    show thesis
    proof (cases a)
      case (Some x)
      with eq st wk show thesis by (intro finished) auto
    next
      case None
      with st have wt: "\<not> ws_is_complete src s3" using step_waits assms(3) by blast
      have "(F(i := None)) (cx_waker cx) = None" by (simp add: i_def)
      with st_inv wt st_room show thesis
      proof (cases rule: wait_new [where F = "F(i := None)"])
        case (aborted l' p s' w')
        with eq st None show thesis
          by (intro failed [of "Inl p" s' w' s3 l', OF _ _ _ _ aborted(2,3)])
            (use st_more in \<open>auto simp: i_def\<close>)
      next
        case (pending l' n s' w')
        with eq st None wt show thesis
          by (intro suspends [of n s' w' s3 l']) (use st_more in \<open>auto simp: i_def dest: wk [unfolded i_def]\<close>)
      qed
    qed
  qed
  show thesis
  proof (cases "F i")
    case None
    with assms(5) have "fut = Unstarted" by (simp add: waits_as_def)
    with None show thesis by (intro cont) (auto simp: await_poll_def)
  next
    case (Some n)
    let ?f = "\<lparr>wf_source = True, wf_wait_data = Some n\<rparr>"
    from Some assms(5) have fut: "fut = Suspended ?f" by (simp add: waits_as_def)
    obtain r f1 s1 w1 where poll: "wf_poll src cx ?f s w0 = (r, f1, s1, w1)"
      by (cases "wf_poll src cx ?f s w0")
    from assms(4) Some [unfolded i_def] poll [unfolded w0_def] show thesis
    proof (cases rule: poll_waiting)
      case (canceled l')
      have "wf_drop src f1 s1 w1 = (s1, w1)"
        using canceled(2) by (simp add: wf_drop_def unregister_canceled_wait_def)
      with poll canceled fut Some show thesis
        by (intro failed [of "Inr (PollReady (Inl CanceledError))" s1 w1 s l'])
          (auto simp: await_poll_def await_wait.simps i_def)
    next
      case (aborted l')
      obtain s2 w2 where drop: "wf_drop src ?f s1 w1 = (s2, w2)" by (cases "wf_drop src ?f s1 w1")
      obtain f2 where un: "unregister_canceled_wait src ?f s1 w1 = (f2, s2, w2)"
        using drop by (cases "unregister_canceled_wait src ?f s1 w1") (auto simp: wf_drop_def)
      have "n \<notin> ran (F(i := None))"
        using Some room_inj [OF assms(4)] by (auto simp: ran_def split: if_splits)
      with unregister_effect(1,3) [OF _ this _ un] aborted(3-7) room_D(1) [OF assms(4) Some]
      obtain l2 where "s2 = ws_set_list src l2 s" "room l2 (woken w2) (F(i := None))" "wl_queue l2 = []"
        "woken w - {i} \<subseteq> woken w2" by (auto simp: i_def)
      with poll aborted fut drop show thesis
        by (intro failed [of "Inl (Panic ''Task aborted'')" s2 w2 s l2]) (auto simp: await_poll_def await_wait.simps)
    next
      case ready
      have "wf_drop src f1 s w0 = (s, w0)"
        using ready(5) by (simp add: wf_drop_def unregister_canceled_wait_def)
      with poll ready fut Some show thesis
        by (intro cont) (auto simp: await_poll_def await_wait.simps [of src step cx ?f] w0_def)
    next
      case (pending l')
      have "F(i \<mapsto> n) = F" using Some by auto
      with poll pending fut Some show thesis
        by (intro suspends [of n s1 w1 s l']) (auto simp: await_poll_def await_wait.simps i_def)
    qed
  qed
qed

end

end
