(* ===== verification/Permit_Pool.thy ===== *)
theory Permit_Pool
  imports Async_Await
begin

text \<open>
  What \<open>AsyncSemaphore\<close> and \<open>AsyncLock\<close> have in common: a number of permits, an event that is
  set while there are any, an asynchronous function that waits for a permit and takes it, and
  an operation that gives one back and wakes one waiter. The system of all tasks that use such
  a pool is a step relation: tasks start to wait, are polled, for whatever reason and in any
  order, drop their futures or have them canceled, and give permits back. The invariant counts
  the wake-ups that are under way, and it rules out that a permit is there while every waiter
  sleeps.
\<close>

section \<open>Counting wake-ups\<close>

text \<open>
  \<open>fair t l K F\<close>: with \<open>t\<close> permits, either no waiting future is in the queue, or there are as
  many waiting futures outside the queue, which have been woken, as there are permits and
  queue entries without a waiting future; or one of them has been canceled, and will pass its
  notification on. Without permits every queue entry belongs to a waiting future.
\<close>

definition fair :: "nat \<Rightarrow> wait_list \<Rightarrow> nat set \<Rightarrow> (nat \<rightharpoonup> nat) \<Rightarrow> bool" where
  "fair t l K F \<longleftrightarrow> room l K F \<and> finite (dom F) \<and>
     (if t = 0 then set (wl_queue l) \<subseteq> ran F
      else set (wl_queue l) \<inter> ran F = {} \<or>
           t + card (set (wl_queue l) - ran F) \<le> card {i \<in> dom F. the (F i) \<notin> set (wl_queue l)} \<or>
           (\<exists>i n. F i = Some n \<and> wd_canceled (wl_nodes l ! n)))"

lemma ran_forget: "F i = Some n \<Longrightarrow> ran F = insert n (ran (F(i := None)))"
  by (auto simp: ran_def) (metis option.inject)

lemma fair_room: "fair t l K F \<Longrightarrow> room l K F"
  by (simp add: fair_def)

lemma fair_progress:
  assumes "fair t l K F" "0 < t" "F j = Some m"
  shows "\<exists>i n. F i = Some n \<and> i \<in> K"
proof -
  note D = room_D(3) [OF fair_room [OF assms(1)]]
  from assms(1,2) consider "set (wl_queue l) \<inter> ran F = {}"
    | "t + card (set (wl_queue l) - ran F) \<le> card {i \<in> dom F. the (F i) \<notin> set (wl_queue l)}"
    | i n where "F i = Some n" "wd_canceled (wl_nodes l ! n)" by (auto simp: fair_def)
  then show ?thesis
  proof cases
    case 1
    with assms(3) have "m \<notin> set (wl_queue l)" by (auto simp: ran_def)
    with D assms(3) show ?thesis by blast
  next
    case 2
    with assms(2) have "card {i \<in> dom F. the (F i) \<notin> set (wl_queue l)} \<noteq> 0" by linarith
    then obtain i n where "F i = Some n" "n \<notin> set (wl_queue l)"
      by (metis (mono_tags, lifting) card.empty domD empty_Collect_eq option.sel)
    with D show ?thesis by blast
  next
    case 3
    with D show ?thesis by blast
  qed
qed

lemma fair_empty: "room l K F \<Longrightarrow> finite (dom F) \<Longrightarrow> wl_queue l = [] \<Longrightarrow> fair t l K F"
  by (simp add: fair_def)

lemma room_other:
  assumes "room l K F" "F i = None" "K - {i} \<subseteq> K'"
  shows "room l K' F"
proof -
  have "j \<in> K'" if "F j = Some n" "n \<notin> set (wl_queue l) \<or> wd_canceled (wl_nodes l ! n)" for j n
  proof -
    have "j \<noteq> i" using that(1) assms(2) by auto
    with room_D(3) [OF assms(1) that] assms(3) show ?thesis by blast
  qed
  with assms(1) show ?thesis by (simp add: room_def)
qed

lemma fair_other: "fair t l K F \<Longrightarrow> F i = None \<Longrightarrow> K - {i} \<subseteq> K' \<Longrightarrow> fair t l K' F"
  using room_other [of l K F i K'] by (auto simp: fair_def)

lemma fair_give:
  assumes "fair t l (woken w) F" "wl_wake_one l w = (b, l', w')"
  shows "fair (Suc t) l' (woken w') F"
proof -
  note wake = room_wake_one [OF fair_room [OF assms(1)] assms(2) refl]
  have fin: "finite (dom F)" using assms(1) by (simp add: fair_def)
  have dist: "distinct (wl_queue l)" using room_wl_ok [OF fair_room [OF assms(1)]] by (simp add: wl_ok_def)
  show ?thesis
  proof (cases "wl_queue l")
    case Nil
    with wake fin show ?thesis by (intro fair_empty) simp_all
  next
    case (Cons m q)
    let ?U = "{i \<in> dom F. the (F i) \<notin> set (wl_queue l)}" and ?U' = "{i \<in> dom F. the (F i) \<notin> set q}"
    have q: "wl_queue l' = q" "m \<notin> set q" using wake(2) Cons dist by auto
    have sub: "?U \<subseteq> ?U'" "finite ?U'" using Cons fin by auto
    consider "set (wl_queue l) \<inter> ran F = {}" | i n where "F i = Some n" "wd_canceled (wl_nodes l ! n)"
      | "t + card (set (wl_queue l) - ran F) \<le> card ?U" | "t = 0" "set (wl_queue l) \<subseteq> ran F"
      using assms(1) by (auto simp: fair_def split: if_splits)
    then have "set q \<inter> ran F = {} \<or> Suc t + card (set q - ran F) \<le> card ?U' \<or>
        (\<exists>i n. F i = Some n \<and> wd_canceled (wl_nodes l' ! n))"
    proof cases
      case 1
      then show ?thesis using Cons by auto
    next
      case 2
      with wake(7) show ?thesis by blast
    next
      case 3
      show ?thesis
      proof (cases "m \<in> ran F")
        case True
        then obtain i where i: "F i = Some m" by (auto simp: ran_def)
        with Cons q(2) have "i \<in> ?U' - ?U" by auto
        with sub have "card ?U < card ?U'" by (metis (no_types, lifting) DiffD1 DiffD2 psubsetI psubset_card_mono)
        moreover have "set (wl_queue l) - ran F = set q - ran F" using Cons True by auto
        ultimately show ?thesis using 3 by simp
      next
        case False
        then have "set (wl_queue l) - ran F = insert m (set q - ran F)" using Cons by auto
        then have "card (set (wl_queue l) - ran F) = Suc (card (set q - ran F))" using q(2) by simp
        with 3 card_mono [OF sub(2,1)] show ?thesis by simp
      qed
    next
      case 4
      then obtain i where "F i = Some m" using Cons by (auto simp: ran_def)
      with q(2) have "i \<in> ?U'" by auto
      then have "0 < card ?U'" using sub(2) by (auto simp: card_gt_0_iff)
      moreover have "set q - ran F = {}" using 4 Cons by auto
      ultimately have "Suc t + card (set q - ran F) \<le> card ?U'" using 4(1) by (simp only: card.empty)
      then show ?thesis by blast
    qed
    with wake(1) fin q(1) show ?thesis by (simp add: fair_def)
  qed
qed

lemma fair_take:
  assumes "fair (Suc t) l K F" "0 < t" "\<And>n. F i = Some n \<Longrightarrow> \<not> wd_canceled (wl_nodes l ! n)"
  shows "fair t l (K - {i}) (F(i := None))"
proof -
  let ?F = "F(i := None)" and ?q = "set (wl_queue l)"
  let ?U = "{j \<in> dom F. the (F j) \<notin> ?q}" and ?U' = "{j \<in> dom ?F. the (?F j) \<notin> ?q}"
  have fin: "finite (dom F)" "finite ?U" using assms(1) by (auto simp: fair_def)
  have ran: "ran ?F \<subseteq> ran F" by (auto simp: ran_def split: if_splits)
  from assms(1) consider "?q \<inter> ran F = {}" | "Suc t + card (?q - ran F) \<le> card ?U"
    | j n where "F j = Some n" "wd_canceled (wl_nodes l ! n)" by (auto simp: fair_def)
  then have "?q \<inter> ran ?F = {} \<or> t + card (?q - ran ?F) \<le> card ?U' \<or>
      (\<exists>j n. ?F j = Some n \<and> wd_canceled (wl_nodes l ! n))"
  proof cases
    case 1
    with ran show ?thesis by auto
  next
    case 2
    show ?thesis
    proof (cases "\<exists>n. F i = Some n \<and> n \<in> ?q")
      case True
      then obtain n where n: "F i = Some n" "n \<in> ?q" by blast
      have "ran F = insert n (ran ?F)" using n(1) by (rule ran_forget)
      then have "?q - ran ?F \<subseteq> insert n (?q - ran F)" by auto
      then have "card (?q - ran ?F) \<le> card (insert n (?q - ran F))" by (intro card_mono) auto
      then have "card (?q - ran ?F) \<le> Suc (card (?q - ran F))" by (auto simp: card_insert_if split: if_splits)
      moreover have "?U' = ?U" using n by (auto split: if_splits)
      then have "card ?U' = card ?U" by (rule arg_cong)
      ultimately have "t + card (?q - ran ?F) \<le> card ?U'" using 2 by linarith
      then show ?thesis by blast
    next
      case False
      have "?q - ran ?F = ?q - ran F" using False by (auto simp: ran_def split: if_splits)
      moreover have "?U' = ?U - {i}" by (auto split: if_splits)
      ultimately show ?thesis using 2 fin(2) by (auto simp: card_Diff_singleton_if)
    qed
  next
    case 3
    with assms(3) have "j \<noteq> i" by auto
    with 3 show ?thesis by auto
  qed
  with room_deliver [OF fair_room [OF assms(1)]] fin assms(2) show ?thesis
    by (simp add: fair_def)
qed

lemma fair_wait:
  assumes "fair 0 l K F" "room l' K' (F(i \<mapsto> n))" "set (wl_queue l') = insert n (set (wl_queue l))"
    "\<And>m. F i = Some m \<Longrightarrow> m = n"
  shows "fair 0 l' K' (F(i \<mapsto> n))"
proof -
  have "ran F \<subseteq> ran (F(i \<mapsto> n))" 
  proof (cases "F i")
    case (Some m)
    with assms(4) have "F(i \<mapsto> n) = F" by auto
    then show ?thesis by simp
  qed auto
  moreover have "n \<in> ran (F(i \<mapsto> n))" by (rule ranI [of _ i]) simp
  ultimately show ?thesis using assms by (auto simp: fair_def)
qed

lemma fair_leave:
  assumes "fair 0 l K F" "room l' K' (F(i := None))" "F i = Some n" "wl_queue l' = remove1 n (wl_queue l)"
  shows "fair 0 l' K' (F(i := None))"
proof -
  have "distinct (wl_queue l)" using room_wl_ok [OF fair_room [OF assms(1)]] by (simp add: wl_ok_def)
  then have "set (wl_queue l') = set (wl_queue l) - {n}" using assms(4) by (simp add: set_remove1_eq)
  moreover have "ran F = insert n (ran (F(i := None)))"
    using assms(3) by (rule ran_forget)
  ultimately show ?thesis using assms by (auto simp: fair_def)
qed

lemma fair_cancel:
  assumes "fair t l (woken w) F" "F i = Some n" "cancel_wait n l w = (l', w')"
  shows "fair t l' (woken w') F"
  using room_cancel [OF fair_room [OF assms(1)] assms(3) refl assms(2)] assms(1,2)
  by (auto simp: fair_def)

section \<open>The system of tasks that use a pool\<close>

record 's pool_system =
  ps_state :: 's
  ps_world :: world
  ps_futures :: "nat \<rightharpoonup> await_future"
  ps_taken :: nat
  ps_given :: nat

text \<open>
  The steps. \<open>cap\<close> is the number of permits when every one of them is given back by the task
  that took it, as a guard does, and \<open>None\<close> when \<open>give\<close> may be called freely. A future that
  has finished is dropped; a poll runs in a task whose state and numbers are arbitrary.
\<close>

inductive pool_step ::
    "'s wait_source \<Rightarrow> ('s, 'a) await_step \<Rightarrow> ('s \<Rightarrow> world \<Rightarrow> 's \<times> world) \<Rightarrow> nat option \<Rightarrow>
     's pool_system \<Rightarrow> 's pool_system \<Rightarrow> bool"
  for src step give cap where
  start: "ps_futures y i = None \<Longrightarrow>
    pool_step src step give cap y (y\<lparr>ps_futures := (ps_futures y)(i \<mapsto> Unstarted)\<rparr>)"
| suspend: "ps_futures y i = Some fut \<Longrightarrow>
    await_poll src step \<lparr>cx_waker = i, cx_tag = g\<rparr> fut (ps_state y) (deliver i c (ps_world y)) =
      Some (Inr PollPending, fut', s', w') \<Longrightarrow>
    pool_step src step give cap y
      (y\<lparr>ps_state := s', ps_world := w', ps_futures := (ps_futures y)(i \<mapsto> fut')\<rparr>)"
| finish: "ps_futures y i = Some fut \<Longrightarrow>
    await_poll src step \<lparr>cx_waker = i, cx_tag = g\<rparr> fut (ps_state y) (deliver i c (ps_world y)) =
      Some (r, fut', s', w') \<Longrightarrow> r \<noteq> Inr PollPending \<Longrightarrow>
    pool_step src step give cap y
      (y\<lparr>ps_state := s', ps_world := w', ps_futures := (ps_futures y)(i := None),
         ps_taken := ps_taken y + (if \<exists>a. r = Inr (PollReady (Inr a)) then 1 else 0)\<rparr>)"
| leave: "ps_futures y i = Some fut \<Longrightarrow> await_drop src fut (ps_state y) (ps_world y) = (s', w') \<Longrightarrow>
    pool_step src step give cap y
      (y\<lparr>ps_state := s', ps_world := w', ps_futures := (ps_futures y)(i := None)\<rparr>)"
| cancel: "ps_futures y i = Some (Suspended f) \<Longrightarrow> wf_wait_data f = Some n \<Longrightarrow>
    cancel_wait n (ws_list src (ps_state y)) (ps_world y) = (l', w') \<Longrightarrow>
    pool_step src step give cap y (y\<lparr>ps_state := ws_set_list src l' (ps_state y), ps_world := w'\<rparr>)"
| give_back: "cap \<noteq> None \<longrightarrow> ps_given y < ps_taken y \<Longrightarrow> give (ps_state y) (ps_world y) = (s', w') \<Longrightarrow>
    pool_step src step give cap y
      (y\<lparr>ps_state := s', ps_world := w', ps_given := ps_given y + 1\<rparr>)"

definition waiting :: "(nat \<rightharpoonup> await_future) \<Rightarrow> nat \<rightharpoonup> nat" where
  "waiting futs i = (case futs i of Some (Suspended f) \<Rightarrow> wf_wait_data f | _ \<Rightarrow> None)"

lemma waiting_upd:
  "waiting (futs(i := None)) = (waiting futs)(i := None)"
  "waiting (futs(i \<mapsto> Unstarted)) = (waiting futs)(i := None)"
  "waiting (futs(i \<mapsto> Suspended f)) = (waiting futs)(i := wf_wait_data f)"
  by (auto simp: waiting_def fun_eq_iff)

lemma waiting_empty [simp]: "waiting Map.empty = Map.empty"
  by (auto simp: waiting_def fun_eq_iff)

definition well_formed :: "(nat \<rightharpoonup> await_future) \<Rightarrow> bool" where
  "well_formed futs \<longleftrightarrow> finite (dom futs) \<and> (\<forall>i fut. futs i = Some fut \<longrightarrow> waits_as fut (waiting futs i))"

lemma finite_waiting: "well_formed futs \<Longrightarrow> finite (dom (waiting futs))"
  by (rule finite_subset [of _ "dom futs"]) (auto simp: well_formed_def waiting_def split: option.splits)

lemma well_formed_remove: "well_formed futs \<Longrightarrow> well_formed (futs(i := None))"
  by (auto simp: well_formed_def waiting_upd split: if_splits)

lemma well_formed_upd:
  "well_formed futs \<Longrightarrow> waits_as fut n \<Longrightarrow> well_formed (futs(i \<mapsto> fut))"
  "waits_as fut n \<Longrightarrow> waiting (futs(i \<mapsto> fut)) = (waiting futs)(i := n)"
  by (auto simp: well_formed_def waiting_def waits_as_def split: option.splits if_splits)

text \<open>The equations that evaluate a poll on a concrete state.\<close>

lemmas run_simps = wf_poll_def wf_canceled_def wf_new_def deliver_def idle_world_def idle_task_def
  ev_with_state_def wf_new_wait_def ws_register_def wl_register_def wl_new_def wl_update_def Let_def
  register_wait_def write_event_def wake_by_ref_def wl_wake_one_def ev_set_wake_one_def ev_set_wake_n_def
  await_wait.simps await_poll_def

section \<open>The contract of a pool\<close>

locale permit_pool = await_loop src step inv
  for src :: "'s wait_source" and step :: "('s, 'a) await_step" and inv :: "'s \<Rightarrow> bool" +
  fixes permits :: "'s \<Rightarrow> nat"
    and give :: "'s \<Rightarrow> world \<Rightarrow> 's \<times> world"
    and cap :: "nat option"
  assumes complete: "inv s \<Longrightarrow> ws_is_complete src s \<longleftrightarrow> 0 < permits s"
    and permits_put [simp]: "permits (ws_set_list src l s) = permits s"
    and step_none: "inv s \<Longrightarrow> permits s = 0 \<Longrightarrow> step s w = (None, s, w)"
    and step_some: "inv s \<Longrightarrow> permits s = Suc k \<Longrightarrow>
      \<exists>a s' w'. step s w = (Some a, s', w') \<and> permits s' = k \<and>
        (if k = 0 then wl_wake_all (ws_list src s) w = (ws_list src s', w')
         else ws_list src s' = ws_list src s \<and> w' = w)"
    and give_one: "inv s \<Longrightarrow> (\<And>m. cap = Some m \<Longrightarrow> permits s < m) \<Longrightarrow> give s w = (s', w') \<Longrightarrow>
      inv s' \<and> permits s' = Suc (permits s) \<and> (\<exists>b. wl_wake_one (ws_list src s) w = (b, ws_list src s', w'))"
begin

definition pool_inv :: "nat \<Rightarrow> 's pool_system \<Rightarrow> bool" where
  "pool_inv initial y \<longleftrightarrow>
     inv (ps_state y) \<and> well_formed (ps_futures y) \<and>
     fair (permits (ps_state y)) (ws_list src (ps_state y)) (woken (ps_world y)) (waiting (ps_futures y)) \<and>
     permits (ps_state y) + ps_taken y = initial + ps_given y"

text \<open>Taking a permit, by a task that waited for it or by one that did not.\<close>

lemma take_permit:
  assumes "inv s" "fair (permits s) (ws_list src s) (woken w) F"
    "step s (deliver i c w) = (Some a, s1, w1)"
    "\<And>n. F i = Some n \<Longrightarrow> \<not> wd_canceled (wl_nodes (ws_list src s) ! n)"
  shows "permits s = Suc (permits s1)" "fair (permits s1) (ws_list src s1) (woken w1) (F(i := None))"
proof -
  obtain k where k: "permits s = Suc k"
    using step_none [OF assms(1), of "deliver i c w"] assms(3) by (cases "permits s") auto
  from step_some [OF assms(1) k, of "deliver i c w"] assms(3)
  have s1: "permits s1 = k"
    "if k = 0 then wl_wake_all (ws_list src s) (deliver i c w) = (ws_list src s1, w1)
     else ws_list src s1 = ws_list src s \<and> w1 = deliver i c w" by auto
  then show "permits s = Suc (permits s1)" using k by simp
  have room: "room (ws_list src s) (woken (deliver i c w)) (F(i := None))"
    using room_deliver [OF fair_room [OF assms(2)]] by simp
  show "fair (permits s1) (ws_list src s1) (woken w1) (F(i := None))"
  proof (cases "k = 0")
    case True
    with s1 have "wl_wake_all (ws_list src s) (deliver i c w) = (ws_list src s1, w1)" by simp
    from room_wake_all [OF room this refl] assms(2) show ?thesis
      by (intro fair_empty) (simp_all add: fair_def)
  next
    case False
    with s1 assms(2,4) k show ?thesis by (auto intro: fair_take)
  qed
qed

lemma poll_pool:
  assumes "pool_inv initial y" "ps_futures y i = Some fut"
    "await_poll src step \<lparr>cx_waker = i, cx_tag = g\<rparr> fut (ps_state y) (deliver i c (ps_world y)) =
      Some (r, fut', s', w')"
  shows "r = Inr PollPending \<Longrightarrow>
      pool_inv initial (y\<lparr>ps_state := s', ps_world := w', ps_futures := (ps_futures y)(i \<mapsto> fut')\<rparr>)"
    and "r \<noteq> Inr PollPending \<Longrightarrow>
      pool_inv initial (y\<lparr>ps_state := s', ps_world := w', ps_futures := (ps_futures y)(i := None),
         ps_taken := ps_taken y + (if \<exists>a. r = Inr (PollReady (Inr a)) then 1 else 0)\<rparr>)"
proof -
  let ?s = "ps_state y" and ?w = "ps_world y" and ?F = "waiting (ps_futures y)" and ?l = "ws_list src (ps_state y)"
  let ?cx = "\<lparr>cx_waker = i, cx_tag = g\<rparr>"
  from assms(1) have inv: "inv ?s" and wf: "well_formed (ps_futures y)"
    and fair: "fair (permits ?s) ?l (woken ?w) ?F" and sum: "permits ?s + ps_taken y = initial + ps_given y"
    by (simp_all add: pool_inv_def)
  have was: "waits_as fut (?F (cx_waker ?cx))" using wf assms(2) by (simp add: well_formed_def)
  have wf': "well_formed ((ps_futures y)(i := None))" using well_formed_remove [OF wf] .
  have fin: "finite (dom (?F(i := None)))" using finite_waiting [OF wf] by simp
  have none: "s0 = ?s" if "s0 = ?s \<or> (\<exists>w2. step ?s (deliver i c ?w) = (None, s0, w2))" for s0
  proof (cases "permits ?s")
    case 0
    with that step_none [OF inv, of "deliver i c ?w"] show ?thesis by auto
  next
    case (Suc k)
    from step_some [OF inv this, of "deliver i c ?w"] that show ?thesis by auto
  qed
  from inv fair_room [OF fair] was
  have "(r = Inr PollPending \<longrightarrow>
      pool_inv initial (y\<lparr>ps_state := s', ps_world := w', ps_futures := (ps_futures y)(i \<mapsto> fut')\<rparr>)) \<and>
    (r \<noteq> Inr PollPending \<longrightarrow>
      pool_inv initial (y\<lparr>ps_state := s', ps_world := w', ps_futures := (ps_futures y)(i := None),
         ps_taken := ps_taken y + (if \<exists>a. r = Inr (PollReady (Inr a)) then 1 else 0)\<rparr>))"
  proof (cases rule: poll_cases [where c = c])
    case (finished a s1 w1)
    then have eq: "r = Inr (PollReady (Inr a))" "s' = s1" "w' = w1" using assms(3) by auto
    have can: "?F i = Some n \<Longrightarrow> \<not> wd_canceled (wl_nodes ?l ! n)" for n using finished(3) by simp
    from take_permit [OF inv fair _ can] finished(2)
    have "permits ?s = Suc (permits s1)" "fair (permits s1) (ws_list src s1) (woken w1) (?F(i := None))" by auto
    moreover have "inv s1" using step_inv [OF inv finished(2)] .
    ultimately show ?thesis using eq wf' sum by (simp add: pool_inv_def waiting_upd)
  next
    case (failed r0 l' s1 w1 s0)
    have eq: "r = r0" "s' = s1" "w' = w1" using failed(1) assms(3) by auto
    have s0: "s0 = ?s" using none failed(4) by simp
    have "fair (permits ?s) l' (woken w1) (?F(i := None))"
      using failed(7)
    proof
      assume "wl_queue l' = []"
      with failed(6) fin show ?thesis by (intro fair_empty) simp_all
    next
      assume "\<not> ws_is_complete src s0 \<and>
        (\<exists>n. ?F (cx_waker ?cx) = Some n \<and> s0 = ?s \<and> wl_queue l' = remove1 n (wl_queue ?l))"
      then obtain n where n: "permits ?s = 0" "?F i = Some n" "wl_queue l' = remove1 n (wl_queue ?l)"
        using complete [OF inv] s0 by auto
      with fair failed(6) show ?thesis by (auto intro: fair_leave)
    qed
    then show ?thesis using eq failed(2,3,5) s0 inv wf' sum by (auto simp: pool_inv_def waiting_upd inv_put)
  next
    case (pending n l' s1 w1 s0)
    have eq: "r = Inr PollPending" "s' = s1" "w' = w1"
      "fut' = Suspended \<lparr>wf_source = True, wf_wait_data = Some n\<rparr>" using pending(1) assms(3) by auto
    have s0: "s0 = ?s" using none pending(2) by simp
    then have p0: "permits ?s = 0" using pending(3) complete [OF inv] by simp
    have was': "waits_as fut' (Some n)" by (simp add: eq waits_as_def)
    have "?F i = Some m \<Longrightarrow> m = n" for m using pending(7) [of m] p0 complete [OF inv] by simp
    with fair_wait [of ?l "woken ?w" ?F l' "woken w1" i n] fair p0 pending(5,6) s0
    have "fair 0 l' (woken w1) (?F(i \<mapsto> n))" by simp
    then show ?thesis
      using eq pending(4) s0 p0 inv sum well_formed_upd(1) [OF wf was'] well_formed_upd(2) [OF was']
      by (simp add: pool_inv_def inv_put)
  qed
  then show "r = Inr PollPending \<Longrightarrow>
      pool_inv initial (y\<lparr>ps_state := s', ps_world := w', ps_futures := (ps_futures y)(i \<mapsto> fut')\<rparr>)"
    and "r \<noteq> Inr PollPending \<Longrightarrow>
      pool_inv initial (y\<lparr>ps_state := s', ps_world := w', ps_futures := (ps_futures y)(i := None),
         ps_taken := ps_taken y + (if \<exists>a. r = Inr (PollReady (Inr a)) then 1 else 0)\<rparr>)" by blast+
qed

lemma pool_inv_step:
  assumes "pool_step src step give cap y y'" "pool_inv initial y" "\<And>m. cap = Some m \<Longrightarrow> initial = m"
  shows "pool_inv initial y'"
  using assms(1)
proof cases
  case (start i)
  then have "waiting ((ps_futures y)(i \<mapsto> Unstarted)) = waiting (ps_futures y)"
    by (auto simp: waiting_def fun_eq_iff)
  moreover have "well_formed ((ps_futures y)(i \<mapsto> Unstarted))"
    using assms(2) well_formed_upd(1) [of "ps_futures y" Unstarted None] by (simp add: pool_inv_def waits_as_def)
  ultimately show ?thesis using start assms(2) by (simp add: pool_inv_def)
next
  case (suspend i fut g c fut' s' w')
  with poll_pool(1) [OF assms(2) suspend(2,3)] show ?thesis by simp
next
  case (finish i fut g c r fut' s' w')
  with poll_pool(2) [OF assms(2) finish(2,3)] show ?thesis by simp
next
  case (leave i fut s' w')
  let ?s = "ps_state y" and ?F = "waiting (ps_futures y)"
  from assms(2) have y: "inv ?s" "well_formed (ps_futures y)"
    "fair (permits ?s) (ws_list src ?s) (woken (ps_world y)) ?F" by (simp_all add: pool_inv_def)
  have was: "waits_as fut (?F i)" using y(2) leave(2) by (simp add: well_formed_def)
  have fin: "finite (dom (?F(i := None)))" using finite_waiting [OF y(2)] by simp
  have "\<exists>l'. s' = ws_set_list src l' ?s \<and> fair (permits ?s) l' (woken w') (?F(i := None))"
  proof (cases "?F i")
    case None
    with was leave(3) have "s' = ?s" "w' = ps_world y" by (auto simp: waits_as_def await_drop_def)
    moreover have "?F(i := None) = ?F" using None by auto
    ultimately show ?thesis using y(3) by (metis put_get)
  next
    case (Some n)
    with was leave(3) have "wf_drop src \<lparr>wf_source = True, wf_wait_data = Some n\<rparr> ?s (ps_world y) = (s', w')"
      by (simp add: waits_as_def await_drop_def)
    from drop_effect [OF fair_room [OF y(3)] Some this] obtain l' where l':
      "s' = ws_set_list src l' ?s" "room l' (woken w') (?F(i := None))"
      "wl_queue l' = (if ws_is_complete src ?s then [] else remove1 n (wl_queue (ws_list src ?s)))" by blast
    have "fair (permits ?s) l' (woken w') (?F(i := None))"
    proof (cases "permits ?s")
      case 0
      with l' complete [OF y(1)] y(3) Some show ?thesis by (auto intro: fair_leave)
    next
      case (Suc k)
      with l' complete [OF y(1)] fin show ?thesis by (intro fair_empty) simp_all
    qed
    with l'(1) show ?thesis by blast
  qed
  then show ?thesis
    using leave(1) assms(2) well_formed_remove [OF y(2)] by (auto simp: pool_inv_def waiting_upd inv_put)
next
  case (cancel i f n l' w')
  from assms(2) have "waits_as (Suspended f) (waiting (ps_futures y) i)"
    using cancel(2) by (simp add: pool_inv_def well_formed_def)
  then have "waiting (ps_futures y) i = Some n"
    using cancel(2,3) by (simp add: waiting_def)
  with fair_cancel [where F = "waiting (ps_futures y)", OF _ this cancel(4)] assms(2) cancel(1) show ?thesis
    by (simp add: pool_inv_def inv_put)
next
  case (give_back s' w')
  have lt: "permits (ps_state y) < m" if "cap = Some m" for m
    using that give_back(2) assms(2,3) by (simp add: pool_inv_def)
  have "inv (ps_state y)" using assms(2) by (simp add: pool_inv_def)
  from give_one [OF this lt give_back(3)] obtain b where
    "inv s'" "permits s' = Suc (permits (ps_state y))"
    "wl_wake_one (ws_list src (ps_state y)) (ps_world y) = (b, ws_list src s', w')" by blast
  with give_back(1) assms(2) show ?thesis by (auto simp: pool_inv_def intro: fair_give)
qed

lemma pool_inv_reachable:
  assumes "(pool_step src step give cap)\<^sup>*\<^sup>* y0 y" "pool_inv initial y0" "\<And>m. cap = Some m \<Longrightarrow> initial = m"
  shows "pool_inv initial y"
  using assms by (induction rule: rtranclp_induct) (auto intro: pool_inv_step)

lemma pool_progress:
  assumes "pool_inv initial y" "0 < permits (ps_state y)" "ps_futures y i = Some (Suspended f)"
  shows "\<exists>j g. ps_futures y j = Some (Suspended g) \<and> j \<in> woken (ps_world y)"
proof -
  have "waits_as (Suspended f) (waiting (ps_futures y) i)"
    using assms(1,3) by (simp add: pool_inv_def well_formed_def)
  then obtain n where "waiting (ps_futures y) i = Some n" by (auto simp: waits_as_def split: option.splits)
  from fair_progress [where F = "waiting (ps_futures y)", OF _ assms(2) this] assms(1) obtain j m where
    "waiting (ps_futures y) j = Some m" "j \<in> woken (ps_world y)" unfolding pool_inv_def by blast
  then show ?thesis by (auto simp: waiting_def split: option.splits await_future.splits)
qed

lemma pool_poll_returns:
  assumes "pool_inv initial y" "ps_futures y i = Some fut"
  shows "\<exists>r. await_poll src step \<lparr>cx_waker = i, cx_tag = g\<rparr> fut (ps_state y) (deliver i c (ps_world y)) = Some r"
proof -
  let ?cx = "\<lparr>cx_waker = i, cx_tag = g\<rparr>"
  from assms have "inv (ps_state y)"
    "room (ws_list src (ps_state y)) (woken (ps_world y)) (waiting (ps_futures y))"
    "waits_as fut (waiting (ps_futures y) (cx_waker ?cx))"
    by (auto simp: pool_inv_def well_formed_def intro: fair_room)
  then show ?thesis by (cases rule: poll_cases [where c = c]) auto
qed

lemma pool_poll_takes:
  assumes "pool_inv initial y" "ps_futures y i = Some fut" "0 < permits (ps_state y)" "ct_state c \<noteq> Aborted"
    "\<And>n. waiting (ps_futures y) i = Some n \<Longrightarrow> \<not> wd_canceled (wl_nodes (ws_list src (ps_state y)) ! n)"
  shows "\<exists>a s' w'.
    await_poll src step \<lparr>cx_waker = i, cx_tag = g\<rparr> fut (ps_state y) (deliver i c (ps_world y)) =
      Some (Inr (PollReady (Inr a)), Finished, s', w') \<and> Suc (permits s') = permits (ps_state y)"
proof -
  let ?s = "ps_state y" and ?w = "deliver i c (ps_world y)"
  have inv: "inv ?s" and was: "waits_as fut (waiting (ps_futures y) i)"
    using assms(1,2) by (simp_all add: pool_inv_def well_formed_def)
  obtain k where k: "permits ?s = Suc k" using assms(3) by (cases "permits ?s") auto
  from step_some [OF inv k, of ?w] obtain a s' w' where
    st: "step ?s ?w = (Some a, s', w')" "permits s' = k" by blast
  show ?thesis
  proof (cases "waiting (ps_futures y) i")
    case None
    with was st k show ?thesis by (simp add: waits_as_def await_poll_def)
  next
    case (Some n)
    let ?f = "\<lparr>wf_source = True, wf_wait_data = Some n\<rparr>"
    have "wf_poll src \<lparr>cx_waker = i, cx_tag = g\<rparr> ?f ?s ?w =
        (Inr (PollReady (Inr ())), ?f\<lparr>wf_source := False\<rparr>, ?s, ?w)"
      using Some assms(3,4,5) complete [OF inv] by (simp add: wf_poll_def wf_canceled_def)
    then have "await_wait src step \<lparr>cx_waker = i, cx_tag = g\<rparr> ?f ?s ?w =
        Some (Inr (PollReady (Inr a)), Finished, s', w')"
      using st by (subst await_wait.simps) (simp add: wf_drop_def unregister_canceled_wait_def)
    with Some was st k show ?thesis by (simp add: waits_as_def await_poll_def)
  qed
qed

end

end
