(* ===== verification/Async_Semaphore.thy ===== *)
theory Async_Semaphore
  imports Permit_Pool
begin

text \<open>
  \<open>kimojio/src/async_semaphore.rs\<close> and \<open>kimojio/src/task_pool.rs\<close>. A \<open>usize\<close> count of tokens is
  a natural number: a semaphore does not reach \<open>usize::MAX\<close> tokens.
\<close>

section \<open>\<open>AsyncSemaphore\<close>\<close>

record async_semaphore =
  sem_tokens :: nat
  sem_available :: async_event

definition sem_new :: "nat \<Rightarrow> nat \<Rightarrow> world \<Rightarrow> async_semaphore \<times> world" where
  "sem_new i initial_count w =
     (case (if initial_count > 0 then ev_set (ev_new i) w else (ev_new i, w)) of
        (available, w') \<Rightarrow> (\<lparr>sem_tokens = initial_count, sem_available = available\<rparr>, w'))"

definition sem_source :: "async_semaphore wait_source" where
  "sem_source =
     \<lparr>ws_is_complete = (\<lambda>s. ev_state (sem_available s)),
      ws_list = (\<lambda>s. ev_waiting_tasks (sem_available s)),
      ws_set_list = (\<lambda>l s. s\<lparr>sem_available := (sem_available s)\<lparr>ev_waiting_tasks := l\<rparr>\<rparr>)\<rparr>"

definition acquire_step :: "(async_semaphore, unit) await_step" where
  "acquire_step s w =
     (if sem_tokens s = 0 then (None, s, w)
      else
        (let count = sem_tokens s - 1; s1 = s\<lparr>sem_tokens := count\<rparr> in
         if count = 0 then
           (case ev_reset (sem_available s1) w of (e, w') \<Rightarrow> (Some (), s1\<lparr>sem_available := e\<rparr>, w'))
         else (Some (), s1, w)))"

definition acquire_poll ::
    "poll_context \<Rightarrow> await_future \<Rightarrow> async_semaphore \<Rightarrow> world \<Rightarrow>
     (canceled_error + unit, await_future, async_semaphore) poll_result option" where
  "acquire_poll = await_poll sem_source acquire_step"

definition sem_release :: "async_semaphore \<Rightarrow> world \<Rightarrow> async_semaphore \<times> world" where
  "sem_release s w =
     (let s1 = s\<lparr>sem_tokens := sem_tokens s + 1\<rparr> in
      case ev_set_wake_one (sem_available s1) w of (e, w') \<Rightarrow> (s1\<lparr>sem_available := e\<rparr>, w'))"

definition sem_ok :: "async_semaphore \<Rightarrow> bool" where
  "sem_ok s \<longleftrightarrow> (ev_state (sem_available s) \<longleftrightarrow> 0 < sem_tokens s)"

lemma sem_source_simps [simp]:
  "ws_is_complete sem_source s = ev_state (sem_available s)"
  "ws_list sem_source s = ev_waiting_tasks (sem_available s)"
  "ws_set_list sem_source l s = s\<lparr>sem_available := (sem_available s)\<lparr>ev_waiting_tasks := l\<rparr>\<rparr>"
  by (simp_all add: sem_source_def)

interpretation sem_src: lawful_source sem_source
  by unfold_locales simp_all

interpretation acquire_loop: await_loop sem_source acquire_step sem_ok
proof unfold_locales
  fix s w r s' w'
  assume ok: "sem_ok s" and st: "acquire_step s w = (r, s', w')"
  show "sem_ok s'" using ok st
    by (auto simp: sem_ok_def acquire_step_def Let_def ev_reset_effect split: if_splits prod.splits)
  fix F assume room: "room (ws_list sem_source s) (woken w) F"
  show "room (ws_list sem_source s') (woken w') F"
    using st room room_wake_all(1) [OF room _ refl]
    by (auto simp: acquire_step_def Let_def ev_reset_effect split: if_splits prod.splits)
  show "woken w \<subseteq> woken w'"
    using st room_wake_all(5) [OF room _ refl]
    by (auto simp: acquire_step_def Let_def ev_reset_effect split: if_splits prod.splits)
qed (auto simp: sem_ok_def acquire_step_def Let_def split: if_splits prod.splits)

interpretation sem_pool: permit_pool sem_source acquire_step sem_ok sem_tokens sem_release cap
proof unfold_locales
  fix s w s' w'
  assume ok: "sem_ok s" and give: "sem_release s w = (s', w')"
  then obtain e where e: "ev_set_wake_one (sem_available s) w = (e, w')"
    "s' = s\<lparr>sem_tokens := sem_tokens s + 1, sem_available := e\<rparr>"
    by (auto simp: sem_release_def Let_def split: prod.splits)
  from ev_set_wake_one_effect [OF e(1)] e(2)
  show "sem_ok s' \<and> sem_tokens s' = Suc (sem_tokens s) \<and>
      (\<exists>b. wl_wake_one (ws_list sem_source s) w = (b, ws_list sem_source s', w'))"
    by (simp add: sem_ok_def)
next
  fix s k w
  assume "sem_ok s" "sem_tokens s = Suc k"
  moreover obtain e w' where e: "ev_reset (sem_available s) w = (e, w')"
    by (cases "ev_reset (sem_available s) w")
  moreover have "wl_wake_all (ev_waiting_tasks (sem_available s)) w = (ev_waiting_tasks e, w')"
    using e by (simp add: ev_reset_effect)
  ultimately show "\<exists>a s' w'. acquire_step s w = (Some a, s', w') \<and> sem_tokens s' = k \<and>
      (if k = 0 then wl_wake_all (ws_list sem_source s) w = (ws_list sem_source s', w')
       else ws_list sem_source s' = ws_list sem_source s \<and> w' = w)"
    by (cases "k = 0") (simp_all add: acquire_step_def)
qed (auto simp: sem_ok_def acquire_step_def)

section \<open>Semaphores under all schedules\<close>

definition sem_system :: "nat \<Rightarrow> nat \<Rightarrow> world \<Rightarrow> async_semaphore pool_system" where
  "sem_system i n w =
     (case sem_new i n w of (s, w') \<Rightarrow>
        \<lparr>ps_state = s, ps_world = w', ps_futures = Map.empty, ps_taken = 0, ps_given = 0\<rparr>)"

abbreviation sem_steps :: "nat option \<Rightarrow> async_semaphore pool_system \<Rightarrow> async_semaphore pool_system \<Rightarrow> bool" where
  "sem_steps cap \<equiv> (pool_step sem_source acquire_step sem_release cap)\<^sup>*\<^sup>*"

lemma sem_new_eq:
  "sem_new i n w = (\<lparr>sem_tokens = n, sem_available = ev_with_state i (0 < n)\<rparr>, w)"
  by (simp add: sem_new_def ev_set_new) (simp add: ev_new_def)

lemma sem_system_inv: "sem_pool.pool_inv n (sem_system i n w)"
  unfolding sem_pool.pool_inv_def
  by (simp add: sem_system_def sem_new_eq sem_ok_def ev_with_state_def well_formed_def waiting_def fair_empty)

text \<open>
  C14: No wake-up of a semaphore is lost. Whatever the tasks do (start to acquire, are polled
  in any order and for any reason, drop or cancel a pending acquire, panic in an aborted task,
  release), tokens are conserved, and whenever a token is free while some task waits for one,
  the task of some waiting acquire has been woken and not polled since.
\<close>

theorem semaphore_no_lost_wakeup:
  assumes "sem_steps None (sem_system i n w) y"
  shows "sem_tokens (ps_state y) + ps_taken y = n + ps_given y \<and>
    (0 < sem_tokens (ps_state y) \<and> ps_futures y j = Some (Suspended f) \<longrightarrow>
      (\<exists>k g. ps_futures y k = Some (Suspended g) \<and> k \<in> woken (ps_world y)))"
proof -
  have "sem_pool.pool_inv n y"
    using sem_pool.pool_inv_reachable [OF assms sem_system_inv] by simp
  with sem_pool.pool_progress [OF this] show ?thesis unfolding sem_pool.pool_inv_def by blast
qed

text \<open>A run: a task waits on a semaphore without tokens, and a token is released.\<close>

definition waiting_sem :: "bool \<Rightarrow> async_semaphore" where
  "waiting_sem linked =
     \<lparr>sem_tokens = (if linked then 0 else 1),
      sem_available = \<lparr>ev_state = \<not> linked, ev_waiting_tasks =
        \<lparr>wl_id = 0, wl_nodes = [\<lparr>wd_activity_id = 0, wd_waker = Some 7, wd_task_id = 1,
           wd_canceled = False, wd_tag = 0, wd_linked = linked\<rparr>],
         wl_queue = (if linked then [0] else [])\<rparr>\<rparr>\<rparr>"

definition waiting_run :: "bool \<Rightarrow> async_semaphore pool_system" where
  "waiting_run linked =
     \<lparr>ps_state = waiting_sem linked,
      ps_world = idle_world\<lparr>w_wakes := (if linked then [] else [7]),
        w_trace := (1, AsyncWaitStart 0 0) # (if linked then [] else [(1, AsyncWaitEnd 0 0)])\<rparr>,
      ps_futures = [7 \<mapsto> Suspended \<lparr>wf_source = True, wf_wait_data = Some 0\<rparr>],
      ps_taken = 0, ps_given = (if linked then 0 else 1)\<rparr>"

lemma waiting_run_reachable: "sem_steps None (sem_system 0 0 idle_world) (waiting_run linked)"
proof -
  let ?y0 = "sem_system 0 0 idle_world"
  let ?y1 = "?y0\<lparr>ps_futures := (ps_futures ?y0)(7 \<mapsto> Unstarted)\<rparr>"
  have s1: "pool_step sem_source acquire_step sem_release None ?y0 ?y1"
    by (rule pool_step.start) (simp add: sem_system_def sem_new_eq)
  have "pool_step sem_source acquire_step sem_release None ?y1
     (?y1\<lparr>ps_state := ps_state (waiting_run True), ps_world := ps_world (waiting_run True),
          ps_futures := (ps_futures ?y1)(7 \<mapsto> Suspended \<lparr>wf_source = True, wf_wait_data = Some 0\<rparr>)\<rparr>)"
    by (rule pool_step.suspend [where fut = Unstarted and g = 0 and c = idle_task])
      (simp_all add: run_simps sem_new_eq sem_system_def acquire_step_def waiting_run_def waiting_sem_def)
  then have s2: "pool_step sem_source acquire_step sem_release None ?y1 (waiting_run True)"
    by (simp add: waiting_run_def sem_system_def sem_new_eq)
  have "pool_step sem_source acquire_step sem_release None (waiting_run True)
     ((waiting_run True)\<lparr>ps_state := ps_state (waiting_run False), ps_world := ps_world (waiting_run False),
          ps_given := ps_given (waiting_run True) + 1\<rparr>)"
    by (rule pool_step.give_back)
      (simp_all add: run_simps sem_release_def waiting_run_def waiting_sem_def numeral_eq_Suc)
  then have s3: "pool_step sem_source acquire_step sem_release None (waiting_run True) (waiting_run False)"
    by (simp add: waiting_run_def)
  from s1 s2 s3 show ?thesis by (cases linked) (auto intro: rtranclp.rtrancl_into_rtrancl)
qed

theorem semaphore_no_lost_wakeup_witness:
  "\<exists>k g. ps_futures (waiting_run False) k = Some (Suspended g) \<and> k \<in> woken (ps_world (waiting_run False))"
  using semaphore_no_lost_wakeup [OF waiting_run_reachable [of False], of 7 "\<lparr>wf_source = True, wf_wait_data = Some 0\<rparr>"]
  by (simp add: waiting_run_def waiting_sem_def)

text \<open>
  C15: Polling an acquire always returns, and takes a token when there is one. In every
  reachable state the loop of \<open>acquire\<close> ends, and if a token is free, the task is not aborted
  and the wait was not canceled, the poll is ready and one token is gone.
\<close>

theorem acquire_poll_returns:
  assumes "sem_steps None (sem_system i n w) y" "ps_futures y j = Some fut"
  shows "(\<exists>r. acquire_poll \<lparr>cx_waker = j, cx_tag = g\<rparr> fut (ps_state y) (deliver j c (ps_world y)) = Some r) \<and>
    (0 < sem_tokens (ps_state y) \<and> ct_state c \<noteq> Aborted \<and>
     (\<forall>m. waiting (ps_futures y) j = Some m \<longrightarrow>
        \<not> wd_canceled (wl_nodes (ev_waiting_tasks (sem_available (ps_state y))) ! m)) \<longrightarrow>
     (\<exists>s' w'. acquire_poll \<lparr>cx_waker = j, cx_tag = g\<rparr> fut (ps_state y) (deliver j c (ps_world y)) =
        Some (Inr (PollReady (Inr ())), Finished, s', w') \<and> Suc (sem_tokens s') = sem_tokens (ps_state y)))"
proof -
  have inv: "sem_pool.pool_inv n y"
    using sem_pool.pool_inv_reachable [OF assms(1) sem_system_inv] by simp
  show ?thesis unfolding acquire_poll_def
    using sem_pool.pool_poll_returns [OF inv assms(2)] sem_pool.pool_poll_takes [OF inv assms(2), of c g]
    by auto
qed

theorem acquire_poll_returns_witness:
  "\<exists>s' w'. acquire_poll \<lparr>cx_waker = 7, cx_tag = 0\<rparr> (Suspended \<lparr>wf_source = True, wf_wait_data = Some 0\<rparr>)
     (waiting_sem False) (deliver 7 idle_task (ps_world (waiting_run False))) =
       Some (Inr (PollReady (Inr ())), Finished, s', w') \<and> Suc (sem_tokens s') = 1"
  using acquire_poll_returns [OF waiting_run_reachable [of False], of 7
      "Suspended \<lparr>wf_source = True, wf_wait_data = Some 0\<rparr>" 0 idle_task]
  by (simp add: waiting_run_def waiting_sem_def waiting_def idle_task_def)

end
