(* ===== verification/Task_Pool.thy ===== *)
theory Task_Pool
  imports Async_Semaphore
begin

text \<open>
  \<open>kimojio/src/task_pool.rs\<close>: a pool is its semaphore. \<open>spawn_task\<close> acquires a token and then
  spawns a task whose guard releases the token when the task ends, by returning, by panicking
  or by being dropped; the spawned task itself belongs to the scheduler.
\<close>

type_synonym task_pool = async_semaphore

definition tp_new :: "nat \<Rightarrow> nat \<Rightarrow> world \<Rightarrow> task_pool \<times> world" where
  "tp_new i max_tasks w = sem_new i max_tasks w"

text \<open>The result of a spawn: the task is running and holds a guard.\<close>

datatype spawned = Spawned

definition tp_spawn_poll ::
    "poll_context \<Rightarrow> await_future \<Rightarrow> task_pool \<Rightarrow> world \<Rightarrow>
     (canceled_error + spawned, await_future, task_pool) poll_result option" where
  "tp_spawn_poll cx fut p w =
     (case acquire_poll cx fut p w of
        None \<Rightarrow> None
      | Some (r, fut', p', w') \<Rightarrow>
          Some (map_sum id (\<lambda>x. case x of PollPending \<Rightarrow> PollPending
                                | PollReady a \<Rightarrow> PollReady (map_sum id (\<lambda>_. Spawned) a)) r, fut', p', w'))"

definition tp_task_end :: "task_pool \<Rightarrow> world \<Rightarrow> task_pool \<times> world" where
  "tp_task_end p w = sem_release p w"

text \<open>
  The system of a pool: the tasks that spawn, each with its pending \<open>spawn_task\<close>, and the
  number of spawned tasks that have not ended.
\<close>

record pool_run =
  pr_pool :: task_pool
  pr_world :: world
  pr_spawns :: "nat \<rightharpoonup> await_future"
  pr_running :: nat

inductive tp_step :: "pool_run \<Rightarrow> pool_run \<Rightarrow> bool" where
  start: "pr_spawns y i = None \<Longrightarrow> tp_step y (y\<lparr>pr_spawns := (pr_spawns y)(i \<mapsto> Unstarted)\<rparr>)"
| suspend: "pr_spawns y i = Some fut \<Longrightarrow>
    tp_spawn_poll \<lparr>cx_waker = i, cx_tag = g\<rparr> fut (pr_pool y) (deliver i c (pr_world y)) =
      Some (Inr PollPending, fut', p', w') \<Longrightarrow>
    tp_step y (y\<lparr>pr_pool := p', pr_world := w', pr_spawns := (pr_spawns y)(i \<mapsto> fut')\<rparr>)"
| spawn: "pr_spawns y i = Some fut \<Longrightarrow>
    tp_spawn_poll \<lparr>cx_waker = i, cx_tag = g\<rparr> fut (pr_pool y) (deliver i c (pr_world y)) =
      Some (Inr (PollReady (Inr Spawned)), fut', p', w') \<Longrightarrow>
    tp_step y (y\<lparr>pr_pool := p', pr_world := w', pr_spawns := (pr_spawns y)(i := None),
                 pr_running := pr_running y + 1\<rparr>)"
| fail: "pr_spawns y i = Some fut \<Longrightarrow>
    tp_spawn_poll \<lparr>cx_waker = i, cx_tag = g\<rparr> fut (pr_pool y) (deliver i c (pr_world y)) =
      Some (r, fut', p', w') \<Longrightarrow> r \<noteq> Inr PollPending \<Longrightarrow> r \<noteq> Inr (PollReady (Inr Spawned)) \<Longrightarrow>
    tp_step y (y\<lparr>pr_pool := p', pr_world := w', pr_spawns := (pr_spawns y)(i := None)\<rparr>)"
| leave: "pr_spawns y i = Some fut \<Longrightarrow> await_drop sem_source fut (pr_pool y) (pr_world y) = (p', w') \<Longrightarrow>
    tp_step y (y\<lparr>pr_pool := p', pr_world := w', pr_spawns := (pr_spawns y)(i := None)\<rparr>)"
| cancel: "pr_spawns y i = Some (Suspended f) \<Longrightarrow> wf_wait_data f = Some n \<Longrightarrow>
    cancel_wait n (ev_waiting_tasks (sem_available (pr_pool y))) (pr_world y) = (l', w') \<Longrightarrow>
    tp_step y (y\<lparr>pr_pool := ws_set_list sem_source l' (pr_pool y), pr_world := w'\<rparr>)"
| task_end: "0 < pr_running y \<Longrightarrow> tp_task_end (pr_pool y) (pr_world y) = (p', w') \<Longrightarrow>
    tp_step y (y\<lparr>pr_pool := p', pr_world := w', pr_running := pr_running y - 1\<rparr>)"

definition tp_start :: "nat \<Rightarrow> nat \<Rightarrow> world \<Rightarrow> pool_run" where
  "tp_start i max_tasks w =
     (case tp_new i max_tasks w of (p, w') \<Rightarrow>
        \<lparr>pr_pool = p, pr_world = w', pr_spawns = Map.empty, pr_running = 0\<rparr>)"

section \<open>The pool is a semaphore whose tokens are given back\<close>

definition as_semaphore :: "pool_run \<Rightarrow> nat \<Rightarrow> async_semaphore pool_system" where
  "as_semaphore y ended =
     \<lparr>ps_state = pr_pool y, ps_world = pr_world y, ps_futures = pr_spawns y,
      ps_taken = pr_running y + ended, ps_given = ended\<rparr>"

lemma tp_spawn_pollD:
  assumes "tp_spawn_poll cx fut p w = Some (r, fut', p', w')"
  shows "\<exists>r'. acquire_poll cx fut p w = Some (r', fut', p', w') \<and>
    (r = Inr PollPending \<longleftrightarrow> r' = Inr PollPending) \<and>
    (r = Inr (PollReady (Inr Spawned)) \<longleftrightarrow> (\<exists>a. r' = Inr (PollReady (Inr a))))"
proof -
  obtain r' where "acquire_poll cx fut p w = Some (r', fut', p', w')"
    "r = map_sum id (\<lambda>x. case x of PollPending \<Rightarrow> PollPending
                          | PollReady a \<Rightarrow> PollReady (map_sum id (\<lambda>_. Spawned) a)) r'"
    using assms by (auto simp: tp_spawn_poll_def split: option.splits)
  then show ?thesis
    by (cases r') (auto split: poll.splits simp: map_sum_def split: sum.splits)
qed

lemma tp_step_simulates:
  assumes "tp_step y z"
  shows "\<exists>ended'. pool_step sem_source acquire_step sem_release (Some m) (as_semaphore y ended) (as_semaphore z ended')"
  using assms
proof cases
  case (start i)
  then have "pool_step sem_source acquire_step sem_release (Some m) (as_semaphore y ended)
     ((as_semaphore y ended)\<lparr>ps_futures := (ps_futures (as_semaphore y ended))(i \<mapsto> Unstarted)\<rparr>)"
    by (intro pool_step.start) (simp add: as_semaphore_def)
  with start show ?thesis by (intro exI [of _ ended]) (simp add: as_semaphore_def)
next
  case (suspend i fut g c fut' p' w')
  from tp_spawn_pollD [OF suspend(3)]
  have "acquire_poll \<lparr>cx_waker = i, cx_tag = g\<rparr> fut (pr_pool y) (deliver i c (pr_world y)) =
      Some (Inr PollPending, fut', p', w')" by auto
  with suspend have "pool_step sem_source acquire_step sem_release (Some m) (as_semaphore y ended)
     ((as_semaphore y ended)\<lparr>ps_state := p', ps_world := w',
        ps_futures := (ps_futures (as_semaphore y ended))(i \<mapsto> fut')\<rparr>)"
    by (intro pool_step.suspend [where c = c and g = g and fut = fut])
      (simp_all add: as_semaphore_def acquire_poll_def)
  with suspend show ?thesis by (intro exI [of _ ended]) (simp add: as_semaphore_def)
next
  case (spawn i fut g c fut' p' w')
  from tp_spawn_pollD [OF spawn(3)] obtain a where
    "acquire_poll \<lparr>cx_waker = i, cx_tag = g\<rparr> fut (pr_pool y) (deliver i c (pr_world y)) =
      Some (Inr (PollReady (Inr a)), fut', p', w')" by auto
  with spawn have "pool_step sem_source acquire_step sem_release (Some m) (as_semaphore y ended)
     ((as_semaphore y ended)\<lparr>ps_state := p', ps_world := w',
        ps_futures := (ps_futures (as_semaphore y ended))(i := None),
        ps_taken := ps_taken (as_semaphore y ended) +
          (if \<exists>b. Inr (PollReady (Inr a)) = (Inr (PollReady (Inr b)) :: panic + (canceled_error + unit) poll) then 1 else 0)\<rparr>)"
    by (intro pool_step.finish [where c = c and g = g and fut = fut and fut' = fut'])
      (simp_all add: as_semaphore_def acquire_poll_def)
  with spawn show ?thesis by (intro exI [of _ ended]) (simp add: as_semaphore_def)
next
  case (fail i fut g c r fut' p' w')
  from tp_spawn_pollD [OF fail(3)] fail(4,5) obtain r' where
    r': "acquire_poll \<lparr>cx_waker = i, cx_tag = g\<rparr> fut (pr_pool y) (deliver i c (pr_world y)) =
      Some (r', fut', p', w')" "r' \<noteq> Inr PollPending" "\<nexists>a. r' = Inr (PollReady (Inr a))" by auto
  with fail have "pool_step sem_source acquire_step sem_release (Some m) (as_semaphore y ended)
     ((as_semaphore y ended)\<lparr>ps_state := p', ps_world := w',
        ps_futures := (ps_futures (as_semaphore y ended))(i := None),
        ps_taken := ps_taken (as_semaphore y ended) + (if \<exists>b. r' = Inr (PollReady (Inr b)) then 1 else 0)\<rparr>)"
    by (intro pool_step.finish [where c = c and g = g and fut = fut and fut' = fut'])
      (simp_all add: as_semaphore_def acquire_poll_def)
  with fail r'(3) show ?thesis by (intro exI [of _ ended]) (simp add: as_semaphore_def)
next
  case (leave i fut p' w')
  then have "pool_step sem_source acquire_step sem_release (Some m) (as_semaphore y ended)
     ((as_semaphore y ended)\<lparr>ps_state := p', ps_world := w',
        ps_futures := (ps_futures (as_semaphore y ended))(i := None)\<rparr>)"
    by (intro pool_step.leave [where fut = fut]) (simp_all add: as_semaphore_def)
  with leave show ?thesis by (intro exI [of _ ended]) (simp add: as_semaphore_def)
next
  case (cancel i f n l' w')
  then have "pool_step sem_source acquire_step sem_release (Some m) (as_semaphore y ended)
     ((as_semaphore y ended)\<lparr>ps_state := ws_set_list sem_source l' (ps_state (as_semaphore y ended)), ps_world := w'\<rparr>)"
    by (intro pool_step.cancel [where i = i and f = f and n = n]) (simp_all add: as_semaphore_def)
  with cancel show ?thesis by (intro exI [of _ ended]) (simp add: as_semaphore_def)
next
  case (task_end p' w')
  then have "pool_step sem_source acquire_step sem_release (Some m) (as_semaphore y ended)
     ((as_semaphore y ended)\<lparr>ps_state := p', ps_world := w', ps_given := ps_given (as_semaphore y ended) + 1\<rparr>)"
    by (intro pool_step.give_back) (simp_all add: as_semaphore_def tp_task_end_def)
  with task_end show ?thesis by (intro exI [of _ "ended + 1"]) (simp add: as_semaphore_def)
qed

lemma tp_steps_simulate:
  assumes "tp_step\<^sup>*\<^sup>* (tp_start i m w) y"
  shows "\<exists>ended. sem_steps (Some m) (sem_system i m w) (as_semaphore y ended)"
  using assms
proof (induction rule: rtranclp_induct)
  case base
  have "as_semaphore (tp_start i m w) 0 = sem_system i m w"
    by (simp add: as_semaphore_def tp_start_def tp_new_def sem_system_def sem_new_eq)
  then show ?case by (metis rtranclp.rtrancl_refl)
next
  case (step y z)
  then show ?case using tp_step_simulates [OF step(2)] by (meson rtranclp.rtrancl_into_rtrancl)
qed



end
