(* ===== verification/Async_Lock.thy ===== *)
theory Async_Lock
  imports Async_Semaphore
begin

text \<open>
  \<open>kimojio/src/async_lock.rs\<close>. A lock is a pool of one permit: the event \<open>unlocked\<close> is set while
  the permit is there, \<open>lock\<close> and \<open>try_lock\<close> take it and return an \<open>AsyncLockRef\<close>, and dropping
  the \<open>AsyncLockRef\<close> gives it back. Access to the protected value goes through the guard.
\<close>

section \<open>\<open>AsyncLock\<close> and \<open>AsyncLockRef\<close>\<close>

record 'v async_lock =
  lk_value :: 'v
  lk_unlocked :: async_event

datatype lock_ref = LockRef

definition lk_new :: "nat \<Rightarrow> 'v \<Rightarrow> world \<Rightarrow> 'v async_lock \<times> world" where
  "lk_new i v w =
     (case ev_set (ev_new i) w of (unlocked, w') \<Rightarrow> (\<lparr>lk_value = v, lk_unlocked = unlocked\<rparr>, w'))"

definition try_lock :: "'v async_lock \<Rightarrow> world \<Rightarrow> lock_ref option \<times> 'v async_lock \<times> world" where
  "try_lock l w =
     (if ev_is_set (lk_unlocked l) then
        (case ev_reset (lk_unlocked l) w of (e, w') \<Rightarrow> (Some LockRef, l\<lparr>lk_unlocked := e\<rparr>, w'))
      else (None, l, w))"

definition lk_source :: "'v async_lock wait_source" where
  "lk_source =
     \<lparr>ws_is_complete = (\<lambda>l. ev_state (lk_unlocked l)),
      ws_list = (\<lambda>l. ev_waiting_tasks (lk_unlocked l)),
      ws_set_list = (\<lambda>q l. l\<lparr>lk_unlocked := (lk_unlocked l)\<lparr>ev_waiting_tasks := q\<rparr>\<rparr>)\<rparr>"

definition lock_step :: "('v async_lock, lock_ref) await_step" where
  "lock_step l w =
     (if \<not> ev_is_set (lk_unlocked l) then (None, l, w)
      else (case ev_reset (lk_unlocked l) w of (e, w') \<Rightarrow> (Some LockRef, l\<lparr>lk_unlocked := e\<rparr>, w')))"

definition lock_poll ::
    "poll_context \<Rightarrow> await_future \<Rightarrow> 'v async_lock \<Rightarrow> world \<Rightarrow>
     (canceled_error + lock_ref, await_future, 'v async_lock) poll_result option" where
  "lock_poll = await_poll lk_source lock_step"

definition lock_ref_drop :: "'v async_lock \<Rightarrow> world \<Rightarrow> 'v async_lock \<times> world" where
  "lock_ref_drop l w =
     (case ev_set_wake_one (lk_unlocked l) w of (e, w') \<Rightarrow> (l\<lparr>lk_unlocked := e\<rparr>, w'))"

definition lock_ref_deref :: "'v async_lock \<Rightarrow> 'v" where
  "lock_ref_deref l = lk_value l"

definition lock_ref_deref_mut :: "('v \<Rightarrow> 'v) \<Rightarrow> 'v async_lock \<Rightarrow> 'v async_lock" where
  "lock_ref_deref_mut f l = l\<lparr>lk_value := f (lk_value l)\<rparr>"

section \<open>A lock is a pool of one permit\<close>

definition lk_permits :: "'v async_lock \<Rightarrow> nat" where
  "lk_permits l = (if ev_state (lk_unlocked l) then 1 else 0)"

lemma lk_source_simps [simp]:
  "ws_is_complete lk_source l = ev_state (lk_unlocked l)"
  "ws_list lk_source l = ev_waiting_tasks (lk_unlocked l)"
  "ws_set_list lk_source q l = l\<lparr>lk_unlocked := (lk_unlocked l)\<lparr>ev_waiting_tasks := q\<rparr>\<rparr>"
  by (simp_all add: lk_source_def)

interpretation lk_src: lawful_source lk_source
  by unfold_locales simp_all

interpretation lock_loop: await_loop lk_source lock_step "\<lambda>_. True"
proof unfold_locales
  fix s w r s' w' F
  assume st: "lock_step s w = (r, s', w')" and room: "room (ws_list lk_source s) (woken w) F"
  show "room (ws_list lk_source s') (woken w') F"
    using st room room_wake_all(1) [OF room _ refl]
    by (auto simp: lock_step_def ev_reset_effect split: if_splits prod.splits)
  show "woken w \<subseteq> woken w'"
    using st room_wake_all(5) [OF room _ refl]
    by (auto simp: lock_step_def ev_reset_effect split: if_splits prod.splits)
qed (auto simp: lock_step_def ev_is_set_def split: if_splits prod.splits)

interpretation lk_pool: permit_pool lk_source lock_step "\<lambda>_. True" lk_permits lock_ref_drop "Some 1"
proof unfold_locales
  fix s s' :: "'v async_lock" and w w'
  assume lt: "\<And>m. Some 1 = Some m \<Longrightarrow> lk_permits s < m" and give: "lock_ref_drop s w = (s', w')"
  from give obtain e where e: "ev_set_wake_one (lk_unlocked s) w = (e, w')" "s' = s\<lparr>lk_unlocked := e\<rparr>"
    by (auto simp: lock_ref_drop_def split: prod.splits)
  from ev_set_wake_one_effect [OF e(1)] e(2) lt [of 1]
  show "True \<and> lk_permits s' = Suc (lk_permits s) \<and>
      (\<exists>b. wl_wake_one (ws_list lk_source s) w = (b, ws_list lk_source s', w'))"
    by (simp add: lk_permits_def)
next
  fix s :: "'v async_lock" and k w
  assume "lk_permits s = Suc k"
  then have "k = 0" "ev_state (lk_unlocked s)" by (simp_all add: lk_permits_def split: if_splits)
  moreover obtain e w' where e: "ev_reset (lk_unlocked s) w = (e, w')" by (cases "ev_reset (lk_unlocked s) w")
  moreover have "wl_wake_all (ev_waiting_tasks (lk_unlocked s)) w = (ev_waiting_tasks e, w')" "\<not> ev_state e"
    using e by (simp_all add: ev_reset_effect)
  ultimately show "\<exists>a s' w'. lock_step s w = (Some a, s', w') \<and> lk_permits s' = k \<and>
      (if k = 0 then wl_wake_all (ws_list lk_source s) w = (ws_list lk_source s', w')
       else ws_list lk_source s' = ws_list lk_source s \<and> w' = w)"
    by (simp add: lock_step_def lk_permits_def ev_is_set_def)
qed (auto simp: lock_step_def lk_permits_def ev_is_set_def split: if_splits)

lemma try_lock_eq: "try_lock l w = lock_step l w"
  by (simp add: try_lock_def lock_step_def)

section \<open>Locks under all schedules\<close>

text \<open>
  The system of tasks that share a lock: pending \<open>lock\<close> futures, the \<open>AsyncLockRef\<close>s that are
  alive, and the protected value. A live guard may read and write the value and is dropped at
  some point; \<open>try_lock\<close> may be called at any time.
\<close>

record 'v lock_run =
  lr_lock :: "'v async_lock"
  lr_world :: world
  lr_waits :: "nat \<rightharpoonup> await_future"
  lr_guards :: nat

inductive lk_step :: "'v lock_run \<Rightarrow> 'v lock_run \<Rightarrow> bool" where
  start: "lr_waits y i = None \<Longrightarrow> lk_step y (y\<lparr>lr_waits := (lr_waits y)(i \<mapsto> Unstarted)\<rparr>)"
| suspend: "lr_waits y i = Some fut \<Longrightarrow>
    lock_poll \<lparr>cx_waker = i, cx_tag = g\<rparr> fut (lr_lock y) (deliver i c (lr_world y)) =
      Some (Inr PollPending, fut', l', w') \<Longrightarrow>
    lk_step y (y\<lparr>lr_lock := l', lr_world := w', lr_waits := (lr_waits y)(i \<mapsto> fut')\<rparr>)"
| finish: "lr_waits y i = Some fut \<Longrightarrow>
    lock_poll \<lparr>cx_waker = i, cx_tag = g\<rparr> fut (lr_lock y) (deliver i c (lr_world y)) =
      Some (r, fut', l', w') \<Longrightarrow> r \<noteq> Inr PollPending \<Longrightarrow>
    lk_step y (y\<lparr>lr_lock := l', lr_world := w', lr_waits := (lr_waits y)(i := None),
                 lr_guards := lr_guards y + (if r = Inr (PollReady (Inr LockRef)) then 1 else 0)\<rparr>)"
| attempt: "try_lock (lr_lock y) (lr_world y) = (g, l', w') \<Longrightarrow>
    lk_step y (y\<lparr>lr_lock := l', lr_world := w', lr_guards := lr_guards y + (if g = None then 0 else 1)\<rparr>)"
| leave: "lr_waits y i = Some fut \<Longrightarrow> await_drop lk_source fut (lr_lock y) (lr_world y) = (l', w') \<Longrightarrow>
    lk_step y (y\<lparr>lr_lock := l', lr_world := w', lr_waits := (lr_waits y)(i := None)\<rparr>)"
| cancel: "lr_waits y i = Some (Suspended f) \<Longrightarrow> wf_wait_data f = Some n \<Longrightarrow>
    cancel_wait n (ev_waiting_tasks (lk_unlocked (lr_lock y))) (lr_world y) = (q', w') \<Longrightarrow>
    lk_step y (y\<lparr>lr_lock := ws_set_list lk_source q' (lr_lock y), lr_world := w'\<rparr>)"
| access: "0 < lr_guards y \<Longrightarrow> lk_step y (y\<lparr>lr_lock := lock_ref_deref_mut f (lr_lock y)\<rparr>)"
| unlock: "0 < lr_guards y \<Longrightarrow> lock_ref_drop (lr_lock y) (lr_world y) = (l', w') \<Longrightarrow>
    lk_step y (y\<lparr>lr_lock := l', lr_world := w', lr_guards := lr_guards y - 1\<rparr>)"

definition lk_start :: "nat \<Rightarrow> 'v \<Rightarrow> world \<Rightarrow> 'v lock_run" where
  "lk_start i v w =
     (case lk_new i v w of (l, w') \<Rightarrow> \<lparr>lr_lock = l, lr_world = w', lr_waits = Map.empty, lr_guards = 0\<rparr>)"

definition as_pool :: "'v lock_run \<Rightarrow> 'v async_lock pool_system" where
  "as_pool y = \<lparr>ps_state = lr_lock y, ps_world = lr_world y, ps_futures = lr_waits y,
     ps_taken = lr_guards y, ps_given = 0\<rparr>"

definition lk_inv :: "'v lock_run \<Rightarrow> bool" where
  "lk_inv y \<longleftrightarrow> lk_pool.pool_inv 1 (as_pool y)"

lemma lk_inv_guards: "lk_inv y \<Longrightarrow> lk_permits (lr_lock y) + lr_guards y = 1"
  unfolding lk_inv_def lk_pool.pool_inv_def by (simp add: as_pool_def)

lemma lk_inv_pool_step:
  assumes "lk_inv y" "pool_step lk_source lock_step lock_ref_drop (Some 1) (as_pool y) p" "p = as_pool z"
  shows "lk_inv z"
  using lk_pool.pool_inv_step [OF assms(2)] assms(1,3) by (simp add: lk_inv_def)

lemma lk_inv_start: "lk_inv (lk_start i v w)"
  unfolding lk_inv_def lk_pool.pool_inv_def
  by (simp add: as_pool_def lk_start_def lk_new_def ev_set_new lk_permits_def ev_with_state_def
      well_formed_def fair_empty)

lemma lk_inv_step:
  assumes "lk_step y z" "lk_inv y"
  shows "lk_inv z"
  using assms(1)
proof cases
  case (start i)
  show ?thesis
    by (rule lk_inv_pool_step [OF assms(2) pool_step.start [of "as_pool y" i]])
      (use start in \<open>simp_all add: as_pool_def\<close>)
next
  case (suspend i fut g c fut' l' w')
  show ?thesis
    by (rule lk_inv_pool_step [OF assms(2) pool_step.suspend [of "as_pool y" i fut _ _ g c fut' l' w']])
      (use suspend in \<open>simp_all add: as_pool_def lock_poll_def\<close>)
next
  case (finish i fut g c r fut' l' w')
  have r: "(\<exists>a. r = Inr (PollReady (Inr a))) = (r = Inr (PollReady (Inr LockRef)))"
    by (metis lock_ref.exhaust)
  show ?thesis
    by (rule lk_inv_pool_step [OF assms(2) pool_step.finish [of "as_pool y" i fut _ _ g c r fut' l' w']])
      (use finish r in \<open>simp_all add: as_pool_def lock_poll_def\<close>)
next
  case (attempt g l' w')
  let ?l = "lr_lock y" and ?w = "lr_world y" and ?F = "waiting (lr_waits y)"
  show ?thesis
  proof (cases g)
    case None
    with attempt have "z = y" by (auto simp: try_lock_eq lock_step_def split: if_splits prod.splits)
    with assms(2) show ?thesis by simp
  next
    case (Some a)
    then have w': "wl_wake_all (ev_waiting_tasks (lk_unlocked ?l)) ?w = (ev_waiting_tasks (lk_unlocked l'), w')"
      "lk_permits ?l = 1" "lk_permits l' = 0"
      using attempt by (auto simp: try_lock_eq lock_step_def ev_is_set_def lk_permits_def ev_reset_effect
          split: if_splits prod.splits)
    have inv: "fair (lk_permits ?l) (ev_waiting_tasks (lk_unlocked ?l)) (woken ?w) ?F" "well_formed (lr_waits y)"
      using assms(2) unfolding lk_inv_def lk_pool.pool_inv_def by (simp_all add: as_pool_def)
    from room_wake_all [OF fair_room [OF inv(1)] w'(1) refl] finite_waiting [OF inv(2)]
    have "fair 0 (ev_waiting_tasks (lk_unlocked l')) (woken w') ?F" by (intro fair_empty) simp_all
    with inv(2) w' Some attempt lk_inv_guards [OF assms(2)] show ?thesis
      unfolding lk_inv_def lk_pool.pool_inv_def by (simp add: as_pool_def)
  qed
next
  case (leave i fut l' w')
  show ?thesis
    by (rule lk_inv_pool_step [OF assms(2) pool_step.leave [of "as_pool y" i fut _ l' w']])
      (use leave in \<open>simp_all add: as_pool_def\<close>)
next
  case (cancel i f n q' w')
  show ?thesis
    by (rule lk_inv_pool_step [OF assms(2) pool_step.cancel [of "as_pool y" i f n _ q' w']])
      (use cancel in \<open>simp_all add: as_pool_def\<close>)
next
  case (access f)
  with assms(2) show ?thesis
    unfolding lk_inv_def lk_pool.pool_inv_def by (simp add: as_pool_def lock_ref_deref_mut_def lk_permits_def)
next
  case (unlock l' w')
  have "pool_step lk_source lock_step lock_ref_drop (Some 1) (as_pool y)
      ((as_pool y)\<lparr>ps_state := l', ps_world := w', ps_given := ps_given (as_pool y) + 1\<rparr>)"
    by (rule pool_step.give_back) (use unlock in \<open>simp_all add: as_pool_def\<close>)
  from lk_pool.pool_inv_step [OF this] assms(2)
  have "lk_pool.pool_inv 1 ((as_pool y)\<lparr>ps_state := l', ps_world := w', ps_given := 1\<rparr>)"
    by (simp add: lk_inv_def as_pool_def)
  with unlock show ?thesis unfolding lk_inv_def lk_pool.pool_inv_def by (auto simp: as_pool_def)
qed

text \<open>
  C16: An \<open>AsyncLock\<close> excludes, and no wake-up of it is lost. Under every schedule of \<open>lock\<close>
  futures, \<open>try_lock\<close> calls, cancellations and drops, at most one \<open>AsyncLockRef\<close> is alive, and
  the lock is unlocked exactly when none is; and whenever it is unlocked while some \<open>lock\<close> is
  suspended, the task of a suspended \<open>lock\<close> has been woken.
\<close>

theorem lock_excludes:
  assumes "lk_step\<^sup>*\<^sup>* (lk_start i v w) y"
  shows "lr_guards y \<le> 1 \<and> (ev_is_set (lk_unlocked (lr_lock y)) \<longleftrightarrow> lr_guards y = 0) \<and>
    (lr_guards y = 0 \<and> lr_waits y j = Some (Suspended f) \<longrightarrow>
      (\<exists>k g. lr_waits y k = Some (Suspended g) \<and> k \<in> woken (lr_world y)))"
proof -
  have inv: "lk_inv y"
    using assms by (induction rule: rtranclp_induct) (auto intro: lk_inv_start lk_inv_step)
  then have sum: "lk_permits (lr_lock y) + lr_guards y = 1" by (rule lk_inv_guards)
  have "0 < lk_permits (lr_lock y) \<Longrightarrow> lr_waits y j = Some (Suspended f) \<Longrightarrow>
      \<exists>k g. lr_waits y k = Some (Suspended g) \<and> k \<in> woken (lr_world y)"
    using lk_pool.pool_progress [OF inv [unfolded lk_inv_def], of j f] by (simp add: as_pool_def)
  with sum show ?thesis by (auto simp: lk_permits_def ev_is_set_def split: if_splits)
qed

theorem lock_excludes_witness:
  "\<exists>y. lk_step\<^sup>*\<^sup>* (lk_start 0 (5::nat) idle_world) y \<and> lr_guards y = 1 \<and> \<not> ev_is_set (lk_unlocked (lr_lock y))"
proof -
  let ?y = "lk_start 0 (5::nat) idle_world"
  obtain g l' w' where t: "try_lock (lr_lock ?y) (lr_world ?y) = (g, l', w')"
    by (cases "try_lock (lr_lock ?y) (lr_world ?y)")
  then have g: "g = Some LockRef"
    by (auto simp: try_lock_def lk_start_def lk_new_def ev_set_new ev_with_state_def ev_is_set_def split: prod.splits)
  let ?z = "?y\<lparr>lr_lock := l', lr_world := w', lr_guards := lr_guards ?y + (if g = None then 0 else 1)\<rparr>"
  have r: "lk_step\<^sup>*\<^sup>* ?y ?z"
    by (rule r_into_rtranclp, rule lk_step.attempt [OF t])
  have "lr_guards ?y = 0" by (simp add: lk_start_def lk_new_def ev_set_new)
  with lock_excludes [OF r] g have "lr_guards ?z = 1 \<and> \<not> ev_is_set (lk_unlocked (lr_lock ?z))" by simp
  with r show ?thesis by blast
qed

end
