(* ===== verification/Async_Rw_Lock.thy ===== *)
theory Async_Rw_Lock
  imports Permit_Pool
begin

text \<open>
  \<open>kimojio/src/async_reader_writer_lock.rs\<close>. The lock has two events, one that readers wait on
  and one that writers wait on. \<open>lock_write\<close> runs with a scope guard that sets the read event
  when the function is left without the write lock; the guard is part of the poll and of the
  drop of a \<open>lock_write\<close> future here. The \<open>debug_assert!\<close> of \<open>assert_valid\<close> is the predicate
  \<open>rw_assert_valid\<close>, which the invariant shows to hold wherever the code checks it.
\<close>

section \<open>The lock\<close>

record 'v rw_lock =
  rw_data :: 'v
  rw_readers :: nat
  rw_writer :: bool
  rw_read_event :: async_event
  rw_write_event :: async_event

datatype write_ref = WriteRef
datatype read_ref = ReadRef

definition rw_new :: "nat \<Rightarrow> nat \<Rightarrow> 'v \<Rightarrow> world \<Rightarrow> 'v rw_lock \<times> world" where
  "rw_new i j v w =
     (case ev_set (ev_new i) w of (re, w1) \<Rightarrow>
        (case ev_set (ev_new j) w1 of (we, w2) \<Rightarrow>
           (\<lparr>rw_data = v, rw_readers = 0, rw_writer = False, rw_read_event = re,
             rw_write_event = we\<rparr>, w2)))"

definition rw_assert_valid :: "'v rw_lock \<Rightarrow> bool" where
  "rw_assert_valid s \<longleftrightarrow> \<not> rw_writer s \<or> rw_readers s = 0"

definition rw_read_source :: "'v rw_lock wait_source" where
  "rw_read_source =
     \<lparr>ws_is_complete = (\<lambda>s. ev_state (rw_read_event s)),
      ws_list = (\<lambda>s. ev_waiting_tasks (rw_read_event s)),
      ws_set_list = (\<lambda>l s. s\<lparr>rw_read_event := (rw_read_event s)\<lparr>ev_waiting_tasks := l\<rparr>\<rparr>)\<rparr>"

definition rw_write_source :: "'v rw_lock wait_source" where
  "rw_write_source =
     \<lparr>ws_is_complete = (\<lambda>s. ev_state (rw_write_event s)),
      ws_list = (\<lambda>s. ev_waiting_tasks (rw_write_event s)),
      ws_set_list = (\<lambda>l s. s\<lparr>rw_write_event := (rw_write_event s)\<lparr>ev_waiting_tasks := l\<rparr>\<rparr>)\<rparr>"

definition rw_reset_read :: "'v rw_lock \<Rightarrow> world \<Rightarrow> 'v rw_lock \<times> world" where
  "rw_reset_read s w = (case ev_reset (rw_read_event s) w of (e, w') \<Rightarrow> (s\<lparr>rw_read_event := e\<rparr>, w'))"

definition rw_reset_write :: "'v rw_lock \<Rightarrow> world \<Rightarrow> 'v rw_lock \<times> world" where
  "rw_reset_write s w = (case ev_reset (rw_write_event s) w of (e, w') \<Rightarrow> (s\<lparr>rw_write_event := e\<rparr>, w'))"

definition rw_set_read :: "'v rw_lock \<Rightarrow> world \<Rightarrow> 'v rw_lock \<times> world" where
  "rw_set_read s w = (case ev_set (rw_read_event s) w of (e, w') \<Rightarrow> (s\<lparr>rw_read_event := e\<rparr>, w'))"

definition rw_set_write :: "'v rw_lock \<Rightarrow> world \<Rightarrow> 'v rw_lock \<times> world" where
  "rw_set_write s w = (case ev_set (rw_write_event s) w of (e, w') \<Rightarrow> (s\<lparr>rw_write_event := e\<rparr>, w'))"

definition lock_write_step :: "('v rw_lock, write_ref) await_step" where
  "lock_write_step s w =
     (if rw_readers s > 0 \<or> rw_writer s then (None, s, w)
      else
        (case rw_reset_write (s\<lparr>rw_writer := True\<rparr>) w of
           (s1, w1) \<Rightarrow> (case rw_reset_read s1 w1 of (s2, w2) \<Rightarrow> (Some WriteRef, s2, w2))))"

text \<open>The scope guard of \<open>lock_write\<close>.\<close>

definition wake_readers_on_cancel :: "'v rw_lock \<Rightarrow> world \<Rightarrow> 'v rw_lock \<times> world" where
  "wake_readers_on_cancel s w = (if \<not> rw_writer s then rw_set_read s w else (s, w))"

definition lock_write_poll ::
    "poll_context \<Rightarrow> await_future \<Rightarrow> 'v rw_lock \<Rightarrow> world \<Rightarrow>
     (canceled_error + write_ref, await_future, 'v rw_lock) poll_result option" where
  "lock_write_poll cx fut s w =
     (case await_poll rw_write_source lock_write_step cx fut s w of
        None \<Rightarrow> None
      | Some (r, fut', s1, w1) \<Rightarrow>
          if r = Inr PollPending \<or> fut = Finished then Some (r, fut', s1, w1)
          else (case wake_readers_on_cancel s1 w1 of (s2, w2) \<Rightarrow> Some (r, fut', s2, w2)))"

definition lock_write_drop :: "await_future \<Rightarrow> 'v rw_lock \<Rightarrow> world \<Rightarrow> 'v rw_lock \<times> world" where
  "lock_write_drop fut s w =
     (case fut of
        Suspended f \<Rightarrow> (case await_drop rw_write_source fut s w of (s1, w1) \<Rightarrow> wake_readers_on_cancel s1 w1)
      | _ \<Rightarrow> (s, w))"

definition lock_read_step :: "('v rw_lock, read_ref) await_step" where
  "lock_read_step s w =
     (if rw_writer s then (None, s, w)
      else (case rw_reset_write (s\<lparr>rw_readers := rw_readers s + 1\<rparr>) w of (s1, w1) \<Rightarrow> (Some ReadRef, s1, w1)))"

definition lock_read_poll ::
    "poll_context \<Rightarrow> await_future \<Rightarrow> 'v rw_lock \<Rightarrow> world \<Rightarrow>
     (canceled_error + read_ref, await_future, 'v rw_lock) poll_result option" where
  "lock_read_poll = await_poll rw_read_source lock_read_step"

definition lock_read_drop :: "await_future \<Rightarrow> 'v rw_lock \<Rightarrow> world \<Rightarrow> 'v rw_lock \<times> world" where
  "lock_read_drop = await_drop rw_read_source"

definition write_ref_drop :: "'v rw_lock \<Rightarrow> world \<Rightarrow> 'v rw_lock \<times> world" where
  "write_ref_drop s w =
     (let s1 = s\<lparr>rw_writer := False\<rparr> in
      if ev_any_waiting (rw_write_event s1) then
        (case ev_set_wake_one (rw_write_event s1) w of
           (e1, w1) \<Rightarrow> (case ev_set_wake_n 0 (rw_read_event s1) w1 of
              (e2, w2) \<Rightarrow> (s1\<lparr>rw_write_event := e1, rw_read_event := e2\<rparr>, w2)))
      else
        (case rw_set_write s1 w of (s2, w2) \<Rightarrow> rw_set_read s2 w2))"

definition read_ref_drop :: "'v rw_lock \<Rightarrow> world \<Rightarrow> 'v rw_lock \<times> world" where
  "read_ref_drop s w =
     (let readers = rw_readers s - 1; s1 = s\<lparr>rw_readers := readers\<rparr> in
      if readers = 0 then rw_set_write s1 w else (s1, w))"

text \<open>The first poll of \<open>ReadRef::upgrade\<close>: the read lock is released, then \<open>lock_write\<close> starts.\<close>

definition upgrade_poll ::
    "poll_context \<Rightarrow> 'v rw_lock \<Rightarrow> world \<Rightarrow>
     (canceled_error + write_ref, await_future, 'v rw_lock) poll_result option" where
  "upgrade_poll cx s w = (case read_ref_drop s w of (s1, w1) \<Rightarrow> lock_write_poll cx Unstarted s1 w1)"

definition rw_deref :: "'v rw_lock \<Rightarrow> 'v" where
  "rw_deref s = rw_data s"

definition rw_deref_mut :: "('v \<Rightarrow> 'v) \<Rightarrow> 'v rw_lock \<Rightarrow> 'v rw_lock" where
  "rw_deref_mut f s = s\<lparr>rw_data := f (rw_data s)\<rparr>"

section \<open>The two loops\<close>

definition rw_ok :: "'v rw_lock \<Rightarrow> bool" where
  "rw_ok s \<longleftrightarrow> rw_assert_valid s \<and> (ev_state (rw_read_event s) \<longleftrightarrow> \<not> rw_writer s) \<and>
     (ev_state (rw_write_event s) \<longleftrightarrow> \<not> rw_writer s \<and> rw_readers s = 0)"

lemma rw_source_simps [simp]:
  "ws_is_complete rw_read_source s = ev_state (rw_read_event s)"
  "ws_list rw_read_source s = ev_waiting_tasks (rw_read_event s)"
  "ws_set_list rw_read_source l s = s\<lparr>rw_read_event := (rw_read_event s)\<lparr>ev_waiting_tasks := l\<rparr>\<rparr>"
  "ws_is_complete rw_write_source s = ev_state (rw_write_event s)"
  "ws_list rw_write_source s = ev_waiting_tasks (rw_write_event s)"
  "ws_set_list rw_write_source l s = s\<lparr>rw_write_event := (rw_write_event s)\<lparr>ev_waiting_tasks := l\<rparr>\<rparr>"
  by (simp_all add: rw_read_source_def rw_write_source_def)

lemma rw_ok_put [simp]:
  "rw_ok (s\<lparr>rw_read_event := (rw_read_event s)\<lparr>ev_waiting_tasks := l\<rparr>\<rparr>) = rw_ok s"
  "rw_ok (s\<lparr>rw_write_event := (rw_write_event s)\<lparr>ev_waiting_tasks := l\<rparr>\<rparr>) = rw_ok s"
  by (simp_all add: rw_ok_def rw_assert_valid_def)

text \<open>What a reset does to its own list; the other list and the world's other parts stay.\<close>

lemma rw_reset_effect:
  "rw_reset_read s w = (s', w') \<longleftrightarrow> (\<exists>e. s' = s\<lparr>rw_read_event := e\<rparr> \<and> \<not> ev_state e \<and>
     wl_wake_all (ev_waiting_tasks (rw_read_event s)) w = (ev_waiting_tasks e, w'))"
  "rw_reset_write s w = (s', w') \<longleftrightarrow> (\<exists>e. s' = s\<lparr>rw_write_event := e\<rparr> \<and> \<not> ev_state e \<and>
     wl_wake_all (ev_waiting_tasks (rw_write_event s)) w = (ev_waiting_tasks e, w'))"
  "rw_set_read s w = (s', w') \<longleftrightarrow> (\<exists>e. s' = s\<lparr>rw_read_event := e\<rparr> \<and> ev_state e \<and>
     wl_wake_all (ev_waiting_tasks (rw_read_event s)) w = (ev_waiting_tasks e, w'))"
  "rw_set_write s w = (s', w') \<longleftrightarrow> (\<exists>e. s' = s\<lparr>rw_write_event := e\<rparr> \<and> ev_state e \<and>
     wl_wake_all (ev_waiting_tasks (rw_write_event s)) w = (ev_waiting_tasks e, w'))"
  using ev_reset_effect ev_set_effect
  by (auto simp: rw_reset_read_def rw_reset_write_def rw_set_read_def rw_set_write_def split: prod.splits)

lemma rw_ok_steps:
  "rw_ok s \<Longrightarrow> lock_read_step s w = (r, s', w') \<Longrightarrow> rw_ok s'"
  "rw_ok s \<Longrightarrow> lock_write_step s w = (q, s', w') \<Longrightarrow> rw_ok s'"
  by (auto simp: rw_ok_def rw_assert_valid_def lock_read_step_def lock_write_step_def rw_reset_effect
      split: if_splits prod.splits)

interpretation rw_read_src: lawful_source rw_read_source
  by unfold_locales simp_all

interpretation rw_write_src: lawful_source rw_write_source
  by unfold_locales simp_all

lemma lock_read_stepD:
  assumes "lock_read_step s w = (r, s', w')"
  shows "if rw_writer s then r = None \<and> s' = s \<and> w' = w
    else r = Some ReadRef \<and> (\<exists>e. s' = s\<lparr>rw_readers := rw_readers s + 1, rw_write_event := e\<rparr> \<and> \<not> ev_state e \<and>
      wl_wake_all (ev_waiting_tasks (rw_write_event s)) w = (ev_waiting_tasks e, w'))"
  using assms by (auto simp: lock_read_step_def rw_reset_effect split: if_splits prod.splits)

lemma lock_write_stepD:
  assumes "lock_write_step s w = (r, s', w')"
  shows "if rw_readers s > 0 \<or> rw_writer s then r = None \<and> s' = s \<and> w' = w
    else r = Some WriteRef \<and> (\<exists>e1 w1 e2. s' = s\<lparr>rw_writer := True, rw_write_event := e1, rw_read_event := e2\<rparr> \<and>
      \<not> ev_state e1 \<and> \<not> ev_state e2 \<and>
      wl_wake_all (ev_waiting_tasks (rw_write_event s)) w = (ev_waiting_tasks e1, w1) \<and>
      wl_wake_all (ev_waiting_tasks (rw_read_event s)) w1 = (ev_waiting_tasks e2, w'))"
  using assms by (auto simp: lock_write_step_def rw_reset_effect split: if_splits prod.splits) blast

interpretation read_loop: await_loop rw_read_source lock_read_step rw_ok
proof unfold_locales
  fix s w r s' w'
  assume ok: "rw_ok s" and st: "lock_read_step s w = (r, s', w')"
  show "rw_ok s'" using rw_ok_steps(1) [OF ok st] .
  fix F assume room: "room (ws_list rw_read_source s) (woken w) F"
  show more: "woken w \<subseteq> woken w'"
    using lock_read_stepD [OF st] by (auto split: if_splits dest: wake_all_more)
  have "rw_read_event s' = rw_read_event s"
    using lock_read_stepD [OF st] by (auto split: if_splits)
  then show "room (ws_list rw_read_source s') (woken w') F"
    using room_more [OF room more] by simp
next
  fix s w s' w'
  assume "rw_ok s" "lock_read_step s w = (None, s', w')"
  then show "\<not> ws_is_complete rw_read_source s'"
    using lock_read_stepD [of s w None s' w'] by (auto simp: rw_ok_def split: if_splits)
qed simp

interpretation write_loop: await_loop rw_write_source lock_write_step rw_ok
proof unfold_locales
  fix s w r s' w'
  assume ok: "rw_ok s" and st: "lock_write_step s w = (r, s', w')"
  show "rw_ok s'" using rw_ok_steps(2) [OF ok st] .
  fix F assume room: "room (ws_list rw_write_source s) (woken w) F"
  show "woken w \<subseteq> woken w'"
    using lock_write_stepD [OF st] by (auto split: if_splits dest!: wake_all_more)
  show "room (ws_list rw_write_source s') (woken w') F"
  proof (cases "rw_readers s > 0 \<or> rw_writer s")
    case True
    with lock_write_stepD [OF st] room show ?thesis by simp
  next
    case False
    with lock_write_stepD [OF st] obtain e1 w1 where e1: "rw_write_event s' = e1"
      "wl_wake_all (ev_waiting_tasks (rw_write_event s)) w = (ev_waiting_tasks e1, w1)" "woken w1 \<subseteq> woken w'"
      by (auto dest: wake_all_more)
    from room_wake_all(1) [OF room _ refl] e1 show ?thesis by (auto intro: room_more)
  qed
next
  fix s w s' w'
  assume "rw_ok s" "lock_write_step s w = (None, s', w')"
  then show "\<not> ws_is_complete rw_write_source s'"
    using lock_write_stepD [of s w None s' w'] by (auto simp: rw_ok_def split: if_splits)
qed simp

section \<open>The invariant\<close>

text \<open>
  \<open>rw_room s w R W\<close>: \<open>R\<close> and \<open>W\<close> are the pending \<open>lock_read\<close> and \<open>lock_write\<close> futures. The
  writers are in a fair queue for the one permit to write; a reader that sleeps although there
  is no writer relies on a writer that waits.
\<close>

definition rw_permits :: "'v rw_lock \<Rightarrow> nat" where
  "rw_permits s = (if ev_state (rw_write_event s) then 1 else 0)"

definition rw_room ::
    "'v rw_lock \<Rightarrow> world \<Rightarrow> (nat \<rightharpoonup> await_future) \<Rightarrow> (nat \<rightharpoonup> await_future) \<Rightarrow> bool" where
  "rw_room s w R W \<longleftrightarrow>
     rw_ok s \<and> well_formed R \<and> well_formed W \<and> dom R \<inter> dom W = {} \<and>
     room (ev_waiting_tasks (rw_read_event s)) (woken w) (waiting R) \<and>
     fair (rw_permits s) (ev_waiting_tasks (rw_write_event s)) (woken w) (waiting W) \<and>
     (rw_writer s \<or> waiting W \<noteq> Map.empty \<or>
      set (wl_queue (ev_waiting_tasks (rw_read_event s))) \<inter> ran (waiting R) = {})"

lemma waiting_None: "f i = None \<Longrightarrow> waiting f i = None"
  by (simp add: waiting_def)

lemma ran_remove: "ran (F(i := None)) \<subseteq> ran F"
  by (auto simp: ran_def split: if_splits)

lemma poll_read_room:
  assumes "rw_room s w R W" "R i = Some fut"
    "lock_read_poll \<lparr>cx_waker = i, cx_tag = g\<rparr> fut s (deliver i c w) = Some (r, fut', s', w')"
  shows "rw_writer s' = rw_writer s"
    "r = Inr PollPending \<Longrightarrow> rw_room s' w' (R(i \<mapsto> fut')) W \<and> rw_readers s' = rw_readers s"
    "r \<noteq> Inr PollPending \<Longrightarrow> rw_room s' w' (R(i := None)) W \<and>
       rw_readers s' = rw_readers s + (if r = Inr (PollReady (Inr ReadRef)) then 1 else 0)"
proof -
  let ?F = "waiting R" and ?l = "ev_waiting_tasks (rw_read_event s)" and ?cx = "\<lparr>cx_waker = i, cx_tag = g\<rparr>"
  from assms(1) have inv: "rw_ok s" "well_formed R" "well_formed W" "dom R \<inter> dom W = {}"
    "room ?l (woken w) ?F" "fair (rw_permits s) (ev_waiting_tasks (rw_write_event s)) (woken w) (waiting W)"
    "rw_writer s \<or> waiting W \<noteq> Map.empty \<or> set (wl_queue ?l) \<inter> ran ?F = {}"
    by (simp_all add: rw_room_def)
  have was: "waits_as fut (?F (cx_waker ?cx))" using inv(2) assms(2) by (simp add: well_formed_def)
  have Wi: "waiting W i = None" using inv(4) assms(2) by (intro waiting_None) (auto simp: domIff)
  note wf' = well_formed_remove [OF inv(2), of i]
  have disj: "dom (R(i := x)) \<inter> dom W = {}" for x using inv(4) assms(2) by (auto split: if_splits)
  have none: "s0 = s" if "s0 = s \<or> (\<exists>w2. lock_read_step s (deliver i c w) = (None, s0, w2))" for s0
    using that lock_read_stepD [of s "deliver i c w"] by (auto split: if_splits)
  have room0: "room (ws_list rw_read_source s) (woken w) ?F" using inv(5) by simp
  from inv(1) room0 was
  have "rw_writer s' = rw_writer s \<and>
    (r = Inr PollPending \<longrightarrow> rw_room s' w' (R(i \<mapsto> fut')) W \<and> rw_readers s' = rw_readers s) \<and>
    (r \<noteq> Inr PollPending \<longrightarrow> rw_room s' w' (R(i := None)) W \<and>
       rw_readers s' = rw_readers s + (if r = Inr (PollReady (Inr ReadRef)) then 1 else 0))"
  proof (cases rule: read_loop.poll_cases [where c = c])
    case (finished a s1 w1)
    have eq: "r = Inr (PollReady (Inr a))" "s' = s1" "w' = w1"
      using finished(1) assms(3) by (auto simp: lock_read_poll_def)
    from lock_read_stepD [OF finished(2)] obtain e where e: "\<not> rw_writer s" "a = ReadRef"
      "s1 = s\<lparr>rw_readers := rw_readers s + 1, rw_write_event := e\<rparr>" "\<not> ev_state e"
      "wl_wake_all (ev_waiting_tasks (rw_write_event s)) (deliver i c w) = (ev_waiting_tasks e, w1)"
      by (auto split: if_splits)
    have f0: "fair (rw_permits s) (ev_waiting_tasks (rw_write_event s)) (woken (deliver i c w)) (waiting W)"
      using fair_other [OF inv(6) Wi] by simp
    note wake = room_wake_all [OF fair_room [OF f0] e(5) refl]
    have "fair (rw_permits s1) (ev_waiting_tasks (rw_write_event s1)) (woken w1) (waiting W)"
      using wake finite_waiting [OF inv(3)] e(3) by (intro fair_empty) simp_all
    moreover have "room ?l (woken w1) (?F(i := None))"
      using room_deliver [OF inv(5), of i] wake(5) by (auto intro: room_more)
    moreover have "rw_ok s1" using rw_ok_steps(1) [OF inv(1) finished(2)] .
    ultimately show ?thesis
      using eq e wf' inv(3,7) disj [of None] ran_remove [of ?F i]
      by (auto simp: rw_room_def waiting_upd)
  next
    case (failed r0 l' s1 w1 s0)
    have eq: "r = r0" "s' = s1" "w' = w1" using failed(1) assms(3) by (auto simp: lock_read_poll_def)
    have s0: "s0 = s" using none failed(4) by simp
    have "set (wl_queue l') \<subseteq> set (wl_queue ?l)"
      using failed(7) by (auto dest: subsetD [OF set_remove1_subset])
    moreover have "fair (rw_permits s) (ev_waiting_tasks (rw_write_event s)) (woken w1) (waiting W)"
      using fair_other [OF inv(6) Wi] failed(8) by simp
    ultimately show ?thesis
      using eq failed(2,3,5,6) s0 wf' inv(1,3,7) disj [of None] ran_remove [of ?F i]
      by (auto simp: rw_room_def waiting_upd rw_permits_def)
  next
    case (pending n l' s1 w1 s0)
    have eq: "r = Inr PollPending" "s' = s1" "w' = w1"
      "fut' = Suspended \<lparr>wf_source = True, wf_wait_data = Some n\<rparr>"
      using pending(1) assms(3) by (auto simp: lock_read_poll_def)
    have s0: "s0 = s" using none pending(2) by simp
    have was': "waits_as fut' (Some n)" by (simp add: eq waits_as_def)
    have "rw_writer s" using pending(3) s0 inv(1) by (simp add: rw_ok_def)
    moreover have "fair (rw_permits s) (ev_waiting_tasks (rw_write_event s)) (woken w1) (waiting W)"
      using fair_other [OF inv(6) Wi] pending(8) by simp
    ultimately show ?thesis
      using eq pending(4,5) s0 inv(1,3) disj [of "Some fut'"] well_formed_upd(1) [OF inv(2) was', of i]
        well_formed_upd(2) [OF was', of R i]
      by (simp add: rw_room_def rw_permits_def)
  qed
  then show "rw_writer s' = rw_writer s"
    "r = Inr PollPending \<Longrightarrow> rw_room s' w' (R(i \<mapsto> fut')) W \<and> rw_readers s' = rw_readers s"
    "r \<noteq> Inr PollPending \<Longrightarrow> rw_room s' w' (R(i := None)) W \<and>
       rw_readers s' = rw_readers s + (if r = Inr (PollReady (Inr ReadRef)) then 1 else 0)" by blast+
qed

text \<open>Leaving \<open>lock_write\<close> without the lock: the scope guard wakes the readers.\<close>

lemma rw_room_guard:
  assumes "rw_ok s" "well_formed R" "well_formed W" "dom R \<inter> dom W = {}"
    "room (ev_waiting_tasks (rw_read_event s)) (woken w) (waiting R)"
    "fair (rw_permits s) (ev_waiting_tasks (rw_write_event s)) (woken w) (waiting W)"
    "wake_readers_on_cancel s w = (s', w')"
  shows "rw_room s' w' R W" "rw_readers s' = rw_readers s" "rw_writer s' = rw_writer s"
proof -
  have "rw_room s' w' R W \<and> rw_readers s' = rw_readers s \<and> rw_writer s' = rw_writer s"
  proof (cases "rw_writer s")
    case True
    with assms show ?thesis by (simp add: wake_readers_on_cancel_def rw_room_def)
  next
    case False
    with assms(7) obtain e where e: "s' = s\<lparr>rw_read_event := e\<rparr>" "ev_state e"
      "wl_wake_all (ev_waiting_tasks (rw_read_event s)) w = (ev_waiting_tasks e, w')"
      by (auto simp: wake_readers_on_cancel_def rw_reset_effect)
    note wake = room_wake_all [OF assms(5) e(3) refl]
    have "fair (rw_permits s) (ev_waiting_tasks (rw_write_event s)) (woken w') (waiting W)"
      using assms(6) wake(5) by (auto simp: fair_def intro: room_more)
    with assms(1-4) e(1,2) wake(1,2) False show ?thesis
      by (simp add: rw_room_def rw_permits_def rw_ok_def rw_assert_valid_def)
  qed
  then show "rw_room s' w' R W" "rw_readers s' = rw_readers s" "rw_writer s' = rw_writer s" by blast+
qed

lemma poll_write_room:
  assumes "rw_room s w R W" "W i = Some fut"
    "lock_write_poll \<lparr>cx_waker = i, cx_tag = g\<rparr> fut s (deliver i c w) = Some (r, fut', s', w')"
  shows "rw_readers s' = rw_readers s"
    "r = Inr PollPending \<Longrightarrow> rw_room s' w' R (W(i \<mapsto> fut')) \<and> rw_writer s' = rw_writer s"
    "r \<noteq> Inr PollPending \<Longrightarrow> rw_room s' w' R (W(i := None)) \<and>
       (if r = Inr (PollReady (Inr WriteRef)) then \<not> rw_writer s \<and> rw_writer s' else rw_writer s' = rw_writer s)"
proof -
  let ?F = "waiting W" and ?l = "ev_waiting_tasks (rw_write_event s)" and ?cx = "\<lparr>cx_waker = i, cx_tag = g\<rparr>"
  from assms(1) have inv: "rw_ok s" "well_formed R" "well_formed W" "dom R \<inter> dom W = {}"
    "room (ev_waiting_tasks (rw_read_event s)) (woken w) (waiting R)" "fair (rw_permits s) ?l (woken w) ?F"
    "rw_writer s \<or> ?F \<noteq> Map.empty \<or> set (wl_queue (ev_waiting_tasks (rw_read_event s))) \<inter> ran (waiting R) = {}"
    by (simp_all add: rw_room_def)
  have was: "waits_as fut (?F (cx_waker ?cx))" using inv(3) assms(2) by (simp add: well_formed_def)
  then have fut: "fut \<noteq> Finished" by (auto simp: waits_as_def split: option.splits)
  have Ri: "waiting R i = None" using inv(4) assms(2) by (intro waiting_None) (auto simp: domIff)
  note wf' = well_formed_remove [OF inv(3), of i]
  have fin: "finite (dom (?F(i := None)))" using finite_waiting [OF inv(3)] by simp
  have disj: "dom R \<inter> dom (W(i := x)) = {}" for x using inv(4) assms(2) by (auto split: if_splits)
  have none: "s0 = s" if "s0 = s \<or> (\<exists>w2. lock_write_step s (deliver i c w) = (None, s0, w2))" for s0
    using that lock_write_stepD [of s "deliver i c w"] by (auto split: if_splits)
  have comp: "ev_state (rw_write_event s) \<longleftrightarrow> rw_permits s > 0" by (simp add: rw_permits_def)
  from assms(3) obtain s2 w2 where
    poll: "await_poll rw_write_source lock_write_step ?cx fut s (deliver i c w) = Some (r, fut', s2, w2)"
    and res: "if r = Inr PollPending then s' = s2 \<and> w' = w2 else wake_readers_on_cancel s2 w2 = (s', w')"
    using fut by (auto simp: lock_write_poll_def split: option.splits if_splits prod.splits)
  have room0: "room (ws_list rw_write_source s) (woken w) ?F" using fair_room [OF inv(6)] by simp
  from inv(1) room0 was
  have "rw_readers s' = rw_readers s \<and>
    (r = Inr PollPending \<longrightarrow> rw_room s' w' R (W(i \<mapsto> fut')) \<and> rw_writer s' = rw_writer s) \<and>
    (r \<noteq> Inr PollPending \<longrightarrow> rw_room s' w' R (W(i := None)) \<and>
       (if r = Inr (PollReady (Inr WriteRef)) then \<not> rw_writer s \<and> rw_writer s' else rw_writer s' = rw_writer s))"
  proof (cases rule: write_loop.poll_cases [where c = c])
    case (finished a s1 w1)
    have eq: "r = Inr (PollReady (Inr a))" "s2 = s1" "w2 = w1" using finished(1) poll by auto
    from lock_write_stepD [OF finished(2)] obtain e1 w3 e2 where e: "\<not> rw_writer s" "a = WriteRef"
      "s1 = s\<lparr>rw_writer := True, rw_write_event := e1, rw_read_event := e2\<rparr>"
      "wl_wake_all ?l (deliver i c w) = (ev_waiting_tasks e1, w3)"
      "wl_wake_all (ev_waiting_tasks (rw_read_event s)) w3 = (ev_waiting_tasks e2, w1)"
      by (auto split: if_splits)
    have "room ?l (woken (deliver i c w)) (?F(i := None))"
      using room_deliver [OF fair_room [OF inv(6)]] by simp
    note wake1 = room_wake_all [OF this e(4) refl]
    have "room (ev_waiting_tasks (rw_read_event s)) (woken w3) (waiting R)"
      using room_other [OF inv(5) Ri] wake1(5) by simp
    note wake2 = room_wake_all [OF this e(5) refl]
    have "fair (rw_permits s1) (ev_waiting_tasks (rw_write_event s1)) (woken w1) (?F(i := None))"
      using wake1 wake2(5) e(3) fin by (intro fair_empty) (auto intro: room_more)
    moreover have "rw_ok s1" using rw_ok_steps(2) [OF inv(1) finished(2)] .
    moreover have "s' = s1" "w' = w1" using res eq e(3) by (simp_all add: wake_readers_on_cancel_def)
    ultimately show ?thesis using eq e wake2(1) wf' inv(2) disj [of None] by (simp add: rw_room_def waiting_upd)
  next
    case (failed r0 l' s1 w1 s0)
    have eq: "r = r0" "s2 = s1" "w2 = w1" using failed(1) poll by auto
    have s0: "s0 = s" using none failed(4) by simp
    have "fair (rw_permits s) l' (woken w1) (?F(i := None))"
      using failed(7)
    proof
      assume "wl_queue l' = []"
      with failed(6) fin show ?thesis by (intro fair_empty) simp_all
    next
      assume "\<not> ws_is_complete rw_write_source s0 \<and>
        (\<exists>n. ?F (cx_waker ?cx) = Some n \<and> s0 = s \<and> wl_queue l' = remove1 n (wl_queue (ws_list rw_write_source s)))"
      then obtain n where n: "rw_permits s = 0" "?F i = Some n" "wl_queue l' = remove1 n (wl_queue ?l)"
        using s0 comp by auto
      with inv(6) failed(6) show ?thesis by (auto intro: fair_leave)
    qed
    moreover have "room (ev_waiting_tasks (rw_read_event s)) (woken w1) (waiting R)"
      using room_other [OF inv(5) Ri] failed(8) by simp
    ultimately have "rw_room s' w' R (W(i := None)) \<and> rw_readers s' = rw_readers s1 \<and> rw_writer s' = rw_writer s1"
      using rw_room_guard [of s1 R "W(i := None)" w1 s' w'] res eq failed(3,5) s0 inv(1,2) wf' disj [of None]
      by (simp add: waiting_upd rw_permits_def)
    then show ?thesis using eq failed(2,3,5) s0 by auto
  next
    case (pending n l' s1 w1 s0)
    have eq: "r = Inr PollPending" "s2 = s1" "w2 = w1"
      "fut' = Suspended \<lparr>wf_source = True, wf_wait_data = Some n\<rparr>" using pending(1) poll by auto
    have s0: "s0 = s" using none pending(2) by simp
    have was': "waits_as fut' (Some n)" by (simp add: eq waits_as_def)
    have p0: "rw_permits s = 0" using pending(3) s0 comp by simp
    have "?F i = Some m \<Longrightarrow> m = n" for m using pending(7) [of m] p0 comp by simp
    with fair_wait [of ?l "woken w" ?F l' "woken w1" i n] inv(6) p0 pending(5,6) s0
    have "fair 0 l' (woken w1) (?F(i \<mapsto> n))" by simp
    moreover have "room (ev_waiting_tasks (rw_read_event s)) (woken w1) (waiting R)"
      using room_other [OF inv(5) Ri] pending(8) by simp
    ultimately show ?thesis
      using res eq pending(4) s0 p0 inv(1,2) disj [of "Some fut'"] well_formed_upd(1) [OF inv(3) was', of i]
        well_formed_upd(2) [OF was', of W i]
      by (auto simp: rw_room_def rw_permits_def)
  qed
  then show "rw_readers s' = rw_readers s"
    "r = Inr PollPending \<Longrightarrow> rw_room s' w' R (W(i \<mapsto> fut')) \<and> rw_writer s' = rw_writer s"
    "r \<noteq> Inr PollPending \<Longrightarrow> rw_room s' w' R (W(i := None)) \<and>
       (if r = Inr (PollReady (Inr WriteRef)) then \<not> rw_writer s \<and> rw_writer s' else rw_writer s' = rw_writer s)"
    by blast+
qed

end
