(* ===== verification/Rw_Lock_Runs.thy ===== *)
theory Rw_Lock_Runs
  imports Async_Rw_Lock
begin

text \<open>
  The system of all tasks that share an \<open>AsyncReaderWriterLock\<close>: the remaining operations keep
  the invariant, and the invariant gives exclusion and the absence of lost wake-ups.
\<close>

section \<open>The remaining operations\<close>

lemma rw_roomD:
  assumes "rw_room s w R W"
  shows "rw_ok s" "well_formed R" "well_formed W" "dom R \<inter> dom W = {}"
    "room (ev_waiting_tasks (rw_read_event s)) (woken w) (waiting R)"
    "fair (rw_permits s) (ev_waiting_tasks (rw_write_event s)) (woken w) (waiting W)"
    "rw_writer s \<or> waiting W \<noteq> Map.empty \<or>
      set (wl_queue (ev_waiting_tasks (rw_read_event s))) \<inter> ran (waiting R) = {}"
  using assms by (simp_all add: rw_room_def)

lemma fair_more: "fair t l K F \<Longrightarrow> K \<subseteq> K' \<Longrightarrow> fair t l K' F"
  by (auto simp: fair_def intro: room_more)

lemma drop_read_room:
  assumes "rw_room s w R W" "R i = Some fut" "lock_read_drop fut s w = (s', w')"
  shows "rw_room s' w' (R(i := None)) W \<and> rw_readers s' = rw_readers s \<and> rw_writer s' = rw_writer s"
proof -
  note inv = rw_roomD [OF assms(1)]
  have was: "waits_as fut (waiting R i)" using inv(2) assms(2) by (simp add: well_formed_def)
  show ?thesis
  proof (cases "waiting R i")
    case None
    with was assms(3) have "s' = s" "w' = w" by (auto simp: waits_as_def lock_read_drop_def await_drop_def)
    moreover have "(waiting R)(i := None) = waiting R" using None by auto
    ultimately show ?thesis
      using inv well_formed_remove [OF inv(2), of i] by (auto simp: rw_room_def waiting_upd)
  next
    case (Some n)
    let ?l = "ev_waiting_tasks (rw_read_event s)"
    from Some was assms(3)
    have "wf_drop rw_read_source \<lparr>wf_source = True, wf_wait_data = Some n\<rparr> s w = (s', w')"
      by (simp add: waits_as_def lock_read_drop_def await_drop_def)
    from rw_read_src.drop_effect [where F = "waiting R", OF _ Some this] inv(5) obtain l' where l':
      "s' = s\<lparr>rw_read_event := (rw_read_event s)\<lparr>ev_waiting_tasks := l'\<rparr>\<rparr>"
      "room l' (woken w') ((waiting R)(i := None))"
      "wl_queue l' = (if ev_state (rw_read_event s) then [] else remove1 n (wl_queue ?l))" "woken w \<subseteq> woken w'"
      by auto
    moreover have "set (wl_queue l') \<subseteq> set (wl_queue ?l)"
      using l'(3) by (auto dest: subsetD [OF set_remove1_subset])
    then have "rw_writer s \<or> waiting W \<noteq> Map.empty \<or> set (wl_queue l') \<inter> ran ((waiting R)(i := None)) = {}"
      using ran_remove [of "waiting R" i] inv(7) by blast
    moreover have "dom (R(i := None)) \<inter> dom W = {}" using inv(4) by auto
    ultimately show ?thesis
      using inv(1,3) well_formed_remove [OF inv(2), of i] fair_more [OF inv(6) l'(4)]
      by (simp add: rw_room_def waiting_upd rw_permits_def)
  qed
qed

lemma drop_write_room:
  assumes "rw_room s w R W" "W i = Some fut" "lock_write_drop fut s w = (s', w')"
  shows "rw_room s' w' R (W(i := None)) \<and> rw_readers s' = rw_readers s \<and> rw_writer s' = rw_writer s"
proof -
  note inv = rw_roomD [OF assms(1)]
  have was: "waits_as fut (waiting W i)" using inv(3) assms(2) by (simp add: well_formed_def)
  have disj: "dom R \<inter> dom (W(i := None)) = {}" using inv(4) by auto
  show ?thesis
  proof (cases "waiting W i")
    case None
    with was assms(3) have "s' = s" "w' = w" by (auto simp: waits_as_def lock_write_drop_def)
    moreover have "(waiting W)(i := None) = waiting W" using None by auto
    ultimately show ?thesis
      using inv well_formed_remove [OF inv(3), of i] disj by (auto simp: rw_room_def waiting_upd)
  next
    case (Some n)
    let ?l = "ev_waiting_tasks (rw_write_event s)" and ?F = "waiting W"
    obtain s1 w1 where drop: "wf_drop rw_write_source \<lparr>wf_source = True, wf_wait_data = Some n\<rparr> s w = (s1, w1)"
      by (cases "wf_drop rw_write_source \<lparr>wf_source = True, wf_wait_data = Some n\<rparr> s w")
    with Some was assms(3) have guard: "wake_readers_on_cancel s1 w1 = (s', w')"
      by (simp add: waits_as_def lock_write_drop_def await_drop_def)
    from rw_write_src.drop_effect [where F = "waiting W", OF _ Some drop] fair_room [OF inv(6)] obtain l' where l':
      "s1 = s\<lparr>rw_write_event := (rw_write_event s)\<lparr>ev_waiting_tasks := l'\<rparr>\<rparr>"
      "room l' (woken w1) (?F(i := None))"
      "wl_queue l' = (if ev_state (rw_write_event s) then [] else remove1 n (wl_queue ?l))" "woken w \<subseteq> woken w1"
      by auto
    have "fair (rw_permits s) l' (woken w1) (?F(i := None))"
    proof (cases "ev_state (rw_write_event s)")
      case True
      with l'(2,3) finite_waiting [OF inv(3)] show ?thesis by (intro fair_empty) simp_all
    next
      case False
      with inv(6) Some l'(2,3) show ?thesis by (auto simp: rw_permits_def intro: fair_leave)
    qed
    with rw_room_guard [OF _ inv(2) well_formed_remove [OF inv(3)] disj _ _ guard] l'(1,4) inv(1)
      room_more [OF inv(5) l'(4)]
    show ?thesis by (simp add: waiting_upd rw_permits_def)
  qed
qed

lemma cancel_room:
  assumes "rw_room s w R W"
  shows "waiting R i = Some n \<Longrightarrow> cancel_wait n (ev_waiting_tasks (rw_read_event s)) w = (l', w') \<Longrightarrow>
      rw_room (ws_set_list rw_read_source l' s) w' R W"
    and "waiting W i = Some n \<Longrightarrow> cancel_wait n (ev_waiting_tasks (rw_write_event s)) w = (l', w') \<Longrightarrow>
      rw_room (ws_set_list rw_write_source l' s) w' R W"
proof -
  note inv = rw_roomD [OF assms]
  show "rw_room (ws_set_list rw_read_source l' s) w' R W"
    if "waiting R i = Some n" "cancel_wait n (ev_waiting_tasks (rw_read_event s)) w = (l', w')"
  proof -
    note can = room_cancel [OF inv(5) that(2) refl that(1)]
    have "woken w \<subseteq> woken w'" using can(4) by auto
    with inv can(1,2) fair_more [OF inv(6), of "woken w'"] show ?thesis
      by (simp add: rw_room_def rw_permits_def)
  qed
  show "rw_room (ws_set_list rw_write_source l' s) w' R W"
    if "waiting W i = Some n" "cancel_wait n (ev_waiting_tasks (rw_write_event s)) w = (l', w')"
  proof -
    note can = room_cancel [OF fair_room [OF inv(6)] that(2) refl that(1)]
    have "woken w \<subseteq> woken w'" using can(4) by auto
    with inv fair_cancel [OF inv(6) that] room_more [OF inv(5), of "woken w'"] show ?thesis
      by (simp add: rw_room_def rw_permits_def)
  qed
qed

lemma start_room:
  assumes "rw_room s w R W" "R i = None" "W i = None"
  shows "rw_room s w (R(i \<mapsto> Unstarted)) W" "rw_room s w R (W(i \<mapsto> Unstarted))"
proof -
  note inv = rw_roomD [OF assms(1)]
  have was: "waits_as Unstarted None" by (simp add: waits_as_def)
  have "waiting (R(i \<mapsto> Unstarted)) = waiting R" "waiting (W(i \<mapsto> Unstarted)) = waiting W"
    using assms(2,3) by (auto simp: waiting_def fun_eq_iff)
  with inv assms(2,3) well_formed_upd(1) [OF inv(2) was, of i] well_formed_upd(1) [OF inv(3) was, of i]
  show "rw_room s w (R(i \<mapsto> Unstarted)) W" "rw_room s w R (W(i \<mapsto> Unstarted))"
    by (auto simp: rw_room_def)
qed

lemma rw_room_data: "rw_room (s\<lparr>rw_data := x\<rparr>) w R W = rw_room s w R W"
  by (simp add: rw_room_def rw_ok_def rw_assert_valid_def rw_permits_def)

lemma read_unlock_room:
  assumes "rw_room s w R W" "0 < rw_readers s" "read_ref_drop s w = (s', w')"
  shows "rw_room s' w' R W \<and> rw_readers s' = rw_readers s - 1 \<and> rw_writer s' = rw_writer s"
proof -
  note inv = rw_roomD [OF assms(1)]
  have nw: "\<not> rw_writer s" "\<not> ev_state (rw_write_event s)"
    using inv(1) assms(2) by (auto simp: rw_ok_def rw_assert_valid_def)
  show ?thesis
  proof (cases "rw_readers s = 1")
    case False
    with assms(2,3) inv nw show ?thesis
      by (auto simp: read_ref_drop_def Let_def rw_room_def rw_ok_def rw_assert_valid_def rw_permits_def)
  next
    case True
    with assms(3) obtain e where e: "s' = s\<lparr>rw_readers := 0, rw_write_event := e\<rparr>" "ev_state e"
      "wl_wake_all (ev_waiting_tasks (rw_write_event s)) w = (ev_waiting_tasks e, w')"
      by (auto simp: read_ref_drop_def Let_def rw_reset_effect)
    note wake = room_wake_all [OF fair_room [OF inv(6)] e(3) refl]
    have "fair 1 (ev_waiting_tasks e) (woken w') (waiting W)"
      using wake finite_waiting [OF inv(3)] by (intro fair_empty)
    with inv e(1,2) nw True room_more [OF inv(5) wake(5)] show ?thesis
      by (simp add: rw_room_def rw_ok_def rw_assert_valid_def rw_permits_def)
  qed
qed

lemma write_unlock_room:
  assumes "rw_room s w R W" "rw_writer s" "write_ref_drop s w = (s', w')"
  shows "rw_room s' w' R W \<and> rw_readers s' = rw_readers s \<and> \<not> rw_writer s'"
proof -
  note inv = rw_roomD [OF assms(1)]
  let ?l = "ev_waiting_tasks (rw_write_event s)"
  have p0: "rw_permits s = 0" "rw_readers s = 0"
    using inv(1) assms(2) by (auto simp: rw_ok_def rw_assert_valid_def rw_permits_def)
  show ?thesis
  proof (cases "wl_queue ?l = []")
    case True
    with assms(3) obtain e1 w1 e2 where e:
      "s' = s\<lparr>rw_writer := False, rw_write_event := e1, rw_read_event := e2\<rparr>" "ev_state e1" "ev_state e2"
      "wl_wake_all ?l w = (ev_waiting_tasks e1, w1)"
      "wl_wake_all (ev_waiting_tasks (rw_read_event s)) w1 = (ev_waiting_tasks e2, w')"
      by (auto simp: write_ref_drop_def Let_def ev_any_waiting_def wl_any_waiting_def rw_reset_effect
          split: prod.splits)
    note wake1 = room_wake_all [OF fair_room [OF inv(6)] e(4) refl]
    note wake2 = room_wake_all [OF room_more [OF inv(5) wake1(5)] e(5) refl]
    have "fair 1 (ev_waiting_tasks e1) (woken w') (waiting W)"
      using room_more [OF wake1(1) wake2(5)] wake1(2) finite_waiting [OF inv(3)] by (intro fair_empty)
    with inv e(1-3) wake2(1,2) p0 show ?thesis
      by (simp add: rw_room_def rw_ok_def rw_assert_valid_def rw_permits_def)
  next
    case False
    obtain e1 w1 where one: "ev_set_wake_one (rw_write_event s) w = (e1, w1)"
      by (cases "ev_set_wake_one (rw_write_event s) w")
    from ev_set_wake_one_effect [OF one] obtain b where
      wk: "ev_state e1" "wl_wake_one ?l w = (b, ev_waiting_tasks e1, w1)" by blast
    have s': "s' = s\<lparr>rw_writer := False, rw_write_event := e1,
        rw_read_event := (rw_read_event s)\<lparr>ev_state := True\<rparr>\<rparr>" "w' = w1"
      using assms(3) one False
      by (auto simp: write_ref_drop_def Let_def ev_any_waiting_def wl_any_waiting_def ev_set_wake_n_def)
    note wake = room_wake_one [OF fair_room [OF inv(6)] wk(2) refl]
    have "fair 1 (ev_waiting_tasks e1) (woken w') (waiting W)"
      using fair_give [OF inv(6) wk(2)] p0 s' by simp
    moreover have "ran (waiting W) \<noteq> {}"
      using inv(6) p0 False by (auto simp: fair_def)
    then have "waiting W \<noteq> Map.empty" by auto
    ultimately show ?thesis
      using inv s' wk(1) room_more [OF inv(5) wake(6)] p0
      by (simp add: rw_room_def rw_ok_def rw_assert_valid_def rw_permits_def)
  qed
qed

section \<open>Reader-writer locks under all schedules\<close>

datatype rw_future = Reading await_future | Writing await_future

record 'v rw_run =
  rr_lock :: "'v rw_lock"
  rr_world :: world
  rr_futures :: "nat \<rightharpoonup> rw_future"
  rr_read_refs :: nat
  rr_write_refs :: nat

definition rw_start :: "nat \<Rightarrow> nat \<Rightarrow> 'v \<Rightarrow> world \<Rightarrow> 'v rw_run" where
  "rw_start i j v w =
     (case rw_new i j v w of (s, w') \<Rightarrow>
        \<lparr>rr_lock = s, rr_world = w', rr_futures = Map.empty, rr_read_refs = 0, rr_write_refs = 0\<rparr>)"

text \<open>
  The steps of the tasks that share the lock. A task has at most one pending future on it. A
  live \<open>WriteRef\<close> may change the value. \<open>upgrade\<close> is the drop of a \<open>ReadRef\<close> followed by
  \<open>lock_write\<close>.
\<close>

inductive rw_step :: "'v rw_run \<Rightarrow> 'v rw_run \<Rightarrow> bool" where
  start: "rr_futures y i = None \<Longrightarrow> fut \<in> {Reading Unstarted, Writing Unstarted} \<Longrightarrow>
    rw_step y (y\<lparr>rr_futures := (rr_futures y)(i \<mapsto> fut)\<rparr>)"
| suspend_read: "rr_futures y i = Some (Reading fut) \<Longrightarrow>
    lock_read_poll \<lparr>cx_waker = i, cx_tag = g\<rparr> fut (rr_lock y) (deliver i c (rr_world y)) =
      Some (Inr PollPending, fut', s', w') \<Longrightarrow>
    rw_step y (y\<lparr>rr_lock := s', rr_world := w', rr_futures := (rr_futures y)(i \<mapsto> Reading fut')\<rparr>)"
| finish_read: "rr_futures y i = Some (Reading fut) \<Longrightarrow>
    lock_read_poll \<lparr>cx_waker = i, cx_tag = g\<rparr> fut (rr_lock y) (deliver i c (rr_world y)) =
      Some (r, fut', s', w') \<Longrightarrow> r \<noteq> Inr PollPending \<Longrightarrow>
    rw_step y (y\<lparr>rr_lock := s', rr_world := w', rr_futures := (rr_futures y)(i := None),
                 rr_read_refs := rr_read_refs y + (if r = Inr (PollReady (Inr ReadRef)) then 1 else 0)\<rparr>)"
| suspend_write: "rr_futures y i = Some (Writing fut) \<Longrightarrow>
    lock_write_poll \<lparr>cx_waker = i, cx_tag = g\<rparr> fut (rr_lock y) (deliver i c (rr_world y)) =
      Some (Inr PollPending, fut', s', w') \<Longrightarrow>
    rw_step y (y\<lparr>rr_lock := s', rr_world := w', rr_futures := (rr_futures y)(i \<mapsto> Writing fut')\<rparr>)"
| finish_write: "rr_futures y i = Some (Writing fut) \<Longrightarrow>
    lock_write_poll \<lparr>cx_waker = i, cx_tag = g\<rparr> fut (rr_lock y) (deliver i c (rr_world y)) =
      Some (q, fut', s', w') \<Longrightarrow> q \<noteq> Inr PollPending \<Longrightarrow>
    rw_step y (y\<lparr>rr_lock := s', rr_world := w', rr_futures := (rr_futures y)(i := None),
                 rr_write_refs := rr_write_refs y + (if q = Inr (PollReady (Inr WriteRef)) then 1 else 0)\<rparr>)"
| leave_read: "rr_futures y i = Some (Reading fut) \<Longrightarrow> lock_read_drop fut (rr_lock y) (rr_world y) = (s', w') \<Longrightarrow>
    rw_step y (y\<lparr>rr_lock := s', rr_world := w', rr_futures := (rr_futures y)(i := None)\<rparr>)"
| leave_write: "rr_futures y i = Some (Writing fut) \<Longrightarrow> lock_write_drop fut (rr_lock y) (rr_world y) = (s', w') \<Longrightarrow>
    rw_step y (y\<lparr>rr_lock := s', rr_world := w', rr_futures := (rr_futures y)(i := None)\<rparr>)"
| cancel_read: "rr_futures y i = Some (Reading (Suspended f)) \<Longrightarrow> wf_wait_data f = Some n \<Longrightarrow>
    cancel_wait n (ev_waiting_tasks (rw_read_event (rr_lock y))) (rr_world y) = (l', w') \<Longrightarrow>
    rw_step y (y\<lparr>rr_lock := ws_set_list rw_read_source l' (rr_lock y), rr_world := w'\<rparr>)"
| cancel_write: "rr_futures y i = Some (Writing (Suspended f)) \<Longrightarrow> wf_wait_data f = Some n \<Longrightarrow>
    cancel_wait n (ev_waiting_tasks (rw_write_event (rr_lock y))) (rr_world y) = (l', w') \<Longrightarrow>
    rw_step y (y\<lparr>rr_lock := ws_set_list rw_write_source l' (rr_lock y), rr_world := w'\<rparr>)"
| modify: "0 < rr_write_refs y \<Longrightarrow> rw_step y (y\<lparr>rr_lock := rw_deref_mut h (rr_lock y)\<rparr>)"
| read_unlock: "0 < rr_read_refs y \<Longrightarrow> read_ref_drop (rr_lock y) (rr_world y) = (s', w') \<Longrightarrow>
    rw_step y (y\<lparr>rr_lock := s', rr_world := w', rr_read_refs := rr_read_refs y - 1\<rparr>)"
| write_unlock: "0 < rr_write_refs y \<Longrightarrow> write_ref_drop (rr_lock y) (rr_world y) = (s', w') \<Longrightarrow>
    rw_step y (y\<lparr>rr_lock := s', rr_world := w', rr_write_refs := rr_write_refs y - 1\<rparr>)"

definition reads :: "(nat \<rightharpoonup> rw_future) \<Rightarrow> nat \<rightharpoonup> await_future" where
  "reads futs i = (case futs i of Some (Reading f) \<Rightarrow> Some f | _ \<Rightarrow> None)"

definition writes :: "(nat \<rightharpoonup> rw_future) \<Rightarrow> nat \<rightharpoonup> await_future" where
  "writes futs i = (case futs i of Some (Writing f) \<Rightarrow> Some f | _ \<Rightarrow> None)"

lemma reads_upd:
  "reads (futs(i := None)) = (reads futs)(i := None)" "reads (futs(i \<mapsto> Reading f)) = (reads futs)(i \<mapsto> f)"
  "reads (futs(i \<mapsto> Writing f)) = (reads futs)(i := None)"
  "writes (futs(i := None)) = (writes futs)(i := None)" "writes (futs(i \<mapsto> Writing f)) = (writes futs)(i \<mapsto> f)"
  "writes (futs(i \<mapsto> Reading f)) = (writes futs)(i := None)"
  by (auto simp: reads_def writes_def fun_eq_iff)

lemma reads_other:
  "futs i = Some (Writing f) \<Longrightarrow> (reads futs)(i := None) = reads futs"
  "futs i = Some (Reading f) \<Longrightarrow> (writes futs)(i := None) = writes futs"
  "futs i = None \<Longrightarrow> (reads futs)(i := None) = reads futs"
  "futs i = None \<Longrightarrow> (writes futs)(i := None) = writes futs"
  by (auto simp: reads_def writes_def fun_eq_iff)

definition rw_inv :: "'v rw_run \<Rightarrow> bool" where
  "rw_inv y \<longleftrightarrow>
     rw_room (rr_lock y) (rr_world y) (reads (rr_futures y)) (writes (rr_futures y)) \<and>
     rr_read_refs y = rw_readers (rr_lock y) \<and> rr_write_refs y = (if rw_writer (rr_lock y) then 1 else 0)"

lemma rw_inv_start: "rw_inv (rw_start i j v w)"
proof -
  have "reads Map.empty = Map.empty" "writes Map.empty = Map.empty"
    by (auto simp: reads_def writes_def fun_eq_iff)
  then show ?thesis
    by (simp add: rw_inv_def rw_start_def rw_new_def ev_set_new ev_with_state_def rw_room_def rw_ok_def
        rw_assert_valid_def rw_permits_def well_formed_def fair_empty)
qed

lemma rw_inv_step:
  assumes "rw_step y z" "rw_inv y"
  shows "rw_inv z"
proof -
  from assms(2) have room: "rw_room (rr_lock y) (rr_world y) (reads (rr_futures y)) (writes (rr_futures y))"
    and refs: "rr_read_refs y = rw_readers (rr_lock y)" "rr_write_refs y = (if rw_writer (rr_lock y) then 1 else 0)"
    by (simp_all add: rw_inv_def)
  from assms(1) show ?thesis
  proof cases
    case (start i fut)
    have "reads (rr_futures y) i = None" "writes (rr_futures y) i = None"
      using start(2) by (simp_all add: reads_def writes_def)
    from start_room [OF room this] start refs show ?thesis
      by (auto simp: rw_inv_def reads_upd reads_other)
  next
    case (suspend_read i fut g c fut' s' w')
    have "reads (rr_futures y) i = Some fut" using suspend_read(2) by (simp add: reads_def)
    from poll_read_room [OF room this suspend_read(3)] suspend_read refs show ?thesis
      by (simp add: rw_inv_def reads_upd reads_other)
  next
    case (finish_read i fut g c r fut' s' w')
    have "reads (rr_futures y) i = Some fut" using finish_read(2) by (simp add: reads_def)
    from poll_read_room(1,3) [OF room this finish_read(3)] finish_read refs show ?thesis
      by (simp add: rw_inv_def reads_upd reads_other)
  next
    case (suspend_write i fut g c fut' s' w')
    have "writes (rr_futures y) i = Some fut" using suspend_write(2) by (simp add: writes_def)
    from poll_write_room [OF room this suspend_write(3)] suspend_write refs show ?thesis
      by (simp add: rw_inv_def reads_upd reads_other)
  next
    case (finish_write i fut g c q fut' s' w')
    have "writes (rr_futures y) i = Some fut" using finish_write(2) by (simp add: writes_def)
    from poll_write_room(1,3) [OF room this finish_write(3)] finish_write refs show ?thesis
      by (auto simp: rw_inv_def reads_upd reads_other split: if_splits)
  next
    case (leave_read i fut s' w')
    have "reads (rr_futures y) i = Some fut" using leave_read(2) by (simp add: reads_def)
    from drop_read_room [OF room this leave_read(3)] leave_read refs show ?thesis
      by (simp add: rw_inv_def reads_upd reads_other)
  next
    case (leave_write i fut s' w')
    have "writes (rr_futures y) i = Some fut" using leave_write(2) by (simp add: writes_def)
    from drop_write_room [OF room this leave_write(3)] leave_write refs show ?thesis
      by (simp add: rw_inv_def reads_upd reads_other)
  next
    case (cancel_read i f n l' w')
    then have "waiting (reads (rr_futures y)) i = Some n" by (simp add: waiting_def reads_def)
    from cancel_room(1) [OF room this cancel_read(4)] cancel_read refs show ?thesis
      by (simp add: rw_inv_def)
  next
    case (cancel_write i f n l' w')
    then have "waiting (writes (rr_futures y)) i = Some n" by (simp add: waiting_def writes_def)
    from cancel_room(2) [OF room this cancel_write(4)] cancel_write refs show ?thesis
      by (simp add: rw_inv_def)
  next
    case (modify h)
    with room refs show ?thesis
      by (simp add: rw_inv_def rw_deref_mut_def rw_room_data)
  next
    case (read_unlock s' w')
    with read_unlock_room [OF room _ read_unlock(3)] refs show ?thesis by (simp add: rw_inv_def)
  next
    case (write_unlock s' w')
    with write_unlock_room [OF room _ write_unlock(3)] refs show ?thesis
      by (simp add: rw_inv_def split: if_splits)
  qed
qed

lemma rw_inv_reachable: "rw_step\<^sup>*\<^sup>* (rw_start i j v w) y \<Longrightarrow> rw_inv y"
  by (induction rule: rtranclp_induct) (auto intro: rw_inv_start rw_inv_step)

text \<open>
  A run: task 1 takes the write lock, task 2 waits to read (\<open>rw_demo True\<close>), and the write lock
  is released (\<open>rw_demo False\<close>).
\<close>

definition rw_demo :: "bool \<Rightarrow> nat rw_run" where
  "rw_demo held =
     \<lparr>rr_lock = \<lparr>rw_data = 5, rw_readers = 0, rw_writer = held,
        rw_read_event = \<lparr>ev_state = \<not> held, ev_waiting_tasks =
          \<lparr>wl_id = 0, wl_nodes = [\<lparr>wd_activity_id = 0, wd_waker = Some 2, wd_task_id = 1,
             wd_canceled = False, wd_tag = 0, wd_linked = held\<rparr>],
           wl_queue = (if held then [0] else [])\<rparr>\<rparr>,
        rw_write_event = ev_with_state 1 (\<not> held)\<rparr>,
      rr_world = idle_world\<lparr>w_wakes := (if held then [] else [2]),
        w_trace := (1, AsyncWaitStart 0 0) # (if held then [] else [(1, AsyncWaitEnd 0 0)])\<rparr>,
      rr_futures = [2 \<mapsto> Reading (Suspended \<lparr>wf_source = True, wf_wait_data = Some 0\<rparr>)],
      rr_read_refs = 0, rr_write_refs = (if held then 1 else 0)\<rparr>"

lemmas rw_run_simps = run_simps rw_start_def rw_new_def ev_new_def lock_write_poll_def lock_read_poll_def
  lock_write_step_def lock_read_step_def rw_reset_write_def rw_reset_read_def rw_set_read_def rw_set_write_def
  ev_reset_def ev_set_def ev_wake_all_def wl_wake_all.simps wake_readers_on_cancel_def

lemma rw_demo_reachable: "rw_step\<^sup>*\<^sup>* (rw_start 0 1 5 idle_world) (rw_demo held)"
proof -
  let ?y0 = "rw_start 0 1 (5::nat) idle_world"
  let ?y1 = "?y0\<lparr>rr_futures := (rr_futures ?y0)(1 \<mapsto> Writing Unstarted)\<rparr>"
  let ?s2 = "\<lparr>rw_data = (5::nat), rw_readers = 0, rw_writer = True, rw_read_event = ev_with_state 0 False,
        rw_write_event = ev_with_state 1 False\<rparr>"
  let ?y2 = "\<lparr>rr_lock = ?s2, rr_world = idle_world, rr_futures = Map.empty, rr_read_refs = 0, rr_write_refs = 1\<rparr>"
  let ?y3 = "?y2\<lparr>rr_futures := [2 \<mapsto> Reading Unstarted]\<rparr>"
  have s1: "rw_step ?y0 ?y1" by (rule rw_step.start) (simp_all add: rw_run_simps)
  have "rw_step ?y1 (?y1\<lparr>rr_lock := ?s2, rr_world := idle_world, rr_futures := (rr_futures ?y1)(1 := None),
      rr_write_refs := rr_write_refs ?y1 +
        (if Inr (PollReady (Inr WriteRef)) = (Inr (PollReady (Inr WriteRef)) :: panic + (canceled_error + write_ref) poll) then 1 else 0)\<rparr>)"
    by (rule rw_step.finish_write [where fut = Unstarted and g = 0 and c = idle_task and fut' = Finished])
      (simp_all add: rw_run_simps)
  then have s2: "rw_step ?y1 ?y2" by (simp add: rw_run_simps)
  have s3: "rw_step ?y2 ?y3" using rw_step.start [of ?y2 2 "Reading Unstarted"] by simp
  have "rw_step ?y3 (?y3\<lparr>rr_lock := rr_lock (rw_demo True), rr_world := rr_world (rw_demo True),
      rr_futures := (rr_futures ?y3)(2 \<mapsto> Reading (Suspended \<lparr>wf_source = True, wf_wait_data = Some 0\<rparr>))\<rparr>)"
    by (rule rw_step.suspend_read [where fut = Unstarted and g = 0 and c = idle_task])
      (simp_all add: rw_run_simps rw_demo_def)
  then have s4: "rw_step ?y3 (rw_demo True)" by (simp add: rw_demo_def)
  have "rw_step (rw_demo True) ((rw_demo True)\<lparr>rr_lock := rr_lock (rw_demo False), rr_world := rr_world (rw_demo False),
      rr_write_refs := rr_write_refs (rw_demo True) - 1\<rparr>)"
    by (rule rw_step.write_unlock)
      (simp_all add: rw_run_simps rw_demo_def write_ref_drop_def ev_any_waiting_def wl_any_waiting_def)
  then have s5: "rw_step (rw_demo True) (rw_demo False)" by (simp add: rw_demo_def)
  from s1 s2 s3 s4 s5 show ?thesis by (cases held) (auto intro: rtranclp.rtrancl_into_rtrancl)
qed

text \<open>
  C7: An \<open>AsyncReaderWriterLock\<close> excludes. Under every schedule of \<open>lock_read\<close> and \<open>lock_write\<close>
  futures, drops, cancellations and panics, there is at most one live \<open>WriteRef\<close>, and none
  while a \<open>ReadRef\<close> is alive; the counters of the lock are the numbers of live guards, so that
  the assertion \<open>assert_valid\<close> never fails.
\<close>

theorem rw_lock_excludes:
  assumes "rw_step\<^sup>*\<^sup>* (rw_start i j v w) y"
  shows "rr_write_refs y \<le> 1 \<and> (rr_write_refs y = 0 \<or> rr_read_refs y = 0) \<and>
    rw_readers (rr_lock y) = rr_read_refs y \<and> rw_writer (rr_lock y) = (rr_write_refs y = 1) \<and>
    rw_assert_valid (rr_lock y)"
proof -
  from rw_inv_reachable [OF assms] have "rw_assert_valid (rr_lock y)"
    "rr_read_refs y = rw_readers (rr_lock y)" "rr_write_refs y = (if rw_writer (rr_lock y) then 1 else 0)"
    by (simp_all add: rw_inv_def rw_room_def rw_ok_def)
  then show ?thesis by (auto simp: rw_assert_valid_def)
qed

theorem rw_lock_excludes_witness:
  "rr_write_refs (rw_demo True) \<le> 1 \<and> (rr_write_refs (rw_demo True) = 0 \<or> rr_read_refs (rw_demo True) = 0) \<and>
   rw_writer (rr_lock (rw_demo True))"
  using rw_lock_excludes [OF rw_demo_reachable [of True]] by (simp add: rw_demo_def)

text \<open>
  C13: A reader-writer lock loses no wake-up. Whenever nobody holds the lock while some
  \<open>lock_write\<close> is suspended, a suspended \<open>lock_write\<close> has been woken. A suspended \<open>lock_read\<close>
  that has not been woken while no writer holds the lock waits for a suspended \<open>lock_write\<close>,
  so it is never left alone.
\<close>

theorem rw_lock_no_lost_wakeup:
  assumes "rw_step\<^sup>*\<^sup>* (rw_start i j v w) y"
  shows "(rr_write_refs y = 0 \<and> rr_read_refs y = 0 \<and> rr_futures y k = Some (Writing (Suspended f)) \<longrightarrow>
      (\<exists>m h. rr_futures y m = Some (Writing (Suspended h)) \<and> m \<in> woken (rr_world y))) \<and>
    (rr_write_refs y = 0 \<and> rr_futures y k = Some (Reading (Suspended f)) \<longrightarrow>
      k \<in> woken (rr_world y) \<or> (\<exists>m h. rr_futures y m = Some (Writing (Suspended h))))"
proof -
  from rw_inv_reachable [OF assms]
  have room: "rw_room (rr_lock y) (rr_world y) (reads (rr_futures y)) (writes (rr_futures y))"
    and refs: "rr_read_refs y = rw_readers (rr_lock y)" "rr_write_refs y = (if rw_writer (rr_lock y) then 1 else 0)"
    by (simp_all add: rw_inv_def)
  note inv = rw_roomD [OF room]
  have some_write: "\<exists>h. rr_futures y m = Some (Writing (Suspended h))"
    if "waiting (writes (rr_futures y)) m = Some n" for m n
    using that by (auto simp: waiting_def writes_def split: option.splits await_future.splits rw_future.splits)
  have 1: "\<exists>m h. rr_futures y m = Some (Writing (Suspended h)) \<and> m \<in> woken (rr_world y)"
    if h: "rr_write_refs y = 0" "rr_read_refs y = 0" "rr_futures y k = Some (Writing (Suspended f))"
  proof -
    have "waits_as (Suspended f) (waiting (writes (rr_futures y)) k)"
      using inv(3) h(3) by (simp add: well_formed_def writes_def)
    then obtain n where n: "waiting (writes (rr_futures y)) k = Some n"
      by (auto simp: waits_as_def split: option.splits)
    have "0 < rw_permits (rr_lock y)"
      using inv(1) h(1,2) refs by (auto simp: rw_ok_def rw_permits_def split: if_splits)
    from fair_progress [OF inv(6) this n] some_write show ?thesis by blast
  qed
  have 2: "k \<in> woken (rr_world y) \<or> (\<exists>m h. rr_futures y m = Some (Writing (Suspended h)))"
    if h: "rr_write_refs y = 0" "rr_futures y k = Some (Reading (Suspended f))"
  proof -
    have "waits_as (Suspended f) (waiting (reads (rr_futures y)) k)"
      using inv(2) h(2) by (simp add: well_formed_def reads_def)
    then obtain n where n: "waiting (reads (rr_futures y)) k = Some n"
      by (auto simp: waits_as_def split: option.splits)
    have "\<not> rw_writer (rr_lock y)" using h(1) refs by (auto split: if_splits)
    with inv(7) consider "waiting (writes (rr_futures y)) \<noteq> Map.empty"
      | "n \<notin> set (wl_queue (ev_waiting_tasks (rw_read_event (rr_lock y))))" using n by (auto simp: ran_def)
    then show ?thesis
    proof cases
      case 1
      then obtain m n' where "waiting (writes (rr_futures y)) m = Some n'" by fastforce
      with some_write show ?thesis by blast
    next
      case 2
      with room_D(3) [OF inv(5) n] show ?thesis by blast
    qed
  qed
  from 1 2 show ?thesis by blast
qed

theorem rw_lock_no_lost_wakeup_witness:
  "rr_write_refs (rw_demo False) = 0 \<and> 2 \<in> woken (rr_world (rw_demo False))"
  using rw_lock_no_lost_wakeup [OF rw_demo_reachable [of False], of 2 "\<lparr>wf_source = True, wf_wait_data = Some 0\<rparr>"]
  by (simp add: rw_demo_def split: if_splits)

end
