(* ===== verification/Virtual_Clock.thy ===== *)
theory Virtual_Clock
  imports Wait_List "HOL-Library.Multiset"
begin

text \<open>
  \<open>kimojio/src/virtual_clock.rs\<close>: the virtual clock and its timers, and the operations of
  \<open>operations.rs\<close> that reach it through the state of the runtime. An instant is its number of
  nanoseconds, with the range of the \<open>Instant\<close> of Linux; a timer identifier is a natural number
  (2 to the 64 timers are never registered). The \<open>BinaryHeap\<close> of the standard library is a
  list in the order in which it hands its elements out, greatest first. The idle callback is a
  value of an arbitrary type.
\<close>

section \<open>Instants\<close>

type_synonym instant = nat
type_synonym duration = nat

definition instant_limit :: nat where
  "instant_limit = 2 ^ 63 * 10 ^ 9"

definition checked_add :: "instant \<Rightarrow> duration \<Rightarrow> instant option" where
  "checked_add i d = (if i + d < instant_limit then Some (i + d) else None)"

definition instant_add :: "instant \<Rightarrow> duration \<Rightarrow> panic + instant" where
  "instant_add i d =
     (case checked_add i d of Some j \<Rightarrow> Inr j | None \<Rightarrow> Inl (Panic ''overflow when adding duration to instant''))"

text \<open>The hundred years used where an addition would overflow.\<close>

definition century :: duration where
  "century = 365 * 24 * 3600 * 100 * 10 ^ 9"

section \<open>The heap of timers\<close>

datatype virtual_timer = VirtualTimer (vt_id: nat) (vt_deadline: instant) (vt_waker: waker)

datatype ordering = Less | Equal | Greater

definition cmp_nat :: "nat \<Rightarrow> nat \<Rightarrow> ordering" where
  "cmp_nat a b = (if a < b then Less else if a = b then Equal else Greater)"

definition vt_cmp :: "virtual_timer \<Rightarrow> virtual_timer \<Rightarrow> ordering" where
  "vt_cmp self other =
     (case cmp_nat (vt_deadline other) (vt_deadline self) of
        Equal \<Rightarrow> cmp_nat (vt_id other) (vt_id self)
      | r \<Rightarrow> r)"

fun heap_push :: "virtual_timer \<Rightarrow> virtual_timer list \<Rightarrow> virtual_timer list" where
  "heap_push t [] = [t]"
| "heap_push t (u # h) = (if vt_cmp u t = Less then t # u # h else u # heap_push t h)"

definition heap_peek :: "virtual_timer list \<Rightarrow> virtual_timer option" where
  "heap_peek h = (case h of [] \<Rightarrow> None | t # _ \<Rightarrow> Some t)"

definition heap_pop :: "virtual_timer list \<Rightarrow> virtual_timer list" where
  "heap_pop h = tl h"

section \<open>\<open>VirtualClockState\<close>\<close>

record 'cb virtual_clock =
  vc_epoch :: instant
  vc_current :: instant
  vc_timers :: "virtual_timer list"
  vc_next_timer_id :: nat
  vc_idle_advance_fn :: "'cb option"
  vc_idle_advance_dirty :: bool

definition vc_new :: "instant \<Rightarrow> 'cb virtual_clock" where
  "vc_new start =
     \<lparr>vc_epoch = start, vc_current = start, vc_timers = [], vc_next_timer_id = 1,
      vc_idle_advance_fn = None, vc_idle_advance_dirty = False\<rparr>"

definition vc_now :: "'cb virtual_clock \<Rightarrow> instant" where
  "vc_now c = vc_current c"

function pop_expired :: "instant \<Rightarrow> virtual_timer list \<Rightarrow> waker list \<Rightarrow> virtual_timer list \<times> waker list" where
  "pop_expired current h expired =
     (case heap_peek h of
        Some timer \<Rightarrow>
          if vt_deadline timer \<le> current then pop_expired current (heap_pop h) (expired @ [vt_waker timer])
          else (h, expired)
      | None \<Rightarrow> (h, expired))"
  by auto
termination
  by (relation "measure (\<lambda>(_, h, _). length h)") (auto simp: heap_peek_def heap_pop_def split: list.splits)

declare pop_expired.simps [simp del]

definition vc_advance_to :: "instant \<Rightarrow> 'cb virtual_clock \<Rightarrow> (nat \<times> waker list) \<times> 'cb virtual_clock" where
  "vc_advance_to target c =
     (let c1 = (if target > vc_current c then c\<lparr>vc_current := target\<rparr> else c) in
      case pop_expired (vc_current c1) (vc_timers c1) [] of
        (timers, expired) \<Rightarrow> ((length expired, expired), c1\<lparr>vc_timers := timers\<rparr>))"

definition vc_advance :: "duration \<Rightarrow> 'cb virtual_clock \<Rightarrow> (panic + nat \<times> waker list) \<times> 'cb virtual_clock" where
  "vc_advance d c =
     (case (case checked_add (vc_current c) d of
              Some t \<Rightarrow> Inr t
            | None \<Rightarrow> instant_add (vc_current c) century) of
        Inl p \<Rightarrow> (Inl p, c)
      | Inr new_time \<Rightarrow> (case vc_advance_to new_time c of (r, c') \<Rightarrow> (Inr r, c')))"

definition vc_next_deadline :: "'cb virtual_clock \<Rightarrow> instant option" where
  "vc_next_deadline c = map_option vt_deadline (heap_peek (vc_timers c))"

definition vc_pending_timers :: "'cb virtual_clock \<Rightarrow> nat" where
  "vc_pending_timers c = length (vc_timers c)"

definition vc_register_timer :: "instant \<Rightarrow> waker \<Rightarrow> 'cb virtual_clock \<Rightarrow> nat \<times> 'cb virtual_clock" where
  "vc_register_timer deadline k c =
     (let i = vc_next_timer_id c in
      (i, c\<lparr>vc_next_timer_id := i + 1, vc_timers := heap_push (VirtualTimer i deadline k) (vc_timers c)\<rparr>))"

definition vc_cancel_timer :: "nat \<Rightarrow> 'cb virtual_clock \<Rightarrow> 'cb virtual_clock" where
  "vc_cancel_timer i c = c\<lparr>vc_timers := filter (\<lambda>t. vt_id t \<noteq> i) (vc_timers c)\<rparr>"

definition vc_set_idle_advance_fn :: "'cb option \<Rightarrow> 'cb virtual_clock \<Rightarrow> 'cb virtual_clock" where
  "vc_set_idle_advance_fn f c = c\<lparr>vc_idle_advance_fn := f, vc_idle_advance_dirty := True\<rparr>"

definition vc_has_idle_advance_fn :: "'cb virtual_clock \<Rightarrow> bool" where
  "vc_has_idle_advance_fn c \<longleftrightarrow> vc_idle_advance_fn c \<noteq> None"

definition vc_take_idle_advance_fn :: "'cb virtual_clock \<Rightarrow> 'cb option \<times> 'cb virtual_clock" where
  "vc_take_idle_advance_fn c =
     (vc_idle_advance_fn c, c\<lparr>vc_idle_advance_dirty := False, vc_idle_advance_fn := None\<rparr>)"

definition vc_restore_idle_advance_fn :: "'cb \<Rightarrow> 'cb virtual_clock \<Rightarrow> bool \<times> 'cb virtual_clock" where
  "vc_restore_idle_advance_fn f c =
     (if \<not> vc_idle_advance_dirty c then (False, c\<lparr>vc_idle_advance_fn := Some f\<rparr>) else (True, c))"

section \<open>The clock of the runtime\<close>

record 'cb clock_state =
  cs_clock :: "'cb virtual_clock option"
  cs_world :: world

definition not_enabled :: panic where
  "not_enabled = Panic ''virtual clock not enabled; call virtual_clock_enable(true) first''"

definition virtual_clock_enable :: "bool \<Rightarrow> instant \<Rightarrow> 'cb clock_state \<Rightarrow> 'cb clock_state" where
  "virtual_clock_enable enabled real_now s =
     (if enabled then (if cs_clock s = None then s\<lparr>cs_clock := Some (vc_new real_now)\<rparr> else s)
      else s\<lparr>cs_clock := None\<rparr>)"

definition wake_each :: "waker list \<Rightarrow> world \<Rightarrow> world" where
  "wake_each wakers w = foldl (\<lambda>w k. wake_by_ref (Some k) w) w wakers"

definition virtual_clock_advance :: "duration \<Rightarrow> 'cb clock_state \<Rightarrow> (panic + nat) \<times> 'cb clock_state" where
  "virtual_clock_advance d s =
     (case cs_clock s of
        None \<Rightarrow> (Inl not_enabled, s)
      | Some clock \<Rightarrow>
          (case vc_advance d clock of
             (Inl p, clock') \<Rightarrow> (Inl p, s\<lparr>cs_clock := Some clock'\<rparr>)
           | (Inr (fired, wakers), clock') \<Rightarrow>
               (Inr fired, s\<lparr>cs_clock := Some clock', cs_world := wake_each wakers (cs_world s)\<rparr>)))"

definition virtual_clock_advance_to :: "instant \<Rightarrow> 'cb clock_state \<Rightarrow> (panic + nat) \<times> 'cb clock_state" where
  "virtual_clock_advance_to target s =
     (case cs_clock s of
        None \<Rightarrow> (Inl not_enabled, s)
      | Some clock \<Rightarrow>
          (case vc_advance_to target clock of
             ((fired, wakers), clock') \<Rightarrow>
               (Inr fired, s\<lparr>cs_clock := Some clock', cs_world := wake_each wakers (cs_world s)\<rparr>)))"

definition with_clock :: "('cb virtual_clock \<Rightarrow> 'a) \<Rightarrow> 'cb clock_state \<Rightarrow> panic + 'a" where
  "with_clock f s = (case cs_clock s of Some clock \<Rightarrow> Inr (f clock) | None \<Rightarrow> Inl not_enabled)"

definition virtual_clock_now :: "'cb clock_state \<Rightarrow> panic + instant" where
  "virtual_clock_now = with_clock vc_now"

definition virtual_clock_epoch :: "'cb clock_state \<Rightarrow> panic + instant" where
  "virtual_clock_epoch = with_clock vc_epoch"

definition virtual_clock_next_deadline :: "'cb clock_state \<Rightarrow> panic + instant option" where
  "virtual_clock_next_deadline = with_clock vc_next_deadline"

definition virtual_clock_pending_timers :: "'cb clock_state \<Rightarrow> panic + nat" where
  "virtual_clock_pending_timers = with_clock vc_pending_timers"

definition virtual_clock_has_idle_advance :: "'cb clock_state \<Rightarrow> panic + bool" where
  "virtual_clock_has_idle_advance = with_clock vc_has_idle_advance_fn"

definition virtual_clock_set_idle_advance :: "'cb \<Rightarrow> 'cb clock_state \<Rightarrow> (panic + unit) \<times> 'cb clock_state" where
  "virtual_clock_set_idle_advance f s =
     (case cs_clock s of
        Some clock \<Rightarrow> (Inr (), s\<lparr>cs_clock := Some (vc_set_idle_advance_fn (Some f) clock)\<rparr>)
      | None \<Rightarrow> (Inl not_enabled, s))"

definition virtual_clock_clear_idle_advance :: "'cb clock_state \<Rightarrow> (panic + unit) \<times> 'cb clock_state" where
  "virtual_clock_clear_idle_advance s =
     (case cs_clock s of
        Some clock \<Rightarrow> (Inr (), s\<lparr>cs_clock := Some (vc_set_idle_advance_fn None clock)\<rparr>)
      | None \<Rightarrow> (Inl not_enabled, s))"

definition clock_now :: "instant \<Rightarrow> 'cb clock_state \<Rightarrow> instant" where
  "clock_now real_now s = (case cs_clock s of Some clock \<Rightarrow> vc_now clock | None \<Rightarrow> real_now)"

section \<open>Timers fire in the order of their deadlines\<close>

lemma vt_cmp_Less:
  "vt_cmp u t = Less \<longleftrightarrow> vt_deadline t < vt_deadline u \<or> vt_deadline t = vt_deadline u \<and> vt_id t < vt_id u"
  by (auto simp: vt_cmp_def cmp_nat_def)

lemma mset_heap_push [simp]: "mset (heap_push t h) = add_mset t (mset h)"
  by (induction h) auto

lemma set_heap_push [simp]: "set (heap_push t h) = insert t (set h)"
  by (induction h) auto

lemma sorted_heap_push: "sorted (map vt_deadline h) \<Longrightarrow> sorted (map vt_deadline (heap_push t h))"
  by (induction h) (auto simp: vt_cmp_Less not_less)

lemma filter_heap_push:
  assumes "sorted (map vt_deadline h)" "\<forall>u\<in>set h. vt_id u < vt_id t"
  shows "filter (\<lambda>u. vt_deadline u = d) (heap_push t h) =
    filter (\<lambda>u. vt_deadline u = d) h @ (if vt_deadline t = d then [t] else [])"
  using assms
proof (induction h)
  case (Cons u h)
  show ?case
  proof (cases "vt_cmp u t = Less")
    case True
    with Cons.prems have "vt_deadline t < vt_deadline u" by (auto simp: vt_cmp_Less)
    with Cons.prems have "\<forall>v\<in>set (u # h). vt_deadline v \<noteq> vt_deadline t" by auto
    with True show ?thesis by (auto simp: filter_empty_conv)
  qed (use Cons in auto)
qed simp

lemma heap_push_sort:
  assumes "\<forall>u\<in>set ts. vt_id u < vt_id t"
  shows "heap_push t (sort_key vt_deadline ts) = sort_key vt_deadline (ts @ [t])"
proof (rule properties_for_sort_key [symmetric])
  show "sorted (map vt_deadline (heap_push t (sort_key vt_deadline ts)))"
    by (rule sorted_heap_push) simp
  show "filter (\<lambda>x. vt_deadline k = vt_deadline x) (heap_push t (sort_key vt_deadline ts)) =
      filter (\<lambda>x. vt_deadline k = vt_deadline x) (ts @ [t])" for k
    using filter_heap_push [of "sort_key vt_deadline ts" t "vt_deadline k"] assms
    by (simp add: eq_commute [of "vt_deadline k"] sort_key_stable)
qed simp

lemma pop_expired_eq:
  "pop_expired current h expired =
     (dropWhile (\<lambda>t. vt_deadline t \<le> current) h, expired @ map vt_waker (takeWhile (\<lambda>t. vt_deadline t \<le> current) h))"
proof (induction current h expired rule: pop_expired.induct)
  case (1 current h expired)
  then show ?case
    by (cases h) (auto simp: pop_expired.simps [of current _ expired] heap_peek_def heap_pop_def)
qed

lemma sorted_expired:
  assumes "sorted (map vt_deadline h)"
  shows "takeWhile (\<lambda>t. vt_deadline t \<le> current) h = filter (\<lambda>t. vt_deadline t \<le> current) h"
    "dropWhile (\<lambda>t. vt_deadline t \<le> current) h = filter (\<lambda>t. current < vt_deadline t) h"
proof -
  have "takeWhile (\<lambda>t. vt_deadline t \<le> current) h = filter (\<lambda>t. vt_deadline t \<le> current) h \<and>
    dropWhile (\<lambda>t. vt_deadline t \<le> current) h = filter (\<lambda>t. current < vt_deadline t) h"
    using assms
  proof (induction h)
    case (Cons t h)
    show ?case
    proof (cases "vt_deadline t \<le> current")
      case False
      with Cons.prems have "\<forall>u\<in>set h. current < vt_deadline u" by auto
      then have "filter (\<lambda>t. vt_deadline t \<le> current) h = []" "filter (\<lambda>t. current < vt_deadline t) h = h"
        by (auto simp: filter_empty_conv filter_id_conv)
      with False show ?thesis by simp
    qed (use Cons in auto)
  qed simp
  then show "takeWhile (\<lambda>t. vt_deadline t \<le> current) h = filter (\<lambda>t. vt_deadline t \<le> current) h"
    "dropWhile (\<lambda>t. vt_deadline t \<le> current) h = filter (\<lambda>t. current < vt_deadline t) h" by simp_all
qed

text \<open>
  The abstract clock keeps its timers in the order of registration. Advancing takes out those
  whose deadline has come; the stable sort by deadline is the order in which they fire.
\<close>

record timer_table =
  tt_current :: instant
  tt_timers :: "virtual_timer list"
  tt_next :: nat

datatype clock_op =
  RegisterTimer instant waker | CancelTimer nat | AdvanceTo instant | Advance duration
| NextDeadline | PendingTimers | Now

datatype clock_answer =
  TimerId nat | Nothing | Fired nat "waker list" | Panicked panic | Deadline "instant option" | Count nat | At instant

fun clock_do :: "clock_op \<Rightarrow> 'cb virtual_clock \<Rightarrow> clock_answer \<times> 'cb virtual_clock" where
  "clock_do (RegisterTimer d k) c = (case vc_register_timer d k c of (i, c') \<Rightarrow> (TimerId i, c'))"
| "clock_do (CancelTimer i) c = (Nothing, vc_cancel_timer i c)"
| "clock_do (AdvanceTo t) c = (case vc_advance_to t c of ((n, ks), c') \<Rightarrow> (Fired n ks, c'))"
| "clock_do (Advance d) c =
     (case vc_advance d c of (Inr (n, ks), c') \<Rightarrow> (Fired n ks, c') | (Inl p, c') \<Rightarrow> (Panicked p, c'))"
| "clock_do NextDeadline c = (Deadline (vc_next_deadline c), c)"
| "clock_do PendingTimers c = (Count (vc_pending_timers c), c)"
| "clock_do Now c = (At (vc_now c), c)"

definition table_advance_to :: "instant \<Rightarrow> timer_table \<Rightarrow> clock_answer \<times> timer_table" where
  "table_advance_to t a =
     (let now = max t (tt_current a); expired = filter (\<lambda>t. vt_deadline t \<le> now) (tt_timers a) in
      (Fired (length expired) (map vt_waker (sort_key vt_deadline expired)),
       a\<lparr>tt_current := now, tt_timers := filter (\<lambda>t. now < vt_deadline t) (tt_timers a)\<rparr>))"

fun table_do :: "clock_op \<Rightarrow> timer_table \<Rightarrow> clock_answer \<times> timer_table" where
  "table_do (RegisterTimer d k) a =
     (TimerId (tt_next a), a\<lparr>tt_next := tt_next a + 1, tt_timers := tt_timers a @ [VirtualTimer (tt_next a) d k]\<rparr>)"
| "table_do (CancelTimer i) a = (Nothing, a\<lparr>tt_timers := filter (\<lambda>t. vt_id t \<noteq> i) (tt_timers a)\<rparr>)"
| "table_do (AdvanceTo t) a = table_advance_to t a"
| "table_do (Advance d) a =
     (if tt_current a + d < instant_limit then table_advance_to (tt_current a + d) a
      else if tt_current a + century < instant_limit then table_advance_to (tt_current a + century) a
      else (Panicked (Panic ''overflow when adding duration to instant''), a))"
| "table_do NextDeadline a =
     (Deadline (if tt_timers a = [] then None else Some (Min (vt_deadline ` set (tt_timers a)))), a)"
| "table_do PendingTimers a = (Count (length (tt_timers a)), a)"
| "table_do Now a = (At (tt_current a), a)"

fun answers :: "('op \<Rightarrow> 's \<Rightarrow> 'a \<times> 's) \<Rightarrow> 'op list \<Rightarrow> 's \<Rightarrow> 'a list" where
  "answers f [] s = []"
| "answers f (op # ops) s = (case f op s of (a, s') \<Rightarrow> a # answers f ops s')"

definition same_clock :: "'cb virtual_clock \<Rightarrow> timer_table \<Rightarrow> bool" where
  "same_clock c a \<longleftrightarrow> vc_current c = tt_current a \<and> vc_next_timer_id c = tt_next a \<and>
     vc_timers c = sort_key vt_deadline (tt_timers a) \<and> (\<forall>t\<in>set (tt_timers a). vt_id t < tt_next a)"

lemma same_advance_to:
  assumes "same_clock c a" "vc_advance_to t c = ((n, ks), c')"
  shows "\<exists>a'. table_advance_to t a = (Fired n ks, a') \<and> same_clock c' a'"
proof -
  let ?now = "max t (tt_current a)"
  have c': "ks = map vt_waker (filter (\<lambda>t. vt_deadline t \<le> ?now) (vc_timers c))" "n = length ks"
    "vc_timers c' = filter (\<lambda>t. ?now < vt_deadline t) (vc_timers c)" "vc_current c' = ?now"
    "vc_next_timer_id c' = vc_next_timer_id c"
    using assms by (auto simp: vc_advance_to_def Let_def pop_expired_eq sorted_expired same_clock_def max_def
      split: if_splits)
  with assms(1) show ?thesis by (auto simp: table_advance_to_def same_clock_def filter_sort Let_def)
qed

lemma Min_sorted: "sorted (map f (x # xs)) \<Longrightarrow> Min (f ` set (x # xs)) = (f x :: 'a :: linorder)"
  by (rule Min_eqI) auto

lemma same_next_deadline:
  assumes "same_clock c a"
  shows "vc_next_deadline c = (if tt_timers a = [] then None else Some (Min (vt_deadline ` set (tt_timers a))))"
proof (cases "vc_timers c")
  case Nil
  with assms have "tt_timers a = []" by (metis same_clock_def set_empty set_sort)
  with Nil show ?thesis by (simp add: vc_next_deadline_def heap_peek_def)
next
  case (Cons t ts)
  then have s: "sort_key vt_deadline (tt_timers a) = t # ts" using assms by (simp add: same_clock_def)
  then have "sorted (map vt_deadline (t # ts))" by (metis sorted_sort_key)
  moreover have "set (tt_timers a) = set (t # ts)" by (metis s set_sort)
  ultimately show ?thesis using Cons Min_sorted [of vt_deadline t ts]
    by (auto simp: vc_next_deadline_def heap_peek_def)
qed

lemma same_do:
  assumes "same_clock c a" "clock_do op c = (r, c')"
  shows "\<exists>a'. table_do op a = (r, a') \<and> same_clock c' a'"
proof (cases op)
  case (RegisterTimer d k)
  with assms heap_push_sort [of "tt_timers a" "VirtualTimer (tt_next a) d k"] show ?thesis
    by (auto simp: vc_register_timer_def same_clock_def Let_def less_Suc_eq)
next
  case (CancelTimer i)
  with assms show ?thesis by (auto simp: vc_cancel_timer_def same_clock_def filter_sort)
next
  case (AdvanceTo t)
  with assms same_advance_to [OF assms(1)] show ?thesis by (auto split: prod.splits)
next
  case (Advance d)
  have cur: "vc_current c = tt_current a" using assms(1) by (simp add: same_clock_def)
  show ?thesis using Advance assms(2) cur same_advance_to [OF assms(1)] assms(1)
    by (auto simp: vc_advance_def checked_add_def instant_add_def split: prod.splits if_splits)
next
  case PendingTimers
  with assms show ?thesis by (auto simp: vc_pending_timers_def same_clock_def)
next
  case NextDeadline
  with assms same_next_deadline [OF assms(1)] show ?thesis by auto
qed (use assms in \<open>auto simp: vc_now_def same_clock_def\<close>)

lemma same_answers: "same_clock c a \<Longrightarrow> answers clock_do ops c = answers table_do ops a"
proof (induction ops arbitrary: c a)
  case (Cons op ops)
  obtain r c' where c': "clock_do op c = (r, c')" by (cases "clock_do op c")
  from same_do [OF Cons.prems c'] obtain a' where "table_do op a = (r, a')" "same_clock c' a'" by blast
  with c' Cons.IH show ?case by simp
qed simp


end
