(* ===== verification/Kimojio_Errors.thy ===== *)
theory Kimojio_Errors
  imports Wait_List
begin

text \<open>
  \<open>kimojio/src/errors.rs\<close>: the errors of the waiting operations and their conversions. The
  operating system error codes are those the library names; every other one is a number.
\<close>

datatype errno =
  ERR_PIPE | ERR_CANCELED | ERR_TIME | ERR_TIMEDOUT | ERR_INVAL | ERR_PROTO | ERR_OTHER nat

datatype channel_error = ChannelClosed | ChannelCanceled | ChannelTimeout

datatype timeout_error = Timeout | Canceled

datatype 'p task_handle_error = TaskCanceled | TaskPanic 'p

fun channel_error_errno :: "channel_error \<Rightarrow> errno" where
  "channel_error_errno ChannelClosed = ERR_PIPE"
| "channel_error_errno ChannelCanceled = ERR_CANCELED"
| "channel_error_errno ChannelTimeout = ERR_TIME"

fun canceled_channel_error :: "canceled_error \<Rightarrow> channel_error" where
  "canceled_channel_error _ = ChannelCanceled"

fun timeout_channel_error :: "timeout_error \<Rightarrow> channel_error" where
  "timeout_channel_error Timeout = ChannelTimeout"
| "timeout_channel_error Canceled = ChannelCanceled"

fun canceled_timeout_error :: "canceled_error \<Rightarrow> timeout_error" where
  "canceled_timeout_error _ = Canceled"

fun timeout_error_errno :: "timeout_error \<Rightarrow> errno" where
  "timeout_error_errno Timeout = ERR_TIMEDOUT"
| "timeout_error_errno Canceled = ERR_CANCELED"

fun canceled_errno :: "canceled_error \<Rightarrow> errno" where
  "canceled_errno _ = ERR_CANCELED"

text \<open>A panic of the task is raised again, with its payload.\<close>

fun errno_from_task_handle_result :: "'p task_handle_error + (errno + 'r) \<Rightarrow> 'p + (errno + 'r)" where
  "errno_from_task_handle_result (Inr result) = Inr result"
| "errno_from_task_handle_result (Inl TaskCanceled) = Inr (Inl ERR_CANCELED)"
| "errno_from_task_handle_result (Inl (TaskPanic payload)) = Inl payload"

end
