(* ===== verification/Virtual_Sleep.thy ===== *)
theory Virtual_Sleep
  imports Virtual_Clock Kimojio_Errors
begin

text \<open>
  Sleeping: the \<open>VirtualSleepFuture\<close> of \<open>kimojio/src/virtual_clock.rs\<close>, \<open>sleep\<close>, \<open>sleep_until\<close>
  and \<open>SleepFuture\<close> of \<open>operations.rs\<close> with the \<open>virtual-clock\<close> feature, and the step of the main
  loop of \<open>runtime.rs\<close> that advances an idle clock. The future of a timer of the operating
  system is a parameter, as is the callback that says how far to advance.
\<close>

section \<open>\<open>VirtualSleepFuture\<close>\<close>

record virtual_sleep =
  vs_deadline :: instant
  vs_timer_id :: "nat option"
  vs_cached_waker :: "waker option"
  vs_completed :: bool
  vs_yielded_once :: bool

definition vs_new :: "instant \<Rightarrow> virtual_sleep" where
  "vs_new deadline =
     \<lparr>vs_deadline = deadline, vs_timer_id = None, vs_cached_waker = None, vs_completed = False,
      vs_yielded_once = False\<rparr>"

definition vs_release :: "virtual_sleep \<Rightarrow> 'cb clock_state \<Rightarrow> 'cb clock_state" where
  "vs_release f s =
     (case (vs_timer_id f, cs_clock s) of
        (Some i, Some clock) \<Rightarrow> s\<lparr>cs_clock := Some (vc_cancel_timer i clock)\<rparr>
      | _ \<Rightarrow> s)"

definition vs_cancel :: "virtual_sleep \<Rightarrow> 'cb clock_state \<Rightarrow> virtual_sleep \<times> 'cb clock_state" where
  "vs_cancel f s = (f\<lparr>vs_timer_id := None, vs_completed := True\<rparr>, vs_release f s)"

definition vs_is_terminated :: "virtual_sleep \<Rightarrow> bool" where
  "vs_is_terminated f = vs_completed f"

definition vs_needs_register :: "waker \<Rightarrow> virtual_sleep \<Rightarrow> bool" where
  "vs_needs_register cx f =
     (case (vs_timer_id f, vs_cached_waker f) of (Some _, Some k) \<Rightarrow> k \<noteq> cx | _ \<Rightarrow> True)"

definition vs_poll ::
    "waker \<Rightarrow> virtual_sleep \<Rightarrow> 'cb clock_state \<Rightarrow>
     (panic + (errno + unit) poll) \<times> virtual_sleep \<times> 'cb clock_state" where
  "vs_poll cx f s =
     (if vs_completed f then (Inl (Panic ''polled after completion''), f, s)
      else (case cs_clock s of
        None \<Rightarrow> (Inl (Panic ''virtual clock not active''), f, s)
      | Some clock \<Rightarrow>
          if vs_deadline f \<le> vc_now clock then
            (if \<not> vs_yielded_once f then
               (Inr PollPending, f\<lparr>vs_yielded_once := True\<rparr>,
                s\<lparr>cs_world := wake_by_ref (Some cx) (cs_world s)\<rparr>)
             else (Inr (PollReady (Inr ())), f\<lparr>vs_completed := True, vs_timer_id := None\<rparr>, s))
          else if vs_needs_register cx f then
            (let clock1 = (case vs_timer_id f of Some i \<Rightarrow> vc_cancel_timer i clock | None \<Rightarrow> clock) in
             case vc_register_timer (vs_deadline f) cx clock1 of
               (i, clock2) \<Rightarrow>
                 (Inr PollPending, f\<lparr>vs_timer_id := Some i, vs_cached_waker := Some cx\<rparr>,
                  s\<lparr>cs_clock := Some clock2\<rparr>))
          else (Inr PollPending, f, s)))"

definition vs_drop :: "virtual_sleep \<Rightarrow> 'cb clock_state \<Rightarrow> 'cb clock_state" where
  "vs_drop f s = vs_release f s"

section \<open>\<open>SleepFuture\<close>\<close>

datatype 'u sleep_future = Real 'u | Virtual virtual_sleep

definition try_virtual_sleep :: "instant \<Rightarrow> 'cb clock_state \<Rightarrow> 'u sleep_future option" where
  "try_virtual_sleep deadline s =
     (if cs_clock s \<noteq> None then Some (Virtual (vs_new deadline)) else None)"

text \<open>\<open>timer d\<close> is the future of an operating system timer of duration \<open>d\<close>.\<close>

definition sleep :: "(duration \<Rightarrow> 'u) \<Rightarrow> instant \<Rightarrow> duration \<Rightarrow> 'cb clock_state \<Rightarrow> panic + 'u sleep_future" where
  "sleep timer real_now duration s =
     (let now = clock_now real_now s in
      case (case checked_add now duration of Some d \<Rightarrow> Inr d | None \<Rightarrow> instant_add now century) of
        Inl p \<Rightarrow> Inl p
      | Inr deadline \<Rightarrow>
          (case try_virtual_sleep deadline s of
             Some vfut \<Rightarrow> Inr vfut
           | None \<Rightarrow> Inr (Real (timer duration))))"

definition sleep_until :: "(duration \<Rightarrow> 'u) \<Rightarrow> instant \<Rightarrow> instant \<Rightarrow> 'cb clock_state \<Rightarrow> panic + 'u sleep_future" where
  "sleep_until timer real_now deadline s =
     (case try_virtual_sleep deadline s of
        Some vfut \<Rightarrow> Inr vfut
      | None \<Rightarrow> sleep timer real_now (deadline - clock_now real_now s) s)"

definition map_timeout_poll :: "(errno + unit) poll \<Rightarrow> panic + (errno + unit) poll" where
  "map_timeout_poll p =
     (case p of
        PollReady (Inl e) \<Rightarrow> if e = ERR_TIME then Inr (PollReady (Inr ())) else Inr (PollReady (Inl e))
      | PollReady (Inr _) \<Rightarrow> Inl (Panic ''Timeout should never return Ok'')
      | PollPending \<Rightarrow> Inr PollPending)"

definition sleep_poll ::
    "(waker \<Rightarrow> 'u \<Rightarrow> (errno + unit) poll \<times> 'u) \<Rightarrow> waker \<Rightarrow> 'u sleep_future \<Rightarrow> 'cb clock_state \<Rightarrow>
     (panic + (errno + unit) poll) \<times> 'u sleep_future \<times> 'cb clock_state" where
  "sleep_poll unit_poll cx f s =
     (case f of
        Real fut \<Rightarrow> (case unit_poll cx fut of (p, fut') \<Rightarrow> (map_timeout_poll p, Real fut', s))
      | Virtual fut \<Rightarrow> (case vs_poll cx fut s of (p, fut', s') \<Rightarrow> (p, Virtual fut', s')))"

definition sleep_cancel :: "('u \<Rightarrow> 'u) \<Rightarrow> 'u sleep_future \<Rightarrow> 'cb clock_state \<Rightarrow> 'u sleep_future \<times> 'cb clock_state" where
  "sleep_cancel unit_cancel f s =
     (case f of
        Real fut \<Rightarrow> (Real (unit_cancel fut), s)
      | Virtual fut \<Rightarrow> (case vs_cancel fut s of (fut', s') \<Rightarrow> (Virtual fut', s')))"

definition sleep_is_terminated :: "('u \<Rightarrow> bool) \<Rightarrow> 'u sleep_future \<Rightarrow> bool" where
  "sleep_is_terminated unit_terminated f =
     (case f of Real fut \<Rightarrow> unit_terminated fut | Virtual fut \<Rightarrow> vs_is_terminated fut)"

section \<open>Advancing an idle clock\<close>

text \<open>
  One pass of the idle part of the main loop, which acts when no task is ready: \<open>call cb now next s\<close> is the
  callback, which may use the clock itself and returns how far to advance and what it has
  become. The result says whether the callback is to be tried again at the next idle point.
\<close>

definition idle_advance ::
    "('cb \<Rightarrow> instant \<Rightarrow> instant option \<Rightarrow> 'cb clock_state \<Rightarrow> duration option \<times> 'cb \<times> 'cb clock_state) \<Rightarrow>
     bool \<Rightarrow> bool \<Rightarrow> 'cb clock_state \<Rightarrow> (panic + bool) \<times> 'cb clock_state" where
  "idle_advance call any_ready idle_advance_active s =
     (case cs_clock s of
        None \<Rightarrow> (Inr idle_advance_active, s)
      | Some clock \<Rightarrow>
          if \<not> (\<not> any_ready \<and> idle_advance_active \<and> vc_has_idle_advance_fn clock) then (Inr idle_advance_active, s)
          else (case vc_take_idle_advance_fn clock of
            (None, clock1) \<Rightarrow> (Inl (Panic ''called `Option::unwrap()` on a `None` value''), s\<lparr>cs_clock := Some clock1\<rparr>)
          | (Some cb, clock1) \<Rightarrow>
              (case call cb (vc_now clock1) (vc_next_deadline clock1) (s\<lparr>cs_clock := Some clock1\<rparr>) of
                 (advance_duration, cb', s1) \<Rightarrow>
                   (case (case cs_clock s1 of
                            Some clock2 \<Rightarrow> (case vc_restore_idle_advance_fn cb' clock2 of
                                (b, clock3) \<Rightarrow> (b, s1\<lparr>cs_clock := Some clock3\<rparr>))
                          | None \<Rightarrow> (False, s1)) of
                      (was_replaced, s2) \<Rightarrow>
                        (case (if advance_duration = Some 0 then None else advance_duration) of
                           None \<Rightarrow> (Inr was_replaced, s2)
                         | Some dur \<Rightarrow>
                             (case cs_clock s2 of
                                None \<Rightarrow> (Inr True, s2)
                              | Some _ \<Rightarrow> (case virtual_clock_advance dur s2 of
                                    (Inl p, s3) \<Rightarrow> (Inl p, s3) | (Inr _, s3) \<Rightarrow> (Inr True, s3))))))))"

end
