(* ===== verification/Sleep_Runs.thy ===== *)
theory Sleep_Runs
  imports Virtual_Sleep Async_Event
begin

text \<open>
  Runs of any number of sleeps under a virtual clock that stays enabled: each sleep is polled
  with wakers of its own, a different one from poll to poll if its owner likes, and may be
  dropped or canceled; the clock is advanced by hand or at idle points.
\<close>

section \<open>Runs\<close>

record 'cb sleep_run =
  sr_state :: "'cb clock_state"
  sr_sleeps :: "nat \<rightharpoonup> virtual_sleep"
  sr_last :: "nat \<rightharpoonup> waker"

definition cs_deliver :: "waker \<Rightarrow> current_task \<Rightarrow> 'cb clock_state \<Rightarrow> 'cb clock_state" where
  "cs_deliver k c s = s\<lparr>cs_world := deliver k c (cs_world s)\<rparr>"

inductive sleep_step :: "'cb sleep_run \<Rightarrow> 'cb sleep_run \<Rightarrow> bool" where
  start: "sr_sleeps y i = None \<Longrightarrow>
    sleep_until (\<lambda>_. ()) t d (sr_state y) = Inr (Virtual f) \<Longrightarrow>
    sleep_step y (y\<lparr>sr_sleeps := (sr_sleeps y)(i \<mapsto> f), sr_last := (sr_last y)(i := None)\<rparr>)"
| poll: "sr_sleeps y i = Some f \<Longrightarrow> \<not> vs_completed f \<Longrightarrow> (\<And>j. j \<noteq> i \<Longrightarrow> sr_last y j \<noteq> Some k) \<Longrightarrow>
    vs_poll k f (cs_deliver k c (sr_state y)) = (r, f', s') \<Longrightarrow>
    sleep_step y (y\<lparr>sr_state := s', sr_sleeps := (sr_sleeps y)(i \<mapsto> f'), sr_last := (sr_last y)(i \<mapsto> k)\<rparr>)"
| cancel: "sr_sleeps y i = Some f \<Longrightarrow> vs_cancel f (sr_state y) = (f', s') \<Longrightarrow>
    sleep_step y (y\<lparr>sr_state := s', sr_sleeps := (sr_sleeps y)(i \<mapsto> f')\<rparr>)"
| drop: "sr_sleeps y i = Some f \<Longrightarrow> vs_drop f (sr_state y) = s' \<Longrightarrow>
    sleep_step y (y\<lparr>sr_state := s', sr_sleeps := (sr_sleeps y)(i := None), sr_last := (sr_last y)(i := None)\<rparr>)"
| advance: "virtual_clock_advance d (sr_state y) = (r, s') \<Longrightarrow> sleep_step y (y\<lparr>sr_state := s'\<rparr>)"
| advance_to: "virtual_clock_advance_to t (sr_state y) = (r, s') \<Longrightarrow> sleep_step y (y\<lparr>sr_state := s'\<rparr>)"
| enable: "virtual_clock_enable True t (sr_state y) = s' \<Longrightarrow> sleep_step y (y\<lparr>sr_state := s'\<rparr>)"
| install: "virtual_clock_set_idle_advance cb (sr_state y) = (r, s') \<Longrightarrow> sleep_step y (y\<lparr>sr_state := s'\<rparr>)"
| idle: "idle_advance (\<lambda>cb now deadline s. case h cb now deadline of (d, cb') \<Rightarrow> (d, cb', s)) any_ready active (sr_state y) = (r', s') \<Longrightarrow>
    sleep_step y (y\<lparr>sr_state := s'\<rparr>)"

definition sr_start :: "instant \<Rightarrow> world \<Rightarrow> 'cb sleep_run" where
  "sr_start t w =
     \<lparr>sr_state = virtual_clock_enable True t \<lparr>cs_clock = None, cs_world = w\<rparr>, sr_sleeps = Map.empty, sr_last = Map.empty\<rparr>"

section \<open>The invariant\<close>

text \<open>
  A sleep that has been polled and whose deadline has not come holds a registered timer that
  wakes it; one whose deadline has come has been woken since. No timer has two owners.
\<close>

definition polled :: "'cb virtual_clock \<Rightarrow> nat set \<Rightarrow> virtual_sleep \<Rightarrow> waker option \<Rightarrow> bool" where
  "polled c K f lp \<longleftrightarrow>
     (\<forall>n. vs_timer_id f = Some n \<longrightarrow> n < vc_next_timer_id c \<and> lp \<noteq> None) \<and>
     (\<forall>k. lp = Some k \<and> \<not> vs_completed f \<longrightarrow>
        (if vc_current c < vs_deadline f
         then \<exists>n. vs_timer_id f = Some n \<and> vs_cached_waker f = Some k \<and>
                VirtualTimer n (vs_deadline f) k \<in> set (vc_timers c)
         else k \<in> K))"

definition sleeping :: "'cb virtual_clock \<Rightarrow> nat set \<Rightarrow> (nat \<rightharpoonup> virtual_sleep) \<Rightarrow> (nat \<rightharpoonup> waker) \<Rightarrow> bool" where
  "sleeping c K futs lp \<longleftrightarrow> sorted (map vt_deadline (vc_timers c)) \<and>
     (\<forall>i f. futs i = Some f \<longrightarrow> polled c K f (lp i)) \<and>
     (\<forall>i j f g n. futs i = Some f \<and> futs j = Some g \<and> vs_timer_id f = Some n \<and> vs_timer_id g = Some n \<longrightarrow> i = j)"

definition sr_inv :: "'cb sleep_run \<Rightarrow> bool" where
  "sr_inv y \<longleftrightarrow> (\<exists>c. cs_clock (sr_state y) = Some c \<and>
     sleeping c (woken (cs_world (sr_state y))) (sr_sleeps y) (sr_last y))"

lemma wake_each_woken [simp]: "woken (wake_each ks w) = woken w \<union> set ks"
  by (induction ks arbitrary: w) (auto simp: wake_each_def)

lemma advance_to_effect:
  assumes "vc_advance_to t c = ((n, ks), c')" "sorted (map vt_deadline (vc_timers c))"
  shows "vc_current c' = max t (vc_current c)" "vc_next_timer_id c' = vc_next_timer_id c"
    "vc_timers c' = filter (\<lambda>x. vc_current c' < vt_deadline x) (vc_timers c)"
    "ks = map vt_waker (filter (\<lambda>x. vt_deadline x \<le> vc_current c') (vc_timers c))"
  using assms by (auto simp: vc_advance_to_def Let_def pop_expired_eq sorted_expired max_def split: if_splits)

lemma sleeping_advance_to:
  assumes "vc_advance_to t c = ((n, ks), c')" "sleeping c K futs lp"
  shows "sleeping c' (K \<union> set ks) futs lp"
proof -
  have sorted: "sorted (map vt_deadline (vc_timers c))" using assms(2) by (simp add: sleeping_def)
  note c' = advance_to_effect [OF assms(1) sorted]
  have "polled c' (K \<union> set ks) f l" if "polled c K f l" for f l
    using that by (auto simp: polled_def c'(1,2,3,4) image_iff split: if_splits) force+
  with assms(2) sorted show ?thesis by (simp add: sleeping_def c'(3) sorted_filter)
qed


lemma polled_cancel_timer:
  assumes "polled c K f lp" "vs_timer_id f \<noteq> Some n"
  shows "polled (vc_cancel_timer n c) K f lp"
  using assms by (auto simp: polled_def vc_cancel_timer_def)

lemma polled_register:
  "polled c K f lp \<Longrightarrow> vc_register_timer d k c = (n, c') \<Longrightarrow> polled c' K f lp"
  by (auto simp: polled_def vc_register_timer_def Let_def less_Suc_eq split: if_splits)

lemma polled_other: "polled c K f lp \<Longrightarrow> lp \<noteq> Some k \<Longrightarrow> K - {k} \<subseteq> K' \<Longrightarrow> polled c K' f lp"
  by (auto simp: polled_def)

lemma sleeping_upd:
  assumes "sleeping c K futs lp" "\<And>j g. j \<noteq> i \<Longrightarrow> futs j = Some g \<Longrightarrow> polled c K g (lp j) \<Longrightarrow> polled c' K' g (lp j)"
    "polled c' K' f' l" "sorted (map vt_deadline (vc_timers c'))"
    "\<And>j g n. j \<noteq> i \<Longrightarrow> futs j = Some g \<Longrightarrow> vs_timer_id f' = Some n \<Longrightarrow> vs_timer_id g \<noteq> Some n"
  shows "sleeping c' K' (futs(i \<mapsto> f')) (lp(i := l))"
proof -
  have old: "a = b" if "futs a = Some f" "futs b = Some g" "vs_timer_id f = Some n" "vs_timer_id g = Some n" for a b f g n
    using assms(1) that unfolding sleeping_def by blast
  have "a = b" if h: "(futs(i \<mapsto> f')) a = Some f" "(futs(i \<mapsto> f')) b = Some g" "vs_timer_id f = Some n" "vs_timer_id g = Some n"
    for a b f g n
  proof (cases "a = i \<or> b = i")
    case True
    then show ?thesis using h assms(5) by (metis fun_upd_def option.inject)
  next
    case False
    then show ?thesis using h old by simp
  qed
  moreover have "polled c' K' g ((lp(i := l)) j)" if "(futs(i \<mapsto> f')) j = Some g" for j g
  proof (cases "j = i")
    case False
    then have "polled c K g (lp j)" using assms(1) that unfolding sleeping_def by simp
    with False that assms(2) show ?thesis by simp
  qed (use that assms(3) in simp)
  ultimately show ?thesis using assms(4) unfolding sleeping_def by blast
qed

lemma sleeping_forget: "sleeping c K futs lp \<Longrightarrow> sleeping c K (futs(i := None)) (lp(i := None))"
  unfolding sleeping_def by (auto split: if_splits)

lemma sleeping_release:
  assumes "sleeping c K futs lp" "futs i = Some f" "cs_clock s = Some c" "vs_release f s = s'"
  shows "\<exists>c'. cs_clock s' = Some c' \<and> cs_world s' = cs_world s \<and>
    sleeping c' K (futs(i \<mapsto> f\<lparr>vs_timer_id := None, vs_completed := True\<rparr>)) lp"
proof -
  obtain c' where c': "cs_clock s' = Some c'" "cs_world s' = cs_world s"
    "c' = (case vs_timer_id f of Some n \<Rightarrow> vc_cancel_timer n c | None \<Rightarrow> c)"
    using assms(3,4) by (auto simp: vs_release_def split: option.splits)
  have other: "polled c' K g (lp j)" if "j \<noteq> i" "futs j = Some g" "polled c K g (lp j)" for j g
    using that assms(1,2) c'(3) unfolding sleeping_def
    by (auto split: option.splits intro!: polled_cancel_timer)
  have "sorted (map vt_deadline (vc_timers c'))"
    using assms(1) c'(3) by (auto simp: sleeping_def vc_cancel_timer_def sorted_filter split: option.splits)
  moreover have "polled c' K (f\<lparr>vs_timer_id := None, vs_completed := True\<rparr>) (lp i)" by (simp add: polled_def)
  ultimately have "sleeping c' K (futs(i \<mapsto> f\<lparr>vs_timer_id := None, vs_completed := True\<rparr>)) (lp(i := lp i))"
    by (intro sleeping_upd [OF assms(1)]) (use other in auto)
  with c' show ?thesis by (simp only: fun_upd_triv) blast
qed

lemma sleeping_poll:
  assumes "sleeping c (woken (cs_world s)) futs lp" "futs i = Some f" "cs_clock s = Some c"
    "\<not> vs_completed f" "\<And>j. j \<noteq> i \<Longrightarrow> lp j \<noteq> Some k" "vs_poll k f (cs_deliver k t s) = (r, f', s')"
  shows "\<exists>c'. cs_clock s' = Some c' \<and> sleeping c' (woken (cs_world s')) (futs(i \<mapsto> f')) (lp(i \<mapsto> k))"
proof -
  have sorted: "sorted (map vt_deadline (vc_timers c))" and pf: "polled c (woken (cs_world s)) f (lp i)"
    using assms(1,2) by (simp_all add: sleeping_def)
  have uniq: "vs_timer_id g \<noteq> Some n" if "j \<noteq> i" "futs j = Some g" "vs_timer_id f = Some n" for j g n
    using assms(1,2) that unfolding sleeping_def by blast
  have id_less: "n < vc_next_timer_id c" if "futs j = Some g" "vs_timer_id g = Some n" for j g n
    using assms(1) that unfolding sleeping_def polled_def by blast
  have other: "polled c K' g (lp j)" if "j \<noteq> i" "polled c (woken (cs_world s)) g (lp j)" "woken (cs_world s) - {k} \<subseteq> K'"
    for j g K' using polled_other [OF that(2) assms(5) [OF that(1)] that(3)] .
  have close: ?thesis if "cs_clock s' = Some c2" "polled c2 (woken (cs_world s')) f' (Some k)"
    "sorted (map vt_deadline (vc_timers c2))"
    "\<And>j g. j \<noteq> i \<Longrightarrow> futs j = Some g \<Longrightarrow> polled c (woken (cs_world s)) g (lp j) \<Longrightarrow>
       polled c2 (woken (cs_world s')) g (lp j)"
    "\<And>j g n. j \<noteq> i \<Longrightarrow> futs j = Some g \<Longrightarrow> vs_timer_id f' = Some n \<Longrightarrow> vs_timer_id g \<noteq> Some n" for c2
  proof -
    have "sleeping c2 (woken (cs_world s')) (futs(i \<mapsto> f')) (lp(i \<mapsto> k))"
      by (rule sleeping_upd [OF assms(1) that(4) that(2) that(3) that(5)])
    with that(1) show ?thesis by blast
  qed
  consider (yield) "vs_deadline f \<le> vc_current c" "\<not> vs_yielded_once f"
    | (ready) "vs_deadline f \<le> vc_current c" "vs_yielded_once f"
    | (register) "vc_current c < vs_deadline f" "vs_needs_register k f"
    | (keep) "vc_current c < vs_deadline f" "\<not> vs_needs_register k f" by linarith
  then show ?thesis
  proof cases
    case yield
    then have eq: "f' = f\<lparr>vs_yielded_once := True\<rparr>" "cs_clock s' = Some c"
      "woken (cs_world s') = insert k (woken (cs_world s) - {k})"
      using assms(3,4,6) by (auto simp: vs_poll_def cs_deliver_def vc_now_def)
    have "polled c (woken (cs_world s')) f' (Some k)" using yield pf eq by (auto simp: polled_def)
    then show ?thesis
      by (rule close [OF eq(2) _ sorted]) (rule other, assumption, assumption, use eq in blast, use uniq eq in simp)
  next
    case ready
    then have eq: "f' = f\<lparr>vs_completed := True, vs_timer_id := None\<rparr>" "cs_clock s' = Some c"
      "woken (cs_world s') = woken (cs_world s) - {k}"
      using assms(3,4,6) by (auto simp: vs_poll_def cs_deliver_def vc_now_def)
    have "polled c (woken (cs_world s')) f' (Some k)" using eq by (simp add: polled_def)
    then show ?thesis
      by (rule close [OF eq(2) _ sorted]) (rule other, assumption, assumption, use eq in blast, use eq in simp)
  next
    case register
    let ?c1 = "case vs_timer_id f of Some n \<Rightarrow> vc_cancel_timer n c | None \<Rightarrow> c"
    obtain n c2 where reg: "vc_register_timer (vs_deadline f) k ?c1 = (n, c2)"
      by (cases "vc_register_timer (vs_deadline f) k ?c1")
    have eq: "f' = f\<lparr>vs_timer_id := Some n, vs_cached_waker := Some k\<rparr>" "cs_clock s' = Some c2"
      "woken (cs_world s') = woken (cs_world s) - {k}"
      using assms(3,4,6) register reg by (auto simp: vs_poll_def cs_deliver_def vc_now_def Let_def)
    have c1: "vc_next_timer_id ?c1 = vc_next_timer_id c" "vc_current ?c1 = vc_current c"
      "sorted (map vt_deadline (vc_timers ?c1))"
      using sorted by (auto simp: vc_cancel_timer_def sorted_filter split: option.splits)
    have c2: "n = vc_next_timer_id c" "vc_next_timer_id c2 = Suc n" "vc_current c2 = vc_current c"
      "sorted (map vt_deadline (vc_timers c2))" "VirtualTimer n (vs_deadline f) k \<in> set (vc_timers c2)"
      using reg c1 by (auto simp: vc_register_timer_def Let_def sorted_heap_push)
    have others: "polled c2 (woken (cs_world s')) g (lp j)"
      if "j \<noteq> i" "futs j = Some g" "polled c (woken (cs_world s)) g (lp j)" for j g
    proof -
      have "polled ?c1 (woken (cs_world s)) g (lp j)"
        using that uniq by (auto split: option.splits intro: polled_cancel_timer)
      from polled_register [OF polled_other [OF this assms(5) [OF that(1)]] reg] eq(3) show ?thesis by simp
    qed
    have "polled c2 (woken (cs_world s')) f' (Some k)" using eq(1) c2 register by (simp add: polled_def)
    moreover have "vs_timer_id g \<noteq> Some m" if "futs j = Some g" "vs_timer_id f' = Some m" for j g m
      using id_less [OF that(1), of m] that(2) eq(1) c2(1) by auto
    ultimately show ?thesis using close [OF eq(2) _ c2(4)] others by blast
  next
    case keep
    then have eq: "f' = f" "cs_clock s' = Some c" "woken (cs_world s') = woken (cs_world s) - {k}"
      using assms(3,4,6) by (auto simp: vs_poll_def cs_deliver_def vc_now_def)
    have "lp i = Some k"
      using keep pf assms(4) by (auto simp: polled_def vs_needs_register_def split: option.splits)
    with keep pf eq have "polled c (woken (cs_world s')) f' (Some k)" by (auto simp: polled_def)
    then show ?thesis
      by (rule close [OF eq(2) _ sorted]) (rule other, assumption, assumption, use eq in blast, use uniq eq in simp)
  qed
qed


lemma sr_inv_idle_frame:
  assumes "sleeping c K futs lp"
  shows "sleeping (c\<lparr>vc_idle_advance_fn := a, vc_idle_advance_dirty := b\<rparr>) K futs lp"
    "sleeping (c\<lparr>vc_idle_advance_dirty := b, vc_idle_advance_fn := a\<rparr>) K futs lp"
    "sleeping (c\<lparr>vc_idle_advance_fn := a\<rparr>) K futs lp"
  using assms by (simp_all add: sleeping_def polled_def)

lemma sleeping_clock_advance_to:
  assumes "cs_clock s = Some c" "sleeping c (woken (cs_world s)) futs lp" "virtual_clock_advance_to t s = (r, s')"
  shows "\<exists>c'. cs_clock s' = Some c' \<and> sleeping c' (woken (cs_world s')) futs lp"
proof -
  obtain n ks c' where adv: "vc_advance_to t c = ((n, ks), c')" by (metis surj_pair)
  with sleeping_advance_to [OF adv assms(2)] assms(1,3) show ?thesis
    by (auto simp: virtual_clock_advance_to_def)
qed

lemma sleeping_clock_advance:
  assumes "cs_clock s = Some c" "sleeping c (woken (cs_world s)) futs lp" "virtual_clock_advance d s = (r, s')"
  shows "\<exists>c'. cs_clock s' = Some c' \<and> sleeping c' (woken (cs_world s')) futs lp"
proof -
  obtain a c' where adv: "vc_advance d c = (a, c')" by (cases "vc_advance d c")
  show ?thesis
  proof (cases a)
    case (Inl p)
    with adv have "c' = c" by (auto simp: vc_advance_def split: sum.splits prod.splits)
    with Inl adv assms show ?thesis by (auto simp: virtual_clock_advance_def)
  next
    case (Inr q)
    obtain n ks where q: "q = (n, ks)" by (cases q)
    with Inr adv obtain t where "vc_advance_to t c = ((n, ks), c')"
      by (auto simp: vc_advance_def split: sum.splits prod.splits)
    from sleeping_advance_to [OF this assms(2)] Inr q adv assms(1,3) show ?thesis
      by (auto simp: virtual_clock_advance_def)
  qed
qed

lemma sleeping_idle:
  assumes "cs_clock s = Some c" "sleeping c (woken (cs_world s)) futs lp"
    "idle_advance (\<lambda>cb now deadline s. case h cb now deadline of (d, cb') \<Rightarrow> (d, cb', s)) any_ready active s = (r, s')"
  shows "\<exists>c'. cs_clock s' = Some c' \<and> sleeping c' (woken (cs_world s')) futs lp"
proof (cases "\<not> any_ready \<and> active \<and> vc_has_idle_advance_fn c")
  case False
  with assms show ?thesis by (auto simp: idle_advance_def)
next
  case True
  then obtain cb where cb: "vc_idle_advance_fn c = Some cb" by (auto simp: vc_has_idle_advance_fn_def)
  let ?c = "c\<lparr>vc_idle_advance_dirty := False, vc_idle_advance_fn := None\<rparr>"
  obtain d cb' where h: "h cb (vc_now ?c) (vc_next_deadline ?c) = (d, cb')"
    by (cases "h cb (vc_now ?c) (vc_next_deadline ?c)")
  let ?c2 = "?c\<lparr>vc_idle_advance_fn := Some cb'\<rparr>" and ?s2 = "s\<lparr>cs_clock := Some (?c\<lparr>vc_idle_advance_fn := Some cb'\<rparr>)\<rparr>"
  have frame: "sleeping ?c2 (woken (cs_world ?s2)) futs lp"
    using sr_inv_idle_frame(3) [OF sr_inv_idle_frame(2) [OF assms(2)]] by simp
  show ?thesis
  proof (cases "d = None \<or> d = Some 0")
    case True
    with assms(1,3) cb h \<open>\<not> any_ready \<and> active \<and> vc_has_idle_advance_fn c\<close> frame show ?thesis
      by (auto simp: idle_advance_def vc_take_idle_advance_fn_def vc_restore_idle_advance_fn_def)
  next
    case False
    then obtain dur where d: "d = Some dur" "dur \<noteq> 0" by auto
    obtain a s3 where adv: "virtual_clock_advance dur ?s2 = (a, s3)" by (cases "virtual_clock_advance dur ?s2")
    have "s' = s3"
      using assms(1,3) cb h d adv \<open>\<not> any_ready \<and> active \<and> vc_has_idle_advance_fn c\<close>
      by (auto simp: idle_advance_def vc_take_idle_advance_fn_def vc_restore_idle_advance_fn_def split: sum.splits)
    with sleeping_clock_advance [OF _ frame adv] show ?thesis by simp
  qed
qed

lemma sr_inv_step:
  assumes "sleep_step y y'" "sr_inv y"
  shows "sr_inv y'"
proof -
  from assms(2) obtain c where c: "cs_clock (sr_state y) = Some c"
    "sleeping c (woken (cs_world (sr_state y))) (sr_sleeps y) (sr_last y)" by (auto simp: sr_inv_def)
  from assms(1) show ?thesis
  proof cases
    case (start i t d f)
    then have "f = vs_new d" using c(1) by (simp add: sleep_until_def try_virtual_sleep_def)
    then have f: "vs_timer_id f = None" by (simp add: vs_new_def)
    have "sleeping c (woken (cs_world (sr_state y))) ((sr_sleeps y)(i \<mapsto> f)) ((sr_last y)(i := None))"
      by (rule sleeping_upd [OF c(2)]) (use c(2) f in \<open>simp_all add: polled_def sleeping_def\<close>)
    with start c(1) show ?thesis by (simp add: sr_inv_def)
  next
    case (poll i f k t r f' s')
    with sleeping_poll [OF c(2) poll(2) c(1) poll(3,4,5)] show ?thesis by (simp add: sr_inv_def)
  next
    case (cancel i f f' s')
    then have eq: "f' = f\<lparr>vs_timer_id := None, vs_completed := True\<rparr>" "vs_release f (sr_state y) = s'"
      by (simp_all add: vs_cancel_def)
    from sleeping_release [OF c(2) cancel(2) c(1) eq(2)] eq cancel show ?thesis by (auto simp: sr_inv_def)
  next
    case (drop i f s')
    then have "vs_release f (sr_state y) = s'" by (simp add: vs_drop_def)
    from sleeping_release [OF c(2) drop(2) c(1) this] obtain c' where
      "cs_clock s' = Some c'" "cs_world s' = cs_world (sr_state y)"
      "sleeping c' (woken (cs_world (sr_state y)))
        ((sr_sleeps y)(i \<mapsto> f\<lparr>vs_timer_id := None, vs_completed := True\<rparr>)) (sr_last y)" by blast
    with sleeping_forget [OF this(3), of i] drop show ?thesis by (simp add: sr_inv_def)
  next
    case (advance d r s')
    with sleeping_clock_advance [OF c advance(2)] show ?thesis by (simp add: sr_inv_def)
  next
    case (advance_to t r s')
    with sleeping_clock_advance_to [OF c advance_to(2)] show ?thesis by (simp add: sr_inv_def)
  next
    case (enable t s')
    with c show ?thesis by (simp add: sr_inv_def virtual_clock_enable_def)
  next
    case (install cb r s')
    with c sr_inv_idle_frame(1) [OF c(2), where a = "Some cb" and b = True] show ?thesis
      by (auto simp: sr_inv_def virtual_clock_set_idle_advance_def vc_set_idle_advance_fn_def)
  next
    case (idle h any_ready active r s')
    with sleeping_idle [OF c idle(2)] show ?thesis by (simp add: sr_inv_def)
  qed
qed

lemma sr_inv_start: "sr_inv (sr_start t w)"
  by (simp add: sr_start_def sr_inv_def virtual_clock_enable_def vc_new_def sleeping_def)

lemma sr_inv_reachable: "sleep_step\<^sup>*\<^sup>* (sr_start t w) y \<Longrightarrow> sr_inv y"
  by (induction rule: rtranclp_induct) (auto intro: sr_inv_start sr_inv_step)

section \<open>A sleep ends when its time has come\<close>

text \<open>
  C22: A sleep under the virtual clock ends exactly when its time has come. While the deadline
  is ahead, every poll is pending and the sleep holds a timer with the waker of its last poll;
  advancing the clock to the deadline wakes that waker, and the sleep then returns \<open>Ok\<close> at the
  first poll or, when it has not yielded yet, wakes itself and returns \<open>Ok\<close> at the second.
\<close>

theorem virtual_sleep_on_time:
  assumes "sleep_step\<^sup>*\<^sup>* (sr_start t0 w) y" "sr_sleeps y i = Some f" "\<not> vs_completed f" "sr_last y i = Some k"
    "cs_clock (sr_state y) = Some c" "virtual_clock_advance_to t (sr_state y) = (n, s')" "vs_deadline f \<le> t"
  shows "(vc_current c < vs_deadline f \<longrightarrow> fst (vs_poll k' f (sr_state y)) = Inr PollPending \<and>
      (\<exists>n. VirtualTimer n (vs_deadline f) k \<in> set (vc_timers c))) \<and>
    k \<in> woken (cs_world s') \<and>
    (fst (vs_poll k f (cs_deliver k ct s')) = Inr (PollReady (Inr ())) \<or>
     (\<exists>f1 s1. vs_poll k f (cs_deliver k ct s') = (Inr PollPending, f1, s1) \<and> k \<in> woken (cs_world s1) \<and>
        fst (vs_poll k f1 (cs_deliver k ct s1)) = Inr (PollReady (Inr ()))))"
proof -
  have inv: "sleeping c (woken (cs_world (sr_state y))) (sr_sleeps y) (sr_last y)"
    using sr_inv_reachable [OF assms(1)] assms(5) by (auto simp: sr_inv_def)
  then have pf: "polled c (woken (cs_world (sr_state y))) f (Some k)"
    using assms(2,4) unfolding sleeping_def by metis
  then have early: "vc_current c < vs_deadline f \<Longrightarrow> fst (vs_poll k' f (sr_state y)) = Inr PollPending \<and>
      (\<exists>n. VirtualTimer n (vs_deadline f) k \<in> set (vc_timers c))"
    using assms(3,5) by (auto simp: polled_def vs_poll_def vc_now_def Let_def split: prod.splits)
  obtain m ks c' where adv: "vc_advance_to t c = ((m, ks), c')" by (metis surj_pair)
  have s': "cs_clock s' = Some c'" "woken (cs_world s') = woken (cs_world (sr_state y)) \<union> set ks"
    using adv assms(5,6) by (auto simp: virtual_clock_advance_to_def)
  have "t \<le> vc_current c'" using advance_to_effect(1) [OF adv] inv by (simp add: sleeping_def)
  then have due: "vs_deadline f \<le> vc_current c'" using assms(7) by simp
  have "polled c' (woken (cs_world s')) f (Some k)"
    using sleeping_advance_to [OF adv inv] assms(2,4) unfolding sleeping_def s'(2) by metis
  then have woken: "k \<in> woken (cs_world s')" using assms(3) due by (simp add: polled_def)
  have late: "fst (vs_poll k f (cs_deliver k ct s')) = Inr (PollReady (Inr ())) \<or>
     (\<exists>f1 s1. vs_poll k f (cs_deliver k ct s') = (Inr PollPending, f1, s1) \<and> k \<in> woken (cs_world s1) \<and>
        fst (vs_poll k f1 (cs_deliver k ct s1)) = Inr (PollReady (Inr ())))"
  proof (cases "vs_yielded_once f")
    case False
    let ?s1 = "(cs_deliver k ct s')\<lparr>cs_world := wake_by_ref (Some k) (cs_world (cs_deliver k ct s'))\<rparr>"
    have "vs_poll k f (cs_deliver k ct s') = (Inr PollPending, f\<lparr>vs_yielded_once := True\<rparr>, ?s1)"
      "fst (vs_poll k (f\<lparr>vs_yielded_once := True\<rparr>) (cs_deliver k ct ?s1)) = Inr (PollReady (Inr ()))"
      "k \<in> woken (cs_world ?s1)"
      using False assms(3) s'(1) due by (simp_all add: vs_poll_def vc_now_def cs_deliver_def)
    then show ?thesis by blast
  qed (use assms(3) s'(1) due in \<open>simp add: vs_poll_def vc_now_def cs_deliver_def\<close>)
  from early woken late show ?thesis by blast
qed


definition sleep_demo :: "unit sleep_run" where
  "sleep_demo =
     \<lparr>sr_state = \<lparr>cs_clock = Some \<lparr>vc_epoch = 0, vc_current = 0, vc_timers = [VirtualTimer 1 10 7], vc_next_timer_id = 2,
          vc_idle_advance_fn = None, vc_idle_advance_dirty = False\<rparr>, cs_world = idle_world\<rparr>,
      sr_sleeps = [3 \<mapsto> \<lparr>vs_deadline = 10, vs_timer_id = Some 1, vs_cached_waker = Some 7,
          vs_completed = False, vs_yielded_once = False\<rparr>],
      sr_last = [3 \<mapsto> 7]\<rparr>"

lemma sleep_demo_reachable: "sleep_step\<^sup>*\<^sup>* (sr_start 0 idle_world) sleep_demo"
proof -
  let ?y = "(sr_start 0 idle_world :: unit sleep_run)\<lparr>sr_sleeps := [3 \<mapsto> vs_new 10], sr_last := Map.empty\<rparr>"
  have "sleep_step (sr_start 0 idle_world) ?y"
    using sleep_step.start [of "sr_start 0 idle_world :: unit sleep_run" 3 0 10 "vs_new 10"]
    by (simp add: sr_start_def virtual_clock_enable_def sleep_until_def try_virtual_sleep_def)
  moreover have "sleep_step ?y sleep_demo"
    using sleep_step.poll [of ?y 3 "vs_new 10" 7 idle_task "Inr PollPending" "the (sr_sleeps sleep_demo 3)" "sr_state sleep_demo"]
    by (simp add: sr_start_def virtual_clock_enable_def sleep_demo_def vs_new_def vs_poll_def vc_new_def vc_now_def vs_needs_register_def
      vc_register_timer_def cs_deliver_def deliver_def idle_world_def idle_task_def)
  ultimately show ?thesis by simp
qed

theorem virtual_sleep_on_time_witness:
  "7 \<in> woken (cs_world (snd (virtual_clock_advance_to 10 (sr_state sleep_demo))))"
  using virtual_sleep_on_time [OF sleep_demo_reachable, of 3 "the (sr_sleeps sleep_demo 3)" 7
    "the (cs_clock (sr_state sleep_demo))" 10 "fst (virtual_clock_advance_to 10 (sr_state sleep_demo))"
    "snd (virtual_clock_advance_to 10 (sr_state sleep_demo))"]
  by (simp add: sleep_demo_def)

section \<open>Where the clock and its documentation part\<close>



text \<open>
  C35: A sleep that outlives the clock it was started under takes a timer from the next one.
  Timer numbers start again with every clock, so when the clock is disabled and enabled again,
  dropping the first sleep of the old clock cancels the timer of the first sleep of the new one:
  advancing the new clock past its deadline fires nothing and wakes nobody.
\<close>

theorem stale_sleep_cancels_timer:
  assumes "cs_clock s = None" "t < a" "t' < b"
    "vs_poll k (vs_new a) (virtual_clock_enable True t s) = (r, f, s1)"
    "vs_poll k' (vs_new b) (virtual_clock_enable True t' (virtual_clock_enable False t' s1)) = (r', f', s2)"
  shows "fst (virtual_clock_advance_to u s2) = Inr (if b \<le> u then 1 else 0) \<and>
    (case virtual_clock_advance_to u (vs_drop f s2) of (n, s3) \<Rightarrow> n = Inr 0 \<and> w_wakes (cs_world s3) = w_wakes (cs_world s2))"
proof -
  have f: "vs_timer_id f = Some 1"
    using assms(1,2,4) by (auto simp: vs_poll_def vs_new_def virtual_clock_enable_def vc_new_def vc_now_def
      vs_needs_register_def vc_register_timer_def)
  obtain c2 where s2: "cs_clock s2 = Some c2" "vc_timers c2 = [VirtualTimer 1 b k']" "vc_current c2 = t'"
    using assms(3,5) by (auto simp: vs_poll_def vs_new_def virtual_clock_enable_def vc_new_def vc_now_def
      vs_needs_register_def vc_register_timer_def)
  with f assms(3) show ?thesis
    by (auto simp: virtual_clock_advance_to_def vc_advance_to_def vs_drop_def vs_release_def vc_cancel_timer_def
      pop_expired_eq wake_each_def Let_def)
qed


definition fresh_state :: "unit clock_state" where
  "fresh_state = \<lparr>cs_clock = None, cs_world = idle_world\<rparr>"

definition old_sleep :: "virtual_sleep \<times> unit clock_state" where
  "old_sleep = snd (vs_poll 1 (vs_new 10) (virtual_clock_enable True 0 fresh_state))"

definition new_sleep :: "virtual_sleep \<times> unit clock_state" where
  "new_sleep = snd (vs_poll 2 (vs_new 20) (virtual_clock_enable True 5 (virtual_clock_enable False 5 (snd old_sleep))))"

theorem stale_sleep_cancels_timer_witness:
  "fst (virtual_clock_advance_to 30 (snd new_sleep)) = Inr 1 \<and>
   fst (virtual_clock_advance_to 30 (vs_drop (fst old_sleep) (snd new_sleep))) = Inr 0"
  using stale_sleep_cancels_timer [of fresh_state 0 10 5 20 1
      "fst (vs_poll 1 (vs_new 10) (virtual_clock_enable True 0 fresh_state))" "fst old_sleep" "snd old_sleep" 2
      "fst (vs_poll 2 (vs_new 20) (virtual_clock_enable True 5 (virtual_clock_enable False 5 (snd old_sleep))))"
      "fst new_sleep" "snd new_sleep" 30]
  by (simp add: fresh_state_def old_sleep_def new_sleep_def split: prod.splits)

text \<open>
  A canceled sleep does not resolve. \<open>cancel\<close> is documented to make a sleep resolve with an
  error; under the virtual clock the timer is given back, and the next poll panics.
\<close>

lemma canceled_sleep_panics:
  "fst (sleep_poll unit_poll k (fst (sleep_cancel unit_cancel (Virtual f) s)) s') =
     Inl (Panic ''polled after completion'')"
  by (simp add: sleep_poll_def sleep_cancel_def vs_cancel_def vs_poll_def)

section \<open>Idle points\<close>

text \<open>
  C33: With the callback that advances to the next timer, an idle runtime moves on. In any run
  of sleeps, if the earliest pending timer lies ahead, one idle pass moves the clock to its
  deadline, wakes every timer with that deadline, keeps the callback and asks to be tried again.
\<close>

theorem idle_advance_to_next_timer:
  assumes "sleep_step\<^sup>*\<^sup>* (sr_start t0 w) y" "cs_clock (sr_state y) = Some c" "vc_idle_advance_fn c = Some cb"
    "vc_next_deadline c = Some d" "vc_current c < d" "d < instant_limit"
    "idle_advance (\<lambda>cb now deadline s. (map_option (\<lambda>x. x - now) deadline, cb, s)) False True (sr_state y) = (r, s')"
  shows "r = Inr True \<and> (\<exists>c'. cs_clock s' = Some c' \<and> vc_current c' = d \<and> vc_idle_advance_fn c' = Some cb) \<and>
    (\<forall>x\<in>set (vc_timers c). vt_deadline x = d \<longrightarrow> vt_waker x \<in> woken (cs_world s'))"
proof -
  have sorted: "sorted (map vt_deadline (vc_timers c))"
    using sr_inv_reachable [OF assms(1)] assms(2) by (auto simp: sr_inv_def sleeping_def)
  let ?c = "c\<lparr>vc_idle_advance_dirty := False, vc_idle_advance_fn := Some cb\<rparr>"
  obtain n ks c' where adv: "vc_advance_to d ?c = ((n, ks), c')" by (metis surj_pair)
  have "vc_advance (d - vc_current c) ?c = (Inr (n, ks), c')"
    using adv assms(5,6) by (simp add: vc_advance_def checked_add_def)
  then have s': "r = Inr True" "cs_clock s' = Some c'" "woken (cs_world s') = woken (cs_world (sr_state y)) \<union> set ks"
    using assms(2,3,4,5,7)
    by (auto simp: idle_advance_def vc_has_idle_advance_fn_def vc_take_idle_advance_fn_def vc_next_deadline_def
      vc_now_def vc_restore_idle_advance_fn_def virtual_clock_advance_def)
  have "vc_current c' = d" "ks = map vt_waker (filter (\<lambda>x. vt_deadline x \<le> d) (vc_timers c))"
    using advance_to_effect [OF adv] sorted assms(5) by simp_all
  moreover have "vc_idle_advance_fn c' = Some cb"
    using adv by (auto simp: vc_advance_to_def Let_def split: prod.splits)
  ultimately show ?thesis using s' by auto
qed


definition idle_demo :: "unit sleep_run" where
  "idle_demo = sleep_demo\<lparr>sr_state := snd (virtual_clock_set_idle_advance () (sr_state sleep_demo))\<rparr>"

lemma idle_demo_reachable: "sleep_step\<^sup>*\<^sup>* (sr_start 0 idle_world) idle_demo"
  by (rule rtranclp.rtrancl_into_rtrancl [OF sleep_demo_reachable])
    (unfold idle_demo_def, rule sleep_step.install [where r = "fst (virtual_clock_set_idle_advance () (sr_state sleep_demo))" and cb = "()"], simp)

theorem idle_advance_to_next_timer_witness:
  "7 \<in> woken (cs_world (snd (idle_advance (\<lambda>cb now deadline s. (map_option (\<lambda>x. x - now) deadline, cb, s)) False True (sr_state idle_demo))))"
  using idle_advance_to_next_timer [OF idle_demo_reachable, of "the (cs_clock (sr_state idle_demo))" "()" 10
    "fst (idle_advance (\<lambda>cb now deadline s. (map_option (\<lambda>x. x - now) deadline, cb, s)) False True (sr_state idle_demo))"
    "snd (idle_advance (\<lambda>cb now deadline s. (map_option (\<lambda>x. x - now) deadline, cb, s)) False True (sr_state idle_demo))"]
  by (simp add: idle_demo_def sleep_demo_def virtual_clock_set_idle_advance_def vc_set_idle_advance_fn_def
    vc_next_deadline_def heap_peek_def instant_limit_def)

end
