(* ===== verification/Varlink_Request.thy ===== *)
theory Varlink_Request
  imports Json_Grammar
begin

text \<open>
  The request that \<open>kimojio/src/resolver.rs\<close> sends to systemd-resolved: the host name is
  written into a fixed JSON object as the body of a string, and a NUL byte ends the message.
\<close>

section \<open>Encoding\<close>

definition hex_digit :: "nat \<Rightarrow> char" where
  "hex_digit v = (if v \<le> 9 then char_of (0x30 + v) else char_of (0x61 + (v - 10)))"

definition encode_character :: "scalar \<Rightarrow> string" where
  "encode_character c =
     (if c = 0x22 then [CHR 0x5C, CHR 0x22]
      else if c = 0x5C then [CHR 0x5C, CHR 0x5C]
      else if c = 0x2F then [CHR 0x5C, CHR ''/'']
      else if c = 0x08 then [CHR 0x5C, CHR ''b'']
      else if c = 0x0C then [CHR 0x5C, CHR ''f'']
      else if c = 0x0A then [CHR 0x5C, CHR ''n'']
      else if c = 0x0D then [CHR 0x5C, CHR ''r'']
      else if c = 0x09 then [CHR 0x5C, CHR ''t'']
      else if c \<le> 0x1F then CHR 0x5C # ''u00'' @ [hex_digit (drop_bit 4 c), hex_digit (take_bit 4 c)]
      else encode_utf8 c)"

definition encode_json_string_contents :: "string \<Rightarrow> string \<Rightarrow> string" where
  "encode_json_string_contents value encoded =
     foldl (\<lambda>encoded character. encoded @ encode_character character) encoded (str_chars value)"

definition RESOLVE_HOSTNAME_METHOD :: string where
  "RESOLVE_HOSTNAME_METHOD = ''io.systemd.Resolve.ResolveHostname''"

definition REQUEST_PREFIX :: string where
  "REQUEST_PREFIX = CHR ''{'' # CHR 0x22 # ''method'' @ [CHR 0x22, CHR '':'', CHR 0x22]"

definition REQUEST_PARAMETERS :: string where
  "REQUEST_PARAMETERS =
     CHR 0x22 # CHR '','' # CHR 0x22 # ''parameters'' @
     [CHR 0x22, CHR '':'', CHR ''{'', CHR 0x22] @ ''name'' @ [CHR 0x22, CHR '':'', CHR 0x22]"

definition REQUEST_SUFFIX :: string where
  "REQUEST_SUFFIX = CHR 0x22 # ''}}''"

definition encode_varlink_request :: "string \<Rightarrow> 'e + string" where
  "encode_varlink_request host =
     (let encoded = [] @ REQUEST_PREFIX @ RESOLVE_HOSTNAME_METHOD @ REQUEST_PARAMETERS;
          encoded = encode_json_string_contents host encoded in
      Inr (encoded @ REQUEST_SUFFIX @ [CHR 0x00]))"

section \<open>The request is JSON and names the host\<close>

definition piece_of :: "scalar \<Rightarrow> piece" where
  "piece_of c =
     (if c = 0x22 then Simple (CHR 0x22)
      else if c = 0x5C then Simple (CHR 0x5C)
      else if c = 0x2F then Simple (CHR ''/'')
      else if c = 0x08 then Simple (CHR ''b'')
      else if c = 0x0C then Simple (CHR ''f'')
      else if c = 0x0A then Simple (CHR ''n'')
      else if c = 0x0D then Simple (CHR ''r'')
      else if c = 0x09 then Simple (CHR ''t'')
      else if c \<le> 0x1F then Unicode (''00'' @ [hex_digit (drop_bit 4 c), hex_digit (take_bit 4 c)])
      else Plain c)"

lemma hex_nibble_digit: "v < 16 \<Longrightarrow> hex_nibble (hex_digit v) = Some v"
  by (auto simp: hex_nibble_def hex_digit_def Let_def)

lemma hex_digit_hexdigit: "v < 16 \<Longrightarrow> is_ascii_hexdigit (hex_digit v)"
  by (auto simp: hex_digit_def is_ascii_hexdigit_def is_ascii_digit_def)

lemma control_nibbles:
  assumes "c \<le> 0x1F"
  shows "drop_bit 4 c < (16 :: nat)" "take_bit 4 c < (16 :: nat)" "16 * drop_bit 4 c + take_bit 4 c = (c :: nat)"
  using assms by (simp_all add: drop_bit_eq_div take_bit_eq_mod)

lemma control_quad:
  assumes "c \<le> 0x1F"
  shows "hex_quad (''00'' @ [hex_digit (drop_bit 4 c), hex_digit (take_bit 4 c)])"
    "hex_num (''00'' @ [hex_digit (drop_bit 4 c), hex_digit (take_bit 4 c)]) = c"
proof -
  note v = control_nibbles [OF assms]
  have "hex_nibble (CHR ''0'') = Some 0" by (simp add: hex_nibble_def)
  then show "hex_quad (''00'' @ [hex_digit (drop_bit 4 c), hex_digit (take_bit 4 c)])"
    "hex_num (''00'' @ [hex_digit (drop_bit 4 c), hex_digit (take_bit 4 c)]) = c"
    using hex_nibble_digit [OF v(1)] hex_nibble_digit [OF v(2)] v(3)
    by (simp_all add: hex_quad_def hex_num_def)
qed

lemma piece_of_correct:
  assumes "is_scalar c"
  shows "piece_text (piece_of c) = encode_character c" "piece_ok (piece_of c)" "piece_value (piece_of c) = c"
proof -
  have "c \<le> 0x1F \<Longrightarrow> \<not> is_high c \<and> \<not> is_low c" by (simp add: is_high_def is_low_def)
  with assms control_quad [of c]
  show "piece_text (piece_of c) = encode_character c" "piece_ok (piece_of c)" "piece_value (piece_of c) = c"
    by (simp_all add: piece_of_def encode_character_def simple_escape_def)
qed

lemma string_body_append: "string_body a \<Longrightarrow> string_body b \<Longrightarrow> string_body (a @ b)"
  by (induction rule: string_body.induct) (auto intro: string_body.intros)

lemma string_body_ordinary: "\<forall>c\<in>set s. \<not> stops_string c \<Longrightarrow> string_body s"
  by (induction s) (auto intro: string_body.intros)

lemma encode_utf8_high:
  assumes "0x80 \<le> c" "is_scalar c" "b \<in> set (encode_utf8 c)"
  shows "0x80 \<le> byte_val b"
proof -
  have "c < 0x110000" using assms(2) by (auto simp: is_scalar_def)
  then have "c div 262144 < 8" by simp
  moreover have "c < 0x10000 \<Longrightarrow> c div 4096 < 16" "c < 0x800 \<Longrightarrow> c div 64 < 32" by simp_all
  ultimately show ?thesis using assms(1,3) by (auto simp: encode_utf8_def split: if_splits)
qed

lemma encode_control_body:
  assumes "c \<le> 0x1F"
  shows "string_body (CHR 0x5C # ''u00'' @ [hex_digit (drop_bit 4 c), hex_digit (take_bit 4 c)])"
  using unicode [of "''00'' @ [hex_digit (drop_bit 4 c), hex_digit (take_bit 4 c)]" "[]"]
    hex_digit_hexdigit control_nibbles [OF assms]
  by (simp add: string_body.empty is_ascii_hexdigit_def is_ascii_digit_def)

lemma encode_plain_body:
  assumes "is_scalar c" "0x1F < c" "c \<noteq> 0x22" "c \<noteq> 0x5C"
  shows "string_body (encode_utf8 c)"
proof (rule string_body_ordinary, intro ballI notI)
  fix b assume b: "b \<in> set (encode_utf8 c)" "stops_string b"
  show False
  proof (cases "c < 0x80")
    case True
    with b(1) have "byte_val b = c" by (simp add: encode_utf8_def)
    with b(2) assms show False by (auto simp: stops_string_def)
  next
    case False
    with encode_utf8_high [of c b] assms b show False by (auto simp: stops_string_def)
  qed
qed

lemma encode_character_body: "is_scalar c \<Longrightarrow> string_body (encode_character c)"
  using encode_control_body [of c] encode_plain_body [of c]
  by (simp add: encode_character_def simple_escape_def string_body.simple string_body.empty)


definition name_body :: "string \<Rightarrow> string" where
  "name_body host = concat (map encode_character (str_chars host))"

lemma encode_contents_eq: "encode_json_string_contents host encoded = encoded @ name_body host"
proof -
  have "foldl (\<lambda>encoded character. encoded @ encode_character character) encoded cs =
      encoded @ concat (map encode_character cs)" for cs
    by (induction cs arbitrary: encoded) simp_all
  then show ?thesis by (simp add: encode_json_string_contents_def name_body_def)
qed

lemma name_body_string:
  assumes "valid_utf8 host"
  shows "string_body (name_body host)"
    "un_items (es_unescape (es_new (name_body host))) = map Inr (str_chars host)"
proof -
  have scalars: "list_all is_scalar (str_chars host)" using assms by (simp add: valid_utf8_def)
  have "list_all is_scalar cs \<Longrightarrow> string_body (concat (map encode_character cs))" for cs
    by (induction cs) (simp_all add: string_body.empty string_body_append encode_character_body)
  with scalars show "string_body (name_body host)" by (simp add: name_body_def)
  have pieces: "list_all is_scalar cs \<Longrightarrow> list_all piece_ok (map piece_of cs) \<and>
      body_text (map piece_of cs) = concat (map encode_character cs) \<and> map (piece_value \<circ> piece_of) cs = cs" for cs
    by (induction cs) (simp_all add: piece_of_correct)
  from pieces [OF scalars] un_items_pieces [of "map piece_of (str_chars host)" "[]" 0]
  show "un_items (es_unescape (es_new (name_body host))) = map Inr (str_chars host)"
    by (simp add: es_unescape_def es_new_def name_body_def flip: map_map)
qed

lemma name_body_bytes:
  assumes "valid_utf8 host"
  shows "valid_utf8 (name_body host)" "CHR 0x00 \<notin> set (name_body host)"
proof -
  have scalars: "list_all is_scalar (str_chars host)" using assms by (simp add: valid_utf8_def)
  have one: "valid_utf8 (encode_character c) \<and> CHR 0x00 \<notin> set (encode_character c)" if "is_scalar c" for c
  proof -
    have "valid_utf8 (piece_text (piece_of c) @ [])"
      using piece_of_correct(2) [OF that] by (simp add: piece_text_valid del: append_Nil2)
    moreover have "CHR 0x00 \<notin> set (encode_character c)"
    proof
      assume "CHR 0x00 \<in> set (encode_character c)"
      moreover have "CHR 0x00 \<noteq> hex_digit v" if "v < 16" for v
      proof
        assume "CHR 0x00 = hex_digit v"
        then have "is_ascii_hexdigit (CHR 0x00)" using hex_digit_hexdigit [OF that] by simp
        then show False by (simp add: is_ascii_hexdigit_def is_ascii_digit_def)
      qed
      ultimately have "\<not> c \<le> 0x1F" "CHR 0x00 \<in> set (encode_utf8 c)"
        using control_nibbles [of c] by (auto simp: encode_character_def split: if_splits)
      then show False using that encode_utf8_high [of c "CHR 0x00"]
        by (cases "c < 0x80") (auto simp: encode_utf8_def dest: arg_cong [of _ _ byte_val])
    qed
    ultimately show ?thesis using piece_of_correct(1) [OF that] by simp
  qed
  have "list_all is_scalar cs \<Longrightarrow> valid_utf8 (concat (map encode_character cs)) \<and>
      CHR 0x00 \<notin> set (concat (map encode_character cs))" for cs
    using one by (induction cs) (simp_all add: valid_utf8_append)
  from this [OF scalars] show "valid_utf8 (name_body host)" "CHR 0x00 \<notin> set (name_body host)"
    by (simp_all add: name_body_def)
qed

definition request_json :: "string \<Rightarrow> json" where
  "request_json body = JObj [(''method'', JStr RESOLVE_HOSTNAME_METHOD), (''parameters'', JObj [(''name'', JStr body)])]"

definition request_text :: "string \<Rightarrow> string" where
  "request_text body = REQUEST_PREFIX @ RESOLVE_HOSTNAME_METHOD @ REQUEST_PARAMETERS @ body @ REQUEST_SUFFIX"

lemma request_text_json:
  assumes "string_body body"
  shows "json_text (request_json body) (request_text body)"
proof -
  have plain: "string_body ''method''" "string_body ''parameters''" "string_body ''name''"
    "string_body RESOLVE_HOSTNAME_METHOD"
    by (simp_all add: string_body_ordinary stops_string_def RESOLVE_HOSTNAME_METHOD_def)
  have "members [(''name'', JStr body)]
     ([] @ CHR 0x22 # ''name'' @ CHR 0x22 # [] @ CHR '':'' # [] @ (CHR 0x22 # body @ [CHR 0x22]) @ [])"
    by (rule member [OF _ plain(3) _ _ json_text_elements_members.string [OF assms]]) simp_all
  from object [OF this] have inner: "json_text (JObj [(''name'', JStr body)])
     (CHR ''{'' # CHR 0x22 # ''name'' @ CHR 0x22 # CHR '':'' # CHR 0x22 # body @ [CHR 0x22, CHR ''}''])" by simp
  from member [OF _ plain(2) _ _ inner, of "[]" "[]" "[]" "[]"]
  have "members [(''parameters'', JObj [(''name'', JStr body)])]
     (CHR 0x22 # ''parameters'' @ CHR 0x22 # CHR '':'' #
       CHR ''{'' # CHR 0x22 # ''name'' @ CHR 0x22 # CHR '':'' # CHR 0x22 # body @ [CHR 0x22, CHR ''}''])" by simp
  from object [OF more_members [OF _ plain(1) _ _ json_text_elements_members.string [OF plain(4)] _ this, of "[]" "[]" "[]" "[]"]]
  show ?thesis
    by (simp add: request_json_def request_text_def REQUEST_PREFIX_def REQUEST_PARAMETERS_def REQUEST_SUFFIX_def)
qed

text \<open>
  C18: The request is well-formed JSON that names the host. For every UTF-8 host name the bytes
  sent are a text without NUL followed by one NUL; the tokenizer accepts the text as the object
  of a method call whose \<open>name\<close> is a string, and decoding the escapes of that string gives back
  the characters of the host name, quotes, backslashes and control characters included.
\<close>

theorem varlink_request_roundtrip:
  assumes "valid_utf8 host"
  shows "\<exists>t body tk'. encode_varlink_request host = Inr (t @ [CHR 0x00]) \<and> CHR 0x00 \<notin> set t \<and>
    drive collect (tk_new t) [] = (Inr None, tk',
      [ObjectStart, Key ''method'', StringTok ''io.systemd.Resolve.ResolveHostname'', Key ''parameters'',
       ObjectStart, Key ''name'', string_token body, ObjectEnd, ObjectEnd]) \<and>
    un_items (es_unescape (es_new body)) = map Inr (str_chars host)"
proof -
  let ?body = "name_body host"
  note body = name_body_string [OF assms] name_body_bytes [OF assms]
  have enc: "encode_varlink_request host = Inr (request_text ?body @ [CHR 0x00])"
    by (simp add: encode_varlink_request_def encode_contents_eq request_text_def)
  have nul: "CHR 0x00 \<notin> set (request_text ?body)"
    using body(4) by (simp add: request_text_def REQUEST_PREFIX_def REQUEST_PARAMETERS_def REQUEST_SUFFIX_def
      RESOLVE_HOSTNAME_METHOD_def)
  have "valid_utf8 (request_text ?body)"
    using body(3) by (simp add: request_text_def REQUEST_PREFIX_def REQUEST_PARAMETERS_def REQUEST_SUFFIX_def
      RESOLVE_HOSTNAME_METHOD_def valid_utf8_append)
  then obtain tk' where "run collect (tk_new (request_text ?body)) [] = (Inr None, tk', tokens_of (request_json ?body))"
    using run_collect_json [of "[]" "request_text ?body" "[]" "request_json ?body"] request_text_json [OF body(1)]
    by (auto simp: request_json_def MAX_DEPTH_def STACK_WORDS_def)
  then have "drive collect (tk_new (request_text ?body)) [] = (Inr None, tk',
      [ObjectStart, Key ''method'', StringTok ''io.systemd.Resolve.ResolveHostname'', Key ''parameters'',
       ObjectStart, Key ''name'', string_token ?body, ObjectEnd, ObjectEnd])"
    unfolding drive_new_eq_run
    by (simp add: request_json_def key_token_def string_token_def RESOLVE_HOSTNAME_METHOD_def)
  with enc nul body(2) show ?thesis by blast
qed

theorem varlink_request_roundtrip_witness:
  "\<exists>t. encode_varlink_request [CHR ''a'', CHR 0x22, CHR 0x01] = Inr (t @ [CHR 0x00]) \<and> CHR 0x00 \<notin> set t"
  using varlink_request_roundtrip [of "[CHR ''a'', CHR 0x22, CHR 0x01]"] by (fastforce simp: valid_utf8_all_ascii)

end
