(* ===== verification/Resolver.thy ===== *)
theory Resolver
  imports Varlink_Request Varlink_Correct Kimojio_Errors
begin

text \<open>
  The resolver of \<open>kimojio/src/resolver.rs\<close>: decoding a reply of systemd-resolved into socket
  addresses, the framed connection, the choice between the service and the blocking helper. The
  operating system (sockets, event descriptors, the helper thread) is a record of operations on
  a state of arbitrary type, and parsing an address literal is a parameter. A message made with
  \<open>format!\<close> is kept as the values it shows.
\<close>

section \<open>Errors and addresses\<close>

datatype protocol_detail =
  Detail string | NotUtf8After nat | NotValidReply reply_error | UnsupportedFamily int

datatype 'e resolve_error =
  HostNotFound string | Protocol protocol_detail | ResolveIo string errno | System string 'e
| HelperUnavailable string | ResolveCanceled

datatype ip_addr = V4 "8 word list" | V6 "8 word list"

text \<open>A socket address: octets and port, and flow information and scope for version 6.\<close>

datatype socket_addr = SocketV4 "8 word list" "16 word" | SocketV6 "8 word list" "16 word" nat nat

fun socket_addr_new :: "ip_addr \<Rightarrow> 16 word \<Rightarrow> socket_addr" where
  "socket_addr_new (V4 os) port = SocketV4 os port"
| "socket_addr_new (V6 os) port = SocketV6 os port 0 0"

definition AF_INET :: int where "AF_INET = 2"

definition AF_INET6 :: int where "AF_INET6 = 10"

definition socket_address :: "resolved_address \<Rightarrow> 16 word \<Rightarrow> 'e resolve_error + socket_addr" where
  "socket_address address port =
     (if ra_family address = AF_INET then
        (if length (address_octets address) = 4 then Inr (socket_addr_new (V4 (address_octets address)) port)
         else Inl (Protocol (Detail ''IPv4 address did not contain exactly 4 bytes'')))
      else if ra_family address = AF_INET6 then
        (if length (address_octets address) = 16 then
           (if 0 \<le> ra_ifindex address then Inr (SocketV6 (address_octets address) port 0 (nat (ra_ifindex address)))
            else Inl (Protocol (Detail ''`ifindex` was negative'')))
         else Inl (Protocol (Detail ''IPv6 address did not contain exactly 16 bytes'')))
      else Inl (Protocol (UnsupportedFamily (ra_family address))))"

section \<open>Decoding a reply\<close>

record collect_addresses =
  ca_addresses :: "socket_addr list"
  ca_port :: "16 word"
  ca_method_error :: bool

fun collect_addresses_visit :: "(collect_addresses, 'e resolve_error) reply_visitor" where
  "collect_addresses_visit (AddressItem address) c =
     (case socket_address address (ca_port c) of
        Inr socket \<Rightarrow> (None, c\<lparr>ca_addresses := ca_addresses c @ [socket]\<rparr>)
      | Inl error \<Rightarrow> (Some error, c))"
| "collect_addresses_visit (ErrorItem _) c = (None, c\<lparr>ca_method_error := True\<rparr>)"
| "collect_addresses_visit (EscapeNameItem _) c = (None, c)"
| "collect_addresses_visit (NameItem _) c = (None, c)"
| "collect_addresses_visit (FlagsItem _) c = (None, c)"

definition MAX_VARLINK_REPLY_SIZE :: nat where "MAX_VARLINK_REPLY_SIZE = 64 * 1024"

definition VARLINK_READ_CHUNK :: nat where "VARLINK_READ_CHUNK = 4096"

definition too_long :: "'e resolve_error" where
  "too_long = Protocol (Detail ''reply exceeded the 65536-byte limit'')"

text \<open>\<open>Utf8Error::valid_up_to\<close>: the bytes before the first one that starts no character.\<close>

function valid_up_to :: "string \<Rightarrow> nat" where
  "valid_up_to s =
     (case next_char s of
        None \<Rightarrow> 0
      | Some c \<Rightarrow>
          if is_scalar c \<and> take (len_utf8 c) s = encode_utf8 c then len_utf8 c + valid_up_to (drop (len_utf8 c) s)
          else 0)"
  by auto
termination
proof (relation "measure length", goal_cases)
  case (2 s c)
  then show ?case by (cases s) simp_all
qed simp

declare valid_up_to.simps [simp del]

definition decode_error :: "reply_error \<Rightarrow> 'e resolve_error" where
  "decode_error e = Protocol (NotValidReply e)"

definition decode_varlink_reply :: "string \<Rightarrow> string \<Rightarrow> 16 word \<Rightarrow> 'e resolve_error + socket_addr list" where
  "decode_varlink_reply reply host port =
     (if length reply > MAX_VARLINK_REPLY_SIZE then Inl too_long
      else if \<not> valid_utf8 reply then Inl (Protocol (NotUtf8After (valid_up_to reply)))
      else
        (case reply_drive collect_addresses_visit (reply_new reply)
               \<lparr>ca_addresses = [], ca_port = port, ca_method_error = False\<rparr> of
           (Inl e, _, _) \<Rightarrow> Inl (decode_error e)
         | (Inr (Some error), _, _) \<Rightarrow> Inl error
         | (Inr None, _, c) \<Rightarrow>
             if ca_method_error c \<or> ca_addresses c = [] then Inl (HostNotFound host)
             else Inr (ca_addresses c)))"

definition parse_address_literal :: "(string \<Rightarrow> ip_addr option) \<Rightarrow> string \<Rightarrow> 16 word \<Rightarrow> socket_addr option" where
  "parse_address_literal parse_ip host port =
     (let candidate =
            (if host \<noteq> [] \<and> hd host = CHR ''['' \<and> tl host \<noteq> [] \<and> last (tl host) = CHR '']''
             then butlast (tl host) else host) in
      map_option (\<lambda>address. socket_addr_new address port) (parse_ip candidate))"

section \<open>The connection\<close>

text \<open>What the resolver uses of the operating system; a descriptor is a number.\<close>

record ('e, 'n) resolver_os =
  os_socket :: "'n \<Rightarrow> (errno + nat) \<times> 'n"
  os_addr_unix :: "string \<Rightarrow> errno + string"
  os_connect_unix :: "nat \<Rightarrow> string \<Rightarrow> 'n \<Rightarrow> (errno + unit) \<times> 'n"
  os_write :: "nat \<Rightarrow> string \<Rightarrow> 'n \<Rightarrow> (errno + unit) \<times> 'n"
  os_try_read :: "nat \<Rightarrow> nat \<Rightarrow> 'n \<Rightarrow> (errno + string) \<times> 'n"
  os_eventfd :: "'n \<Rightarrow> (errno + nat) \<times> 'n"
  os_clone_fd :: "nat \<Rightarrow> 'n \<Rightarrow> (errno + nat) \<times> 'n"
  os_blocking_helper :: "'n \<Rightarrow> (string + unit) \<times> 'n"
  os_send_job :: "string \<Rightarrow> 16 word \<Rightarrow> nat \<Rightarrow> 'n \<Rightarrow> (string + unit) \<times> 'n"
  os_read :: "nat \<Rightarrow> nat \<Rightarrow> 'n \<Rightarrow> (errno + string) \<times> 'n"
  os_job_result :: "'n \<Rightarrow> ('e + socket_addr list) option \<times> 'n"

record varlink_connection =
  vl_stream :: nat
  vl_input :: string

definition vl_new :: "nat \<Rightarrow> varlink_connection" where
  "vl_new stream = \<lparr>vl_stream = stream, vl_input = []\<rparr>"

datatype 'e exchange_error = Transport | Response "'e resolve_error"

definition position_nul :: "string \<Rightarrow> nat option" where
  "position_nul s = (if CHR 0x00 \<in> set s then Some (length (takeWhile (\<lambda>b. b \<noteq> CHR 0x00) s)) else None)"

function read_frame ::
    "('e, 'n) resolver_os \<Rightarrow> varlink_connection \<Rightarrow> 'n \<Rightarrow> ('e exchange_error + string) \<times> varlink_connection \<times> 'n" where
  "read_frame os c n =
     (case position_nul (vl_input c) of
        Some terminator \<Rightarrow>
          if terminator > MAX_VARLINK_REPLY_SIZE then (Inl (Response too_long), c\<lparr>vl_input := []\<rparr>, n)
          else
            (let frame = take (Suc terminator) (vl_input c);
                 c1 = c\<lparr>vl_input := drop (Suc terminator) (vl_input c)\<rparr> in
             if frame = [] \<or> last frame \<noteq> CHR 0x00
             then (Inl (Response (Protocol (Detail ''reply did not end with a NUL byte''))), c1, n)
             else (Inr (butlast frame), c1, n))
      | None \<Rightarrow>
          if length (vl_input c) > MAX_VARLINK_REPLY_SIZE then (Inl (Response too_long), c\<lparr>vl_input := []\<rparr>, n)
          else
            (let remaining = MAX_VARLINK_REPLY_SIZE + 1 - length (vl_input c);
                 read_size = min remaining VARLINK_READ_CHUNK in
             case os_try_read os (vl_stream c) read_size n of
               (Inl _, n1) \<Rightarrow> (Inl Transport, c\<lparr>vl_input := vl_input c @ replicate read_size (CHR 0x00)\<rparr>, n1)
             | (Inr bytes, n1) \<Rightarrow>
                 (let got = take read_size bytes; c1 = c\<lparr>vl_input := vl_input c @ got\<rparr> in
                  if got = [] then (Inl Transport, c1, n1) else read_frame os c1 n1)))"
  by auto
termination
  by (relation "measure (\<lambda>(_, c, _). MAX_VARLINK_REPLY_SIZE + 1 - length (vl_input c))")
    (auto simp: VARLINK_READ_CHUNK_def min_def simp flip: length_greater_0_conv)

declare read_frame.simps [simp del]

definition connect_varlink :: "('e, 'n) resolver_os \<Rightarrow> string \<Rightarrow> 'n \<Rightarrow> (errno + varlink_connection) \<times> 'n" where
  "connect_varlink os endpoint n =
     (case os_socket os n of
        (Inl e, n1) \<Rightarrow> (Inl e, n1)
      | (Inr socket, n1) \<Rightarrow>
          (case os_addr_unix os endpoint of
             Inl e \<Rightarrow> (Inl e, n1)
           | Inr address \<Rightarrow>
               (case os_connect_unix os socket address n1 of
                  (Inl e, n2) \<Rightarrow> (Inl e, n2)
                | (Inr _, n2) \<Rightarrow> (Inr (vl_new socket), n2))))"

definition exchange_varlink ::
    "('e, 'n) resolver_os \<Rightarrow> varlink_connection \<Rightarrow> string \<Rightarrow> string \<Rightarrow> 16 word \<Rightarrow> 'n \<Rightarrow>
     ('e exchange_error + socket_addr list) \<times> varlink_connection \<times> 'n" where
  "exchange_varlink os c request host port n =
     (case os_write os (vl_stream c) request n of
        (Inl _, n1) \<Rightarrow> (Inl Transport, c, n1)
      | (Inr _, n1) \<Rightarrow>
          (case read_frame os c n1 of
             (Inl e, c1, n2) \<Rightarrow> (Inl e, c1, n2)
           | (Inr frame, c1, n2) \<Rightarrow> (map_sum Response id (decode_varlink_reply frame host port), c1, n2)))"

section \<open>The two ways to resolve\<close>

datatype resolver_mode = Unknown | Varlink | Blocking

record resolver_state =
  rs_mode :: resolver_mode
  rs_connection :: "varlink_connection option"
  rs_endpoint :: string

definition rs_new :: "string \<Rightarrow> resolver_state" where
  "rs_new endpoint = \<lparr>rs_mode = Unknown, rs_connection = None, rs_endpoint = endpoint\<rparr>"

datatype 'e preferred_outcome = Reply "'e resolve_error + socket_addr list" | TransportFailure

text \<open>
  The end of an exchange, the same for the first one and for the one after a reconnection: the
  connection is dropped after a protocol error or a transport failure. \<open>None\<close> asks for a retry.
\<close>

definition is_protocol :: "'e resolve_error \<Rightarrow> bool" where
  "is_protocol e = (case e of Protocol _ \<Rightarrow> True | _ \<Rightarrow> False)"

definition after_exchange ::
    "('e exchange_error + socket_addr list) \<Rightarrow> varlink_connection \<Rightarrow> resolver_state \<Rightarrow>
     'e preferred_outcome option \<times> resolver_state" where
  "after_exchange r c st =
     (case r of
        Inr addresses \<Rightarrow> (Some (Reply (Inr addresses)), st\<lparr>rs_connection := Some c\<rparr>)
      | Inl (Response e) \<Rightarrow>
          (Some (Reply (Inl e)), st\<lparr>rs_connection := if is_protocol e then None else Some c\<rparr>)
      | Inl Transport \<Rightarrow> (None, st\<lparr>rs_connection := None\<rparr>))"

definition connect_and_exchange ::
    "('e, 'n) resolver_os \<Rightarrow> string \<Rightarrow> string \<Rightarrow> 16 word \<Rightarrow> resolver_state \<Rightarrow> 'n \<Rightarrow>
     'e preferred_outcome \<times> resolver_state \<times> 'n" where
  "connect_and_exchange os request host port st n =
     (case connect_varlink os (rs_endpoint st) n of
        (Inl _, n1) \<Rightarrow> (TransportFailure, st, n1)
      | (Inr c, n1) \<Rightarrow>
          (case exchange_varlink os c request host port n1 of
             (r, c1, n2) \<Rightarrow>
               (case after_exchange r c1 st of
                  (Some out, st1) \<Rightarrow> (out, st1, n2)
                | (None, st1) \<Rightarrow> (TransportFailure, st1, n2))))"

definition preferred_lookup ::
    "('e, 'n) resolver_os \<Rightarrow> string \<Rightarrow> 16 word \<Rightarrow> resolver_state \<Rightarrow> 'n \<Rightarrow>
     'e preferred_outcome \<times> resolver_state \<times> 'n" where
  "preferred_lookup os host port st n =
     (case encode_varlink_request host of
        Inl e \<Rightarrow> (Reply (Inl e), st, n)
      | Inr request \<Rightarrow>
          (case (case rs_connection st of
                   Some c \<Rightarrow> (Inr c, n)
                 | None \<Rightarrow> connect_varlink os (rs_endpoint st) n) of
             (Inl _, n1) \<Rightarrow> (TransportFailure, st, n1)
           | (Inr c, n1) \<Rightarrow>
               (case exchange_varlink os c request host port n1 of
                  (r, c1, n2) \<Rightarrow>
                    (case after_exchange r c1 st of
                       (Some out, st1) \<Rightarrow> (out, st1, n2)
                     | (None, st1) \<Rightarrow> connect_and_exchange os request host port st1 n2))))"

text \<open>Waiting for the helper: the eight bytes of the counter, then the result it has left.\<close>

function read_signal :: "('e, 'n) resolver_os \<Rightarrow> nat \<Rightarrow> nat \<Rightarrow> 'n \<Rightarrow> ('e resolve_error + unit) \<times> 'n" where
  "read_signal os fd filled n =
     (if filled < 8 then
        (case os_read os fd (8 - filled) n of
           (Inl source, n1) \<Rightarrow> (Inl (ResolveIo ''waiting for the blocking resolver helper'' source), n1)
         | (Inr bytes, n1) \<Rightarrow>
             (let amount = length (take (8 - filled) bytes) in
              if amount = 0
              then (Inl (HelperUnavailable ''the blocking resolver helper closed its wakeup''), n1)
              else read_signal os fd (filled + amount) n1))
      else (Inr (), n))"
  by auto
termination
  by (relation "measure (\<lambda>(_, _, filled, _). 8 - filled)")
    (auto simp: min_def simp flip: length_greater_0_conv)

declare read_signal.simps [simp del]

definition take_result :: "('e, 'n) resolver_os \<Rightarrow> string \<Rightarrow> 'n \<Rightarrow> ('e resolve_error + socket_addr list) \<times> 'n" where
  "take_result os host n =
     (case os_job_result os n of
        (None, n1) \<Rightarrow> (Inl (HelperUnavailable ''helper signaled without storing a result''), n1)
      | (Some (Inl source), n1) \<Rightarrow> (Inl (System host source), n1)
      | (Some (Inr addresses), n1) \<Rightarrow>
          (if addresses = [] then Inl (HostNotFound host) else Inr addresses, n1))"

definition resolve_blocking ::
    "('e, 'n) resolver_os \<Rightarrow> string \<Rightarrow> 16 word \<Rightarrow> 'n \<Rightarrow> ('e resolve_error + socket_addr list) \<times> 'n" where
  "resolve_blocking os host port n =
     (case os_eventfd os n of
        (Inl source, n1) \<Rightarrow> (Inl (ResolveIo ''creating the helper wakeup eventfd'' source), n1)
      | (Inr wakeup, n1) \<Rightarrow>
          (case os_clone_fd os wakeup n1 of
             (Inl source, n2) \<Rightarrow> (Inl (ResolveIo ''cloning the helper wakeup eventfd'' source), n2)
           | (Inr helper_wakeup, n2) \<Rightarrow>
               (case os_blocking_helper os n2 of
                  (Inl detail, n3) \<Rightarrow> (Inl (HelperUnavailable detail), n3)
                | (Inr _, n3) \<Rightarrow>
                    (case os_send_job os host port helper_wakeup n3 of
                       (Inl detail, n4) \<Rightarrow> (Inl (HelperUnavailable detail), n4)
                     | (Inr _, n4) \<Rightarrow>
                         (case read_signal os wakeup 0 n4 of
                            (Inl e, n5) \<Rightarrow> (Inl e, n5)
                          | (Inr _, n5) \<Rightarrow> take_result os host n5)))))"

text \<open>
  \<open>resolve\<close>, with the outcome of waiting for the lock of the resolver state as an argument. The
  state is returned as the lock holds it at the end.
\<close>

definition resolve ::
    "('e, 'n) resolver_os \<Rightarrow> (string \<Rightarrow> ip_addr option) \<Rightarrow> (canceled_error + unit) \<Rightarrow> string \<Rightarrow> 16 word \<Rightarrow>
     resolver_state \<Rightarrow> 'n \<Rightarrow> ('e resolve_error + socket_addr list) \<times> resolver_state \<times> 'n" where
  "resolve os parse_ip lock host port st n =
     (case parse_address_literal parse_ip host port of
        Some address \<Rightarrow> (Inr [address], st, n)
      | None \<Rightarrow>
          (case lock of
             Inl _ \<Rightarrow> (Inl ResolveCanceled, st, n)
           | Inr _ \<Rightarrow>
               if rs_mode st \<noteq> Blocking then
                 (case preferred_lookup os host port st n of
                    (Reply r, st1, n1) \<Rightarrow> (r, st1\<lparr>rs_mode := Varlink\<rparr>, n1)
                  | (TransportFailure, st1, n1) \<Rightarrow>
                      (case resolve_blocking os host port n1 of (r, n2) \<Rightarrow> (r, st1\<lparr>rs_mode := Blocking\<rparr>, n2)))
               else (case resolve_blocking os host port n of (r, n1) \<Rightarrow> (r, st, n1))))"

end
