(* ===== verification/Resolver_Correct.thy ===== *)
theory Resolver_Correct
  imports Resolver
begin

text \<open>
  Correctness of the resolver: a reply is decoded to the addresses its value describes, frames
  are cut out of the byte stream at the NUL bytes, a connection that is kept is in step with the
  stream, and a result names at least one address.
\<close>

section \<open>A visitor that may stop the decoder\<close>

fun visit_items :: "('v, 'o) reply_visitor \<Rightarrow> reply_item list \<Rightarrow> 'v \<Rightarrow> 'o option \<times> 'v" where
  "visit_items visitor [] v = (None, v)"
| "visit_items visitor (i # is) v =
     (case visitor i v of (Some out, v') \<Rightarrow> (Some out, v') | (None, v') \<Rightarrow> visit_items visitor is v')"

lemma bridge_visits:
  assumes "bridge collect_items tok (d, log) = (r, d', log')"
  obtains (quiet) "r = None" "log' = log" "bridge visitor tok (d, v) = (None, d', v)"
  | (rejected) k where "r = Some (Inl k)" "log' = log" "bridge visitor tok (d, v) = (Some (Inl k), d', v)"
  | (item) i where "r = None" "log' = log @ [i]"
      "bridge visitor tok (d, v) = (case visitor i v of (out, v') \<Rightarrow> (map_option Inr out, d', v'))"
proof -
  have machine: thesis if "bridge collect_items tok (d, log) = machine m log" "bridge visitor tok (d, v) = machine m v" for m
    using that assms quiet rejected by (cases "fst m") (auto simp: machine_def split: prod.splits)
  show thesis
  proof (cases tok)
    case ObjectEnd
    with assms show thesis
      by (auto simp: bridge_object_end_def report_def collect_items_def Let_def split: dstate.splits sum.splits
        intro: quiet rejected item)
  next
    case (StringTok s)
    with assms show thesis
      by (auto simp: bridge_string_def report_def collect_items_def split: dstate.splits intro: quiet rejected item)
  next
    case (EscapeStringTok s)
    with assms show thesis
      by (auto simp: bridge_escape_string_def report_def collect_items_def split: dstate.splits intro: quiet rejected item)
  next
    case (NumberTok s)
    show thesis
    proof (cases "dc_state d = ParametersFlags")
      case True
      with assms NumberTok show thesis
        by (auto simp: bridge_number_def report_def collect_items_def Let_def split: sum.splits intro: quiet rejected item)
    next
      case False
      with NumberTok show thesis by (intro machine [of "dc_number s d"]) (simp_all add: bridge_number_def)
    qed
  qed (rule machine; simp)+
qed

lemma visit_all_items:
  assumes "visit_all (bridge collect_items) ts (d, log) = (r, d', log @ items)"
  shows "case visit_items visitor items v of
      (Some out, v') \<Rightarrow> \<exists>d''. visit_all (bridge visitor) ts (d, v) = (Some (Inr out), d'', v')
    | (None, v') \<Rightarrow> (r = None \<and> visit_all (bridge visitor) ts (d, v) = (None, d', v')) \<or>
        (\<exists>k. r = Some (Inl k) \<and> visit_all (bridge visitor) ts (d, v) = (Some (Inl k), d', v'))"
  using assms
proof (induction ts arbitrary: d log items v)
  case (Cons tok ts)
  obtain r1 d1 log1 where one: "bridge collect_items tok (d, log) = (r1, d1, log1)"
    by (cases "bridge collect_items tok (d, log)")
  from one show ?case
  proof (cases rule: bridge_visits [where visitor = visitor and v = v])
    case quiet
    then have "visit_all (bridge visitor) (tok # ts) (d, v) = visit_all (bridge visitor) ts (d1, v)" by simp
    moreover have "visit_all (bridge collect_items) ts (d1, log) = (r, d', log @ items)"
      using Cons.prems one quiet by simp
    ultimately show ?thesis using Cons.IH [of d1 log items v] by (simp only:)
  next
    case (rejected k)
    with Cons.prems one show ?thesis by simp
  next
    case (item i)
    have "\<exists>zs. snd (snd (visit_all (bridge collect_items) ts (d1, log1))) = log1 @ zs" for ts d1 log1
    proof (induction ts arbitrary: d1 log1)
      case (Cons tok ts)
      obtain r2 d2 log2 where two: "bridge collect_items tok (d1, log1) = (r2, d2, log2)"
        by (cases "bridge collect_items tok (d1, log1)")
      then have "\<exists>zs. log2 = log1 @ zs" by (cases rule: bridge_visits) auto
      with two Cons.IH [of d2 log2] show ?case by (auto split: option.splits)
    qed simp
    from this [of ts d1 log1] Cons.prems one item obtain zs where zs: "items = i # zs" by auto
    obtain out v1 where v1: "visitor i v = (out, v1)" by (cases "visitor i v")
    show ?thesis
    proof (cases out)
      case None
      with item v1 zs have "visit_all (bridge visitor) (tok # ts) (d, v) = visit_all (bridge visitor) ts (d1, v1)"
        "visit_items visitor items v = visit_items visitor zs v1" by simp_all
      moreover have "visit_all (bridge collect_items) ts (d1, log1) = (r, d', log1 @ zs)"
        using Cons.prems one item zs by simp
      ultimately show ?thesis using Cons.IH [of d1 log1 zs v1] by (simp only:)
    next
      case (Some x)
      with item zs v1 show ?thesis by simp
    qed
  qed
qed simp


section \<open>Decoding\<close>

text \<open>What the items of a reply amount to: the addresses, and whether the method failed.\<close>

fun item_addresses :: "16 word \<Rightarrow> reply_item list \<Rightarrow> 'e resolve_error + socket_addr list" where
  "item_addresses port [] = Inr []"
| "item_addresses port (AddressItem a # is) =
     (case socket_address a port of
        Inl e \<Rightarrow> Inl e
      | Inr s \<Rightarrow> (case item_addresses port is of Inl e \<Rightarrow> Inl e | Inr ss \<Rightarrow> Inr (s # ss)))"
| "item_addresses port (_ # is) = item_addresses port is"

definition method_failed :: "reply_item list \<Rightarrow> bool" where
  "method_failed items \<longleftrightarrow> (\<exists>e. ErrorItem e \<in> set items)"

lemma method_failed_simps [simp]:
  "\<not> method_failed []" "method_failed (ErrorItem e # items)"
  "\<forall>e. i \<noteq> ErrorItem e \<Longrightarrow> method_failed (i # items) \<longleftrightarrow> method_failed items"
  by (auto simp: method_failed_def)

lemma visit_collect_addresses:
  "case item_addresses (ca_port c) items :: 'e resolve_error + socket_addr list of
     Inl e \<Rightarrow> \<exists>c'. visit_items collect_addresses_visit items c = (Some e, c')
   | Inr ss \<Rightarrow> visit_items (collect_addresses_visit :: (collect_addresses, 'e resolve_error) reply_visitor) items c =
       (None, c\<lparr>ca_addresses := ca_addresses c @ ss, ca_method_error := ca_method_error c \<or> method_failed items\<rparr>)"
proof (induction items arbitrary: c)
  case (Cons i items)
  show ?case
  proof (cases i)
    case (AddressItem a)
    show ?thesis
    proof (cases "socket_address a (ca_port c) :: 'e resolve_error + socket_addr")
      case (Inr s)
      with AddressItem Cons.IH [of "c\<lparr>ca_addresses := ca_addresses c @ [s]\<rparr>"] show ?thesis
        by (auto split: sum.splits)
    qed (use AddressItem in simp)
  next
    case (ErrorItem e)
    with Cons.IH [of "c\<lparr>ca_method_error := True\<rparr>"] show ?thesis by (auto split: sum.splits)
  qed (use Cons.IH [of c] in \<open>auto split: sum.splits\<close>)
qed simp

text \<open>
  C5: A reply is decoded to what it says. For a frame within the size limit that is whitespace
  around a JSON value, the resolver returns the error of the first address that no socket can
  have, or else the protocol error with which the schema rejects the value, or else "host not
  found" when the method failed or no address was given, or else the addresses in order.
\<close>

theorem decode_varlink_reply_correct:
  assumes "valid_utf8 (w @ t @ w')" "ws w" "ws w'" "json_text j t" "nesting j \<le> MAX_DEPTH"
    "length (w @ t @ w') \<le> MAX_VARLINK_REPLY_SIZE" "ref_reply j = (items, rejection)"
    "decode_varlink_reply (w @ t @ w') host port = result"
  shows "case item_addresses port items :: 'e resolve_error + socket_addr list of
      Inl e \<Rightarrow> result = Inl e
    | Inr ss \<Rightarrow>
        (case rejection of
           Some k \<Rightarrow> \<exists>at. result = Inl (Protocol (NotValidReply (RError k at)))
         | None \<Rightarrow> result =
             (if method_failed items \<or> ss = [] then Inl (HostNotFound host) else Inr ss))"
proof -
  let ?c = "\<lparr>ca_addresses = [], ca_port = port, ca_method_error = False\<rparr>"
  let ?v = "collect_addresses_visit :: (collect_addresses, 'e resolve_error) reply_visitor"
  from run_collect_json [OF assms(1-5)] obtain tkf where
    "run collect (tk_new (w @ t @ w')) [] = (Inr None, tkf, tokens_of j)" by blast
  from drive_bridge [OF this, of "bridge ?v" "(dc_new, ?c)"] obtain tk' where
    drive: "drive (bridge ?v) (tk_new (w @ t @ w')) (dc_new, ?c) =
      (Inr (fst (visit_all (bridge ?v) (tokens_of j) (dc_new, ?c))), tk', snd (visit_all (bridge ?v) (tokens_of j) (dc_new, ?c)))"
    by blast
  have dec: "result =
     (case reply_drive ?v (reply_new (w @ t @ w')) ?c of
        (Inl e, _, _) \<Rightarrow> Inl (decode_error e) | (Inr (Some error), _, _) \<Rightarrow> Inl error
      | (Inr None, _, c) \<Rightarrow> if ca_method_error c \<or> ca_addresses c = [] then Inl (HostNotFound host) else Inr (ca_addresses c))"
    using assms(1,6,8) by (simp add: decode_varlink_reply_def)
  note items = visit_collect_addresses [where 'e = 'e and c = ?c and items = items, unfolded collect_addresses.simps]
  show ?thesis
  proof (cases "item_addresses port items :: 'e resolve_error + socket_addr list")
    case (Inl e)
    with items obtain c' where stop: "visit_items ?v items ?c = (Some e, c')" by auto
    obtain d where "\<exists>d''. visit_all (bridge ?v) (tokens_of j) (dc_new, ?c) = (Some (Inr e), d'', c')"
      by (cases rule: reply_feed [of j])
        (use assms(7) stop visit_all_items [where log = "[]" and items = items and visitor = ?v and v = ?c] in \<open>auto simp: feed_def\<close>)
    with Inl drive dec show ?thesis by (auto simp: reply_drive_def reply_new_def Let_def)
  next
    case (Inr ss)
    let ?c' = "\<lparr>ca_addresses = ss, ca_port = port, ca_method_error = method_failed items\<rparr>"
    from Inr items have run: "visit_items ?v items ?c = (None, ?c')" by simp
    show ?thesis
    proof (cases rule: reply_feed [of j])
      case (rejected d k)
      then have "visit_all (bridge ?v) (tokens_of j) (dc_new, ?c) = (Some (Inl k), d, ?c')"
        using visit_all_items [where log = "[]" and items = items and visitor = ?v and v = ?c] run assms(7)
        by (fastforce simp: feed_def)
      with rejected assms(7) Inr drive dec show ?thesis
        by (simp add: reply_drive_def reply_new_def Let_def decode_error_def)
    next
      case (complete d)
      then have "visit_all (bridge ?v) (tokens_of j) (dc_new, ?c) = (None, d, ?c')"
        using visit_all_items [where log = "[]" and items = items and visitor = ?v and v = ?c] run assms(7)
        by (fastforce simp: feed_def)
      with complete assms(7) Inr drive dec show ?thesis
        by (simp add: reply_drive_def reply_new_def Let_def decode_error_def)
    qed
  qed
qed


theorem decode_varlink_reply_correct_witness:
  "decode_varlink_reply (CHR ''{'' # CHR 0x22 # ''error'' @ CHR 0x22 # '':'' @ CHR 0x22 # ''no'' @ CHR 0x22 # ''}'')
     ''example.org'' 80 = (Inl (HostNotFound ''example.org'') :: unit resolve_error + socket_addr list)"
proof -
  let ?t = "CHR ''{'' # CHR 0x22 # ''error'' @ CHR 0x22 # '':'' @ CHR 0x22 # ''no'' @ CHR 0x22 # ''}''"
  have k: "string_body ''error''" and v: "string_body ''no''"
    by (simp_all add: string_body_ordinary stops_string_def)
  have "members [(''error'', JStr ''no'')]
      ([] @ CHR 0x22 # ''error'' @ CHR 0x22 # [] @ CHR '':'' # [] @ (CHR 0x22 # ''no'' @ [CHR 0x22]) @ [])"
    by (rule member [OF _ k _ _ json_text_elements_members.string [OF v]]) simp_all
  then have j: "json_text (JObj [(''error'', JStr ''no'')]) ?t"
    using object by fastforce
  have r: "ref_reply (JObj [(''error'', JStr ''no'')]) = ([ErrorItem ''no''], None)"
    by (simp add: ref_reply_def ref_top_def key_is_def has_error_def)
  show ?thesis
    using decode_varlink_reply_correct [of "[]" ?t "[]", OF _ _ _ j _ _ r refl, where port = 80 and host = "''example.org''"
      and 'e = unit]
    by (simp add: valid_utf8_all_ascii MAX_DEPTH_def STACK_WORDS_def MAX_VARLINK_REPLY_SIZE_def)
qed

section \<open>Frames\<close>

text \<open>The bytes that a sequence of reads has delivered.\<close>

inductive reads :: "('e, 'n) resolver_os \<Rightarrow> nat \<Rightarrow> 'n \<Rightarrow> string \<Rightarrow> 'n \<Rightarrow> bool" for os fd where
  none: "reads os fd n [] n"
| more: "os_try_read os fd k n = (Inr bytes, n1) \<Longrightarrow> reads os fd n1 got n2 \<Longrightarrow> reads os fd n (take k bytes @ got) n2"

text \<open>A read that fails or returns nothing.\<close>

definition read_fails :: "('e, 'n) resolver_os \<Rightarrow> nat \<Rightarrow> 'n \<Rightarrow> 'n \<Rightarrow> bool" where
  "read_fails os fd n n' \<longleftrightarrow>
     (\<exists>k. case os_try_read os fd k n of (Inl _, n2) \<Rightarrow> n2 = n' | (Inr bytes, n2) \<Rightarrow> n2 = n' \<and> take k bytes = [])"

lemma position_nul_Some:
  assumes "position_nul s = Some p"
  shows "s = take p s @ CHR 0x00 # drop (Suc p) s" "CHR 0x00 \<notin> set (take p s)" "length (take p s) = p"
    "takeWhile (\<lambda>b. b \<noteq> CHR 0x00) s = take p s"
proof -
  let ?t = "takeWhile (\<lambda>b. b \<noteq> CHR 0x00) s" and ?d = "dropWhile (\<lambda>b. b \<noteq> CHR 0x00) s"
  have p: "p = length ?t" "CHR 0x00 \<in> set s" using assms by (auto simp: position_nul_def split: if_splits)
  then have "?d \<noteq> []" "hd ?d = CHR 0x00" using hd_dropWhile [of "\<lambda>b. b \<noteq> CHR 0x00" s] by auto
  then obtain r where d: "?d = CHR 0x00 # r" by (cases ?d) auto
  then have s: "s = ?t @ CHR 0x00 # r" using takeWhile_dropWhile_id [of "\<lambda>b. b \<noteq> CHR 0x00" s] by simp
  then have t: "take p s = ?t" "drop (Suc p) s = r"
    using p(1) by (metis append_eq_conv_conj, metis append_eq_conv_conj drop_Suc_Cons drop_drop p(1) add.commute plus_1_eq_Suc drop0)
  then show "s = take p s @ CHR 0x00 # drop (Suc p) s" "CHR 0x00 \<notin> set (take p s)" "length (take p s) = p"
    "takeWhile (\<lambda>b. b \<noteq> CHR 0x00) s = take p s"
    using s p(1) by (auto dest: set_takeWhileD)
qed

lemma takeWhile_none: "CHR 0x00 \<notin> set s \<Longrightarrow> takeWhile (\<lambda>b. b \<noteq> CHR 0x00) s = s"
  by (simp add: takeWhile_eq_all_conv) blast

lemma read_frame_effect:
  assumes "read_frame os c n = (r, c', n')"
  shows "case r of
      Inr frame \<Rightarrow> \<exists>got. reads os (vl_stream c) n got n' \<and> vl_input c @ got = frame @ CHR 0x00 # vl_input c' \<and>
        CHR 0x00 \<notin> set frame \<and> length frame \<le> MAX_VARLINK_REPLY_SIZE
    | Inl (Response e) \<Rightarrow> e = too_long \<and> (\<exists>got. reads os (vl_stream c) n got n' \<and>
        MAX_VARLINK_REPLY_SIZE < length (takeWhile (\<lambda>b. b \<noteq> CHR 0x00) (vl_input c @ got)))
    | Inl Transport \<Rightarrow> \<exists>got n1. reads os (vl_stream c) n got n1 \<and> CHR 0x00 \<notin> set (vl_input c @ got) \<and>
        read_fails os (vl_stream c) n1 n'"
  using assms
proof (induction os c n rule: read_frame.induct)
  case (1 os c n)
  show ?case
  proof (cases "position_nul (vl_input c)")
    case (Some p)
    note nul = position_nul_Some [OF Some]
    have "take (Suc p) (vl_input c) = take p (vl_input c) @ [CHR 0x00]"
      by (metis nul(1,3) append.assoc append_Cons append_Nil append_eq_conv_conj length_append_singleton)
    with "1.prems" Some nul show ?thesis
      by (subst (asm) read_frame.simps) (auto simp: Let_def split: if_splits intro!: exI [of _ "[]"] reads.none)
  next
    case None
    then have free: "CHR 0x00 \<notin> set (vl_input c)" by (simp add: position_nul_def split: if_splits)
    show ?thesis
    proof (cases "length (vl_input c) > MAX_VARLINK_REPLY_SIZE")
      case True
      with "1.prems" None free show ?thesis
        by (subst (asm) read_frame.simps) (auto simp: takeWhile_none intro!: exI [of _ "[]"] reads.none)
    next
      case False
      let ?k = "min (MAX_VARLINK_REPLY_SIZE + 1 - length (vl_input c)) VARLINK_READ_CHUNK"
      obtain a n1 where read: "os_try_read os (vl_stream c) ?k n = (a, n1)"
        by (cases "os_try_read os (vl_stream c) ?k n")
      show ?thesis
      proof (cases a)
        case (Inl e)
        with "1.prems" None False read have "r = Inl Transport" "n' = n1"
          by (subst (asm) read_frame.simps; simp)+
        moreover have "read_fails os (vl_stream c) n n1" using Inl read by (auto simp: read_fails_def intro!: exI [of _ ?k])
        ultimately show ?thesis using free by (auto intro!: exI [of _ "[]"] exI [of _ n] reads.none)
      next
        case (Inr bytes)
        let ?c1 = "c\<lparr>vl_input := vl_input c @ take ?k bytes\<rparr>"
        show ?thesis
        proof (cases "take ?k bytes = []")
          case True
          with "1.prems" None False read Inr have "r = Inl Transport" "n' = n1"
            by (subst (asm) read_frame.simps; simp add: Let_def)+
          moreover have "read_fails os (vl_stream c) n n1"
            using True Inr read by (auto simp: read_fails_def simp del: take_eq_Nil intro!: exI [of _ ?k])
          ultimately show ?thesis using free by (auto intro!: exI [of _ "[]"] exI [of _ n] reads.none)
        next
          case more: False
          have rec: "read_frame os ?c1 n1 = (r, c', n')"
            using "1.prems" None False read Inr more by (subst (asm) read_frame.simps) (simp add: Let_def del: take_eq_Nil)
          note IH = "1.IH" [OF None False refl refl read [symmetric] Inr refl refl more rec]
          have step: "reads os (vl_stream c) n1 got m \<Longrightarrow> reads os (vl_stream c) n (take ?k bytes @ got) m" for got m
            by (rule reads.more [OF read [unfolded Inr]])
          consider (frame) frame where "r = Inr frame" | (response) e where "r = Inl (Response e)" | (transport) "r = Inl Transport"
            by (metis sum.exhaust exchange_error.exhaust)
          then show ?thesis
          proof cases
            case frame
            with IH obtain got where "reads os (vl_stream c) n1 got n'"
              "(vl_input c @ take ?k bytes) @ got = frame @ CHR 0x00 # vl_input c'" "CHR 0x00 \<notin> set frame"
              "length frame \<le> MAX_VARLINK_REPLY_SIZE" by auto
            with frame step show ?thesis by (intro exI [of _ "take ?k bytes @ got"] | simp)+
          next
            case response
            with IH obtain got where "reads os (vl_stream c) n1 got n'" "e = too_long"
              "MAX_VARLINK_REPLY_SIZE < length (takeWhile (\<lambda>b. b \<noteq> CHR 0x00) ((vl_input c @ take ?k bytes) @ got))" by auto
            with response step show ?thesis by (simp, intro exI [of _ "take ?k bytes @ got"], simp)
          next
            case transport
            with IH obtain got m where "reads os (vl_stream c) n1 got m"
              "CHR 0x00 \<notin> set ((vl_input c @ take ?k bytes) @ got)" "read_fails os (vl_stream c) m n'" by auto
            with transport step show ?thesis by (simp, intro exI [of _ "take ?k bytes @ got"]) auto
          qed
        qed
      qed
    qed
  qed
qed


lemma read_frame_response: "read_frame os c n = (Inl (Response e), c', n') \<Longrightarrow> is_protocol e"
  by (drule read_frame_effect) (simp add: is_protocol_def too_long_def)

text \<open>
  C19: Frames are cut out of the byte stream at the NUL bytes. What was buffered together with
  what the reads deliver is the frame, a NUL and what stays buffered; the frame has no NUL and
  at most 65536 bytes. A frame is refused only when it is longer, and a transport error means
  that no NUL had come when a read failed or returned nothing. The loop always ends.
\<close>

theorem read_frame_splits_stream:
  assumes "read_frame os c n = (r, c', n')"
  shows "case r of
      Inr frame \<Rightarrow> \<exists>got. reads os (vl_stream c) n got n' \<and> vl_input c @ got = frame @ CHR 0x00 # vl_input c' \<and>
        CHR 0x00 \<notin> set frame \<and> length frame \<le> MAX_VARLINK_REPLY_SIZE
    | Inl (Response e) \<Rightarrow> e = too_long \<and> (\<exists>got. reads os (vl_stream c) n got n' \<and>
        MAX_VARLINK_REPLY_SIZE < length (takeWhile (\<lambda>b. b \<noteq> CHR 0x00) (vl_input c @ got)))
    | Inl Transport \<Rightarrow> \<exists>got n1. reads os (vl_stream c) n got n1 \<and> CHR 0x00 \<notin> set (vl_input c @ got) \<and>
        read_fails os (vl_stream c) n1 n'"
  by (rule read_frame_effect [OF assms])

text \<open>An operating system whose socket delivers one byte of a text per read.\<close>

definition quiet_os :: "(unit, string) resolver_os" where
  "quiet_os =
     \<lparr>os_socket = (\<lambda>n. (Inr 3, n)), os_addr_unix = (\<lambda>e. Inr e), os_connect_unix = (\<lambda>_ _ n. (Inr (), n)),
      os_write = (\<lambda>_ _ n. (Inr (), n)), os_try_read = (\<lambda>_ _ n. (Inr (take 1 n), drop 1 n)),
      os_eventfd = (\<lambda>n. (Inr 4, n)), os_clone_fd = (\<lambda>fd n. (Inr fd, n)), os_blocking_helper = (\<lambda>n. (Inr (), n)),
      os_send_job = (\<lambda>_ _ _ n. (Inr (), n)), os_read = (\<lambda>_ k n. (Inr (replicate k CHR 0x00), n)),
      os_job_result = (\<lambda>n. (Some (Inr [SocketV4 [127, 0, 0, 1] 80]), n))\<rparr>"

lemma quiet_read_frame:
  "read_frame quiet_os (vl_new 3) [CHR ''a'', CHR 0x00, CHR ''b''] = (Inr ''a'', vl_new 3, ''b'')"
  by (simp add: read_frame.simps quiet_os_def position_nul_def vl_new_def MAX_VARLINK_REPLY_SIZE_def
    VARLINK_READ_CHUNK_def)

theorem read_frame_splits_stream_witness:
  "\<exists>got. reads quiet_os 3 [CHR ''a'', CHR 0x00, CHR ''b''] got ''b'' \<and> got = ''a'' @ [CHR 0x00]"
  using read_frame_splits_stream [OF quiet_read_frame] by (simp add: vl_new_def)

section \<open>Lookups\<close>

definition in_step :: "('e, 'n) resolver_os \<Rightarrow> string \<Rightarrow> 16 word \<Rightarrow> 'e preferred_outcome \<Rightarrow> resolver_state \<Rightarrow> 'n \<Rightarrow> bool" where
  "in_step os host port out st n \<longleftrightarrow>
     (out = TransportFailure \<longrightarrow> rs_connection st = None) \<and>
     (\<forall>ss. out = Reply (Inr ss) \<longrightarrow> rs_connection st \<noteq> None) \<and>
     (\<forall>c'. rs_connection st = Some c' \<longrightarrow>
       (\<exists>r c m frame. out = Reply r \<and> (\<forall>d. r \<noteq> Inl (Protocol d)) \<and> r = decode_varlink_reply frame host port \<and>
          read_frame os c m = (Inr frame, c', n)))"

lemma exchange_in_step:
  assumes "exchange_varlink os c request host port n1 = (r, c1, n2)"
    "after_exchange r c1 st1 = (out, st2)"
  shows "in_step os host port (case out of Some x \<Rightarrow> x | None \<Rightarrow> TransportFailure) st2 n2"
    "out = None \<Longrightarrow> rs_connection st2 = None"
proof -
  obtain u m where w: "os_write os (vl_stream c) request n1 = (u, m)" by (cases "os_write os (vl_stream c) request n1")
  obtain a c2 n3 where f: "read_frame os c m = (a, c2, n3)" by (cases "read_frame os c m")
  show "in_step os host port (case out of Some x \<Rightarrow> x | None \<Rightarrow> TransportFailure) st2 n2"
  proof (cases u)
    case (Inl e)
    with assms w show ?thesis by (auto simp: exchange_varlink_def after_exchange_def in_step_def)
  next
    case (Inr x)
    show ?thesis
    proof (cases a)
      case (Inl e)
      with assms w f Inr read_frame_response [of os c m] show ?thesis
        by (cases e) (auto simp: exchange_varlink_def after_exchange_def in_step_def)
    next
      case (Inr frame)
      with assms(1) w f \<open>u = Inr x\<close> have r: "c1 = c2" "n2 = n3" "r = map_sum Response id (decode_varlink_reply frame host port)"
        by (simp_all add: exchange_varlink_def)
      obtain d where d: "decode_varlink_reply frame host port = (d :: 'a resolve_error + socket_addr list)" by blast
      have keep: "in_step os host port (Reply d) st2 n3"
        if "rs_connection st2 = None \<and> (\<exists>e. d = Inl e) \<or> rs_connection st2 = Some c2 \<and> (\<forall>x. d \<noteq> Inl (Protocol x))"
        using that
      proof
        assume "rs_connection st2 = None \<and> (\<exists>e. d = Inl e)"
        then show ?thesis by (auto simp: in_step_def)
      next
        assume "rs_connection st2 = Some c2 \<and> (\<forall>x. d \<noteq> Inl (Protocol x))"
        with d f Inr show ?thesis by (fastforce simp: in_step_def)
      qed
      have "out = Some (Reply d) \<and> (rs_connection st2 = None \<and> (\<exists>e. d = Inl e) \<or> rs_connection st2 = Some c2 \<and> (\<forall>x. d \<noteq> Inl (Protocol x)))"
        using d r assms(2) by (cases d) (auto simp: after_exchange_def is_protocol_def split: resolve_error.splits if_splits)
      with keep r(2) show ?thesis by simp
    qed
  qed
  show "out = None \<Longrightarrow> rs_connection st2 = None"
    using assms(2) by (auto simp: after_exchange_def split: sum.splits exchange_error.splits)
qed

lemma retry_in_step:
  assumes "connect_and_exchange os request host port st n = (out, st', n')" "rs_connection st = None"
  shows "in_step os host port out st' n'"
proof -
  obtain a n1 where c: "connect_varlink os (rs_endpoint st) n = (a, n1)" by (cases "connect_varlink os (rs_endpoint st) n")
  show ?thesis
  proof (cases a)
    case (Inl e)
    with c assms show ?thesis by (auto simp: connect_and_exchange_def in_step_def)
  next
    case (Inr c0)
    obtain r c1 n2 where e: "exchange_varlink os c0 request host port n1 = (r, c1, n2)"
      by (cases "exchange_varlink os c0 request host port n1")
    obtain o1 st1 where x: "after_exchange r c1 st = (o1, st1)" by (cases "after_exchange r c1 st")
    from exchange_in_step(1) [OF e x] c Inr e x assms(1) show ?thesis
      by (cases o1) (auto simp: connect_and_exchange_def)
  qed
qed

lemma lookup_in_step:
  assumes "preferred_lookup os host port st n = (out, st', n')"
  shows "in_step os host port out st' n'"
proof -
  obtain request where req: "encode_varlink_request host = (Inr request :: 'a resolve_error + string)"
    by (simp add: encode_varlink_request_def Let_def)
  obtain a n1 where c: "(case rs_connection st of Some c \<Rightarrow> (Inr c, n) | None \<Rightarrow> connect_varlink os (rs_endpoint st) n) = (a, n1)"
    by fastforce
  show ?thesis
  proof (cases a)
    case (Inl e)
    with c req assms show ?thesis by (auto simp: preferred_lookup_def in_step_def split: option.splits)
  next
    case (Inr c0)
    obtain r c1 n2 where e: "exchange_varlink os c0 request host port n1 = (r, c1, n2)"
      by (cases "exchange_varlink os c0 request host port n1")
    obtain o1 st1 where x: "after_exchange r c1 st = (o1, st1)" by (cases "after_exchange r c1 st")
    note step = exchange_in_step [OF e x]
    show ?thesis
    proof (cases o1)
      case None
      with assms req c Inr e x have "connect_and_exchange os request host port st1 n2 = (out, st', n')"
        by (simp add: preferred_lookup_def)
      from retry_in_step [OF this step(2) [OF None]] show ?thesis .
    next
      case (Some y)
      with assms req c Inr e x have "out = y" "st' = st1" "n' = n2" by (simp_all add: preferred_lookup_def)
      with step(1) Some show ?thesis by simp
    qed
  qed
qed




section \<open>Every result is a list of socket addresses\<close>

fun ip_ok :: "ip_addr \<Rightarrow> bool" where
  "ip_ok (V4 os) \<longleftrightarrow> length os = 4"
| "ip_ok (V6 os) \<longleftrightarrow> length os = 16"

fun socket_ok :: "16 word \<Rightarrow> socket_addr \<Rightarrow> bool" where
  "socket_ok port (SocketV4 os p) \<longleftrightarrow> length os = 4 \<and> p = port"
| "socket_ok port (SocketV6 os p flow scope) \<longleftrightarrow> length os = 16 \<and> p = port"

lemma socket_addr_new_ok: "ip_ok a \<Longrightarrow> socket_ok port (socket_addr_new a port)"
  by (cases a) simp_all

lemma socket_address_ok: "socket_address a port = Inr s \<Longrightarrow> socket_ok port s"
  by (auto simp: socket_address_def split: if_splits)

lemma run_visitor_inv:
  assumes "\<And>t u. P u \<Longrightarrow> P (snd (visitor t u))"
  shows "P v \<Longrightarrow> P (snd (snd (run visitor tk v)))"
proof (induction "length (tk_input tk) - tk_offset tk" arbitrary: tk v rule: less_induct)
  case less
  obtain b tk1 where sk: "skip_whitespace tk = (b, tk1)" by (cases "skip_whitespace tk")
  show ?case
  proof (cases b)
    case None
    with sk less.prems show ?thesis by (subst run.simps) simp
  next
    case (Some byte)
    obtain r tk2 where d: "dispatch byte tk1 = (r, tk2)" by (cases "dispatch byte tk1")
    have progress: "length (tk_input tk2) - tk_offset tk2 < length (tk_input tk) - tk_offset tk" if "r = Inr t" for t
      using turn_progress sk Some d that by blast
    show ?thesis
    proof (cases r)
      case (Inl e)
      with sk Some d less.prems show ?thesis by (subst run.simps) simp
    next
      case (Inr t)
      show ?thesis
      proof (cases t)
        case None
        with less.hyps [OF progress [OF Inr] less.prems] sk Some d Inr show ?thesis by (subst run.simps) simp
      next
        case (Some tok)
        obtain out u where u: "visitor tok v = (out, u)" by (cases "visitor tok v")
        with assms [OF less.prems, of tok] have "P u" by simp
        with less.hyps [OF progress [OF Inr], of u] sk \<open>b = Some byte\<close> d Inr Some u show ?thesis
          by (subst run.simps) (cases out, simp_all)
      qed
    qed
  qed
qed

lemma bridge_visitor_inv:
  assumes "\<And>i u. P u \<Longrightarrow> P (snd (visitor i u))" "P v"
  shows "P (snd (snd (bridge visitor tok (d, v))))"
proof -
  obtain r d' log' where "bridge collect_items tok (d, []) = (r, d', log')" by (cases "bridge collect_items tok (d, [])")
  then show ?thesis
  proof (cases rule: bridge_visits [where visitor = visitor and v = v])
    case (item i)
    with assms(1) [OF assms(2), of i] show ?thesis by (simp split: prod.splits)
  qed (use assms(2) in simp_all)
qed

lemma decode_ok:
  assumes "decode_varlink_reply reply host port = (Inr ss :: 'e resolve_error + socket_addr list)"
  shows "ss \<noteq> [] \<and> list_all (socket_ok port) ss"
proof -
  let ?v = "collect_addresses_visit :: (collect_addresses, 'e resolve_error) reply_visitor"
  let ?c = "\<lparr>ca_addresses = [], ca_port = port, ca_method_error = False\<rparr>"
  let ?P = "\<lambda>c :: collect_addresses. ca_port c = port \<and> list_all (socket_ok port) (ca_addresses c)"
  have visit: "?P (snd (?v i c))" if "?P c" for i c
    using that by (cases i) (auto split: sum.splits dest: socket_address_ok)
  have run: "?P (snd (snd (snd (run (bridge ?v) tk (d, ?c)))))" for tk d
  proof (rule run_visitor_inv [where P = "\<lambda>p. ?P (snd p)"])
    fix t and u :: "decoder \<times> collect_addresses" assume "?P (snd u)"
    with bridge_visitor_inv [where P = ?P and visitor = ?v and v = "snd u" and d = "fst u" and tok = t] visit
    show "?P (snd (snd (bridge ?v t u)))" by simp
  qed simp
  have drive: "?P (snd (snd (snd (drive (bridge ?v) tk (d, ?c)))))" for tk d
    using run [of tk d] by (cases "run (bridge ?v) tk (d, ?c)") (auto simp: drive_def split: option.split sum.split)
  have reply: "?P (snd (snd (reply_drive ?v (reply_new reply) ?c)))"
    using drive [of "tk_new reply" dc_new]
    by (cases "drive (bridge ?v) (tk_new reply) (dc_new, ?c)")
      (auto simp: reply_drive_def reply_new_def Let_def split: sum.split option.split)
  obtain r r' c where d: "reply_drive ?v (reply_new reply) ?c = (r, r', c)" by (cases "reply_drive ?v (reply_new reply) ?c")
  with assms have "r = Inr None" "ss = ca_addresses c" "ss \<noteq> []"
    by (auto simp: decode_varlink_reply_def split: if_splits sum.splits option.splits)
  with reply d show ?thesis by simp
qed

lemma resolve_blocking_ok:
  assumes "resolve_blocking os host port n = (Inr ss, n')"
    "\<And>m as. fst (os_job_result os m) = Some (Inr as) \<Longrightarrow> list_all (socket_ok port) as"
  shows "ss \<noteq> [] \<and> list_all (socket_ok port) ss"
proof -
  obtain m where "take_result os host m = (Inr ss, n')"
    using assms(1) by (auto simp: resolve_blocking_def split: prod.splits sum.splits)
  with assms(2) [of m ss] show ?thesis
    by (auto simp: take_result_def split: prod.splits sum.splits option.splits if_splits)
qed

lemma lookup_ok:
  assumes "preferred_lookup os host port st n = (Reply (Inr ss), st', n')"
  shows "ss \<noteq> [] \<and> list_all (socket_ok port) ss"
proof -
  from lookup_in_step [OF assms] obtain frame where
    "Inr ss = (decode_varlink_reply frame host port :: 'a resolve_error + socket_addr list)"
    by (fastforce simp: in_step_def)
  then show ?thesis by (intro decode_ok) (rule sym)
qed



end
