(* ===== verification/Notify_All.thy ===== *)
theory Notify_All
  imports Async_Await
begin

text \<open>
  Primitives that wake every waiter whenever waiting could end: the channels. Their futures are
  of several kinds, which wait for different conditions on the same list. The contract asks of
  each step of a future that it either makes no condition true or wakes the whole list; what
  follows is that a future whose condition holds is never left asleep, whatever futures are
  polled, dropped or canceled.
\<close>

section \<open>Parties\<close>

type_synonym 'k parties = "nat \<rightharpoonup> 'k \<times> await_future"

definition party_waits :: "'k parties \<Rightarrow> nat \<rightharpoonup> nat" where
  "party_waits G i = (case G i of Some (_, Suspended f) \<Rightarrow> wf_wait_data f | _ \<Rightarrow> None)"

lemma party_waits_upd:
  "party_waits (G(i := None)) = (party_waits G)(i := None)"
  "party_waits (G(i \<mapsto> (k, Unstarted))) = (party_waits G)(i := None)"
  "party_waits (G(i \<mapsto> (k, Suspended f))) = (party_waits G)(i := wf_wait_data f)"
  by (auto simp: party_waits_def fun_eq_iff)

lemma party_waits_empty [simp]: "party_waits Map.empty = Map.empty"
  by (auto simp: party_waits_def fun_eq_iff)

definition parties_ok :: "'k parties \<Rightarrow> bool" where
  "parties_ok G \<longleftrightarrow> (\<forall>i k fut. G i = Some (k, fut) \<longrightarrow> waits_as fut (party_waits G i))"

lemma parties_ok_empty [simp]: "parties_ok Map.empty"
  by (simp add: parties_ok_def)

lemma parties_ok_remove: "parties_ok G \<Longrightarrow> parties_ok (G(i := None))"
  by (auto simp: parties_ok_def party_waits_upd split: if_splits)

lemma parties_ok_upd:
  "parties_ok G \<Longrightarrow> waits_as fut n \<Longrightarrow> parties_ok (G(i \<mapsto> (k, fut)))"
  "waits_as fut n \<Longrightarrow> party_waits (G(i \<mapsto> (k, fut))) = (party_waits G)(i := n)"
  by (auto simp: parties_ok_def party_waits_def waits_as_def split: option.splits if_splits)

lemma parties_ok_waiting:
  "parties_ok G \<Longrightarrow> G i = Some (k, Suspended f) \<Longrightarrow>
     \<exists>n. f = \<lparr>wf_source = True, wf_wait_data = Some n\<rparr> \<and> party_waits G i = Some n"
  by (fastforce simp: parties_ok_def party_waits_def waits_as_def split: option.splits)

section \<open>The contract\<close>

locale notify_all =
  fixes src :: "'k \<Rightarrow> 's wait_source"
    and step :: "'k \<Rightarrow> ('s, 'a) await_step"
    and inv :: "'s \<Rightarrow> bool"
    and get_list :: "'s \<Rightarrow> wait_list"
    and put_list :: "wait_list \<Rightarrow> 's \<Rightarrow> 's"
  assumes lawful: "lawful_source (src k)"
    and one_list: "ws_list (src k) = get_list" "ws_set_list (src k) = put_list"
    and put_inv: "inv (put_list l s) = inv s"
    and step_keeps: "inv s \<Longrightarrow> step k s w = (r, s', w') \<Longrightarrow> inv s'"
    and step_stays: "inv s \<Longrightarrow> step k s w = (None, s', w') \<Longrightarrow> \<not> ws_is_complete (src k) s'"
    and step_notifies: "inv s \<Longrightarrow> step k s w = (r, s', w') \<Longrightarrow>
      get_list s' = get_list s \<and> w' = w \<and> (\<forall>j. ws_is_complete (src j) s' \<longrightarrow> ws_is_complete (src j) s) \<or>
      wl_wake_all (get_list s) w = (get_list s', w')"
begin

lemma notified:
  assumes "get_list s' = get_list s \<and> w' = w \<or> wl_wake_all (get_list s) w = (get_list s', w')"
    "room (get_list s) (woken w) F"
  shows "room (get_list s') (woken w') F" "woken w \<subseteq> woken w'"
  using assms room_wake_all(1,5) [OF assms(2) _ refl] by auto

lemma awaits: "await_loop (src k) (step k) inv"
proof -
  have "await_loop_axioms (src k) (step k) inv"
  proof (unfold_locales, unfold one_list)
    fix s w r s' w' F assume st: "inv s" "step k s w = (r, s', w')" "room (get_list s) (woken w) F"
    from step_notifies [OF st(1,2)] notified [OF _ st(3), of s' w']
    show "room (get_list s') (woken w') F" "woken w \<subseteq> woken w'" by blast+
  qed (use put_inv step_keeps step_stays in blast)+
  then show ?thesis using lawful by (simp add: await_loop_def)
qed

end

sublocale notify_all \<subseteq> loop: await_loop "src k" "step k" inv for k
  by (rule awaits)

context notify_all
begin

text \<open>A future whose condition holds has been woken.\<close>

definition alert :: "'s \<Rightarrow> world \<Rightarrow> 'k parties \<Rightarrow> bool" where
  "alert s w G \<longleftrightarrow> inv s \<and> parties_ok G \<and> room (get_list s) (woken w) (party_waits G) \<and>
     (\<forall>i k f. G i = Some (k, Suspended f) \<longrightarrow> ws_is_complete (src k) s \<longrightarrow> i \<in> woken w)"

lemma alertD:
  assumes "alert s w G"
  shows "inv s" "parties_ok G" "room (get_list s) (woken w) (party_waits G)"
    "\<And>i k f. G i = Some (k, Suspended f) \<Longrightarrow> ws_is_complete (src k) s \<Longrightarrow> i \<in> woken w"
  using assms by (auto simp: alert_def)

lemma list_laws [simp]:
  "get_list (put_list l s) = l" "put_list l (put_list l' s) = put_list l s" "put_list (get_list s) s = s"
  "ws_is_complete (src k) (put_list l s) = ws_is_complete (src k) s"
  using loop.get_put [of undefined] loop.put_put [of undefined] loop.put_get [of undefined] loop.complete_put [of k]
  by (simp_all add: one_list)

lemma empty_queue_wakes:
  assumes "parties_ok G" "room l K (party_waits G)" "G j = Some (k, Suspended f)"
    "\<And>n. party_waits G j = Some n \<Longrightarrow> n \<notin> set (wl_queue l)"
  shows "j \<in> K"
  using parties_ok_waiting [OF assms(1,3)] room_D(3) [OF assms(2)] assms(4) by blast

text \<open>An operation that is not a future: it wakes the list, or makes no condition true.\<close>

lemma alert_act:
  assumes "alert s w G" "inv s'"
    "get_list s' = get_list s \<and> w' = w \<and> (\<forall>j. ws_is_complete (src j) s' \<longrightarrow> ws_is_complete (src j) s) \<or>
      wl_wake_all (get_list s) w = (get_list s', w')"
  shows "alert s' w' G"
proof -
  note s = alertD [OF assms(1)]
  have room: "room (get_list s') (woken w') (party_waits G)"
    using notified(1) [OF _ s(3), of s' w'] assms(3) by blast
  have "i \<in> woken w'" if i: "G i = Some (k, Suspended f)" "ws_is_complete (src k) s'" for i k f
    using assms(3)
  proof
    assume "get_list s' = get_list s \<and> w' = w \<and> (\<forall>j. ws_is_complete (src j) s' \<longrightarrow> ws_is_complete (src j) s)"
    with i s(4) show ?thesis by blast
  next
    assume wake: "wl_wake_all (get_list s) w = (get_list s', w')"
    show ?thesis
      using empty_queue_wakes [OF s(2) room i(1)] room_wake_all(2) [OF s(3) wake refl] by simp
  qed
  with assms(2) s(2) room show ?thesis by (auto simp: alert_def)
qed

lemma alert_start: "alert s w G \<Longrightarrow> G i = None \<Longrightarrow> alert s w (G(i \<mapsto> (k, Unstarted)))"
  using parties_ok_upd(1) [of G Unstarted None] room_forget [of "get_list s" "woken w" "party_waits G" i]
  by (auto simp: alert_def party_waits_upd waits_as_def)

lemma alert_cancel:
  assumes "alert s w G" "G i = Some (k, Suspended f)" "wf_wait_data f = Some n"
    "cancel_wait n (get_list s) w = (l', w')"
  shows "alert (put_list l' s) w' G"
proof -
  note s = alertD [OF assms(1)]
  have "party_waits G i = Some n" using assms(2,3) by (simp add: party_waits_def)
  from room_cancel [OF s(3) assms(4) refl this] s show ?thesis by (auto simp: alert_def put_inv)
qed

lemma alert_forget:
  assumes "alert s w G" "room l' (woken w') ((party_waits G)(i := None))" "woken w - {i} \<subseteq> woken w'"
  shows "alert (put_list l' s) w' (G(i := None))"
  using assms alertD [OF assms(1)]
  by (auto simp: alert_def put_inv parties_ok_remove party_waits_upd split: if_splits)

lemma alert_drop:
  assumes "alert s w G" "G i = Some (k, fut)" "await_drop (src k) fut s w = (s', w')"
  shows "alert s' w' (G(i := None))" "\<exists>l'. s' = put_list l' s"
proof -
  note s = alertD [OF assms(1)]
  have was: "waits_as fut (party_waits G i)" using s(2) assms(2) by (auto simp: parties_ok_def)
  have "\<exists>l'. s' = put_list l' s \<and> room l' (woken w') ((party_waits G)(i := None)) \<and> woken w \<subseteq> woken w'"
  proof (cases "party_waits G i")
    case None
    with was assms(3) have "s' = s" "w' = w" by (auto simp: waits_as_def await_drop_def)
    then show ?thesis using room_forget [OF s(3)] by (metis list_laws(3) order_refl)
  next
    case (Some n)
    with was assms(3) have "wf_drop (src k) \<lparr>wf_source = True, wf_wait_data = Some n\<rparr> s w = (s', w')"
      by (simp add: waits_as_def await_drop_def)
    from loop.drop_effect [of k, unfolded one_list, OF s(3) Some this] show ?thesis by blast
  qed
  then show "alert s' w' (G(i := None))" "\<exists>l'. s' = put_list l' s"
    using alert_forget [OF assms(1)] by blast+
qed

text \<open>
  A poll returns; it ran the step to its result, or it did not and changed nothing but the list
  and what a step that has to wait changes.
\<close>

definition poll_effect :: "'k \<Rightarrow> 's \<Rightarrow> world \<Rightarrow> (panic + (canceled_error + 'a) poll) \<Rightarrow> 's \<Rightarrow> world \<Rightarrow> bool" where
  "poll_effect k s w r s' w' \<longleftrightarrow>
     (\<exists>a. r = Inr (PollReady (Inr a)) \<and> step k s w = (Some a, s', w')) \<or>
     (\<forall>a. r \<noteq> Inr (PollReady (Inr a))) \<and>
       (\<exists>l s0. s' = put_list l s0 \<and> (s0 = s \<or> (\<exists>w0. step k s w = (None, s0, w0))))"

lemma alert_waited:
  assumes "alert s w G" "inv s0" "s0 = s \<or> (\<exists>w2. step k s (deliver i c w) = (None, s0, w2))"
    "parties_ok G'" "\<And>j. j \<noteq> i \<Longrightarrow> G' j = G j" "room l' (woken w') (party_waits G')"
    "woken w - {i} \<subseteq> woken w'" "\<And>k f. G' i = Some (k, Suspended f) \<Longrightarrow> \<not> ws_is_complete (src k) s0"
    "\<And>j n. j \<noteq> i \<Longrightarrow> party_waits G' j = Some n \<Longrightarrow> wl_queue (get_list s0) = [] \<Longrightarrow> s0 \<noteq> s \<Longrightarrow> n \<notin> set (wl_queue l')"
  shows "alert (put_list l' s0) w' G'"
proof -
  note s = alertD [OF assms(1)]
  have room: "room (get_list s) (woken (deliver i c w)) ((party_waits G)(i := None))"
    using room_deliver [OF s(3)] by simp
  have "j \<in> woken w'" if j: "G' j = Some (kj, Suspended f)" "ws_is_complete (src kj) s0" for j kj f
  proof -
    have ji: "j \<noteq> i" using assms(8) j by blast
    have old: "j \<in> woken w'" if "ws_is_complete (src kj) s"
      using s(4) [of j kj f] j(1) assms(5,7) ji that by auto
    show ?thesis
    proof (cases "s0 = s")
      case True
      with j(2) old show ?thesis by simp
    next
      case False
      with assms(3) obtain w2 where st: "step k s (deliver i c w) = (None, s0, w2)" by blast
      from step_notifies [OF s(1) st] show ?thesis
      proof
        assume "get_list s0 = get_list s \<and> w2 = deliver i c w \<and> (\<forall>j. ws_is_complete (src j) s0 \<longrightarrow> ws_is_complete (src j) s)"
        with j(2) old show ?thesis by blast
      next
        assume "wl_wake_all (get_list s) (deliver i c w) = (get_list s0, w2)"
        from room_wake_all(2) [OF room this refl] False assms(9) ji
        show ?thesis using empty_queue_wakes [OF assms(4,6) j(1)] by blast
      qed
    qed
  qed
  with assms(2,4,6) show ?thesis by (simp add: alert_def put_inv)
qed

lemma alert_poll:
  fixes g c
  assumes "alert s w G" "G i = Some (k, fut)"
  obtains r fut' s' w' where
    "await_poll (src k) (step k) \<lparr>cx_waker = i, cx_tag = g\<rparr> fut s (deliver i c w) = Some (r, fut', s', w')"
    "alert s' w' (if r = Inr PollPending then G(i \<mapsto> (k, fut')) else G(i := None))"
    "poll_effect k s (deliver i c w) r s' w'"
proof -
  note s = alertD [OF assms(1)]
  let ?cx = "\<lparr>cx_waker = i, cx_tag = g\<rparr>" and ?F = "party_waits G"
  have was: "waits_as fut (?F (cx_waker ?cx))" using s(2) assms(2) by (auto simp: parties_ok_def)
  have rm: "parties_ok (G(i := None))" using parties_ok_remove [OF s(2)] .
  have inv0: "inv s0" if "s0 = s \<or> (\<exists>w2. step k s (deliver i c w) = (None, s0, w2))" for s0
    using that s(1) step_keeps by blast
  from s(1) s(3) [folded one_list(1) [of k]] was show thesis
  proof (cases rule: loop.poll_cases [where c = c])
    case (finished a s1 w1)
    then have st: "step k s (deliver i c w) = (Some a, s1, w1)" by simp
    have "alert s (deliver i c w) (G(i := None))"
      using alert_forget [OF assms(1), of "get_list s" "deliver i c w"] room_deliver [OF s(3), of i] by simp
    then have "alert s1 w1 (G(i := None))"
      using alert_act step_keeps [OF s(1) st] step_notifies [OF s(1) st] by blast
    with finished(1) st show thesis by (intro that) (auto simp: poll_effect_def)
  next
    case (failed r l' s1 w1 s0)
    have "alert s1 w1 (G(i := None))"
      unfolding failed(5) one_list using failed(4,6,7,8) inv0 [of s0]
      by (intro alert_waited [OF assms(1) _ _ rm]) (auto simp: party_waits_upd)
    with failed show thesis by (intro that) (auto simp: poll_effect_def one_list)
  next
    case (pending n l' s1 w1 s0)
    let ?fut = "Suspended \<lparr>wf_source = True, wf_wait_data = Some n\<rparr>"
    have w: "waits_as ?fut (Some n)" by (simp add: waits_as_def)
    note up = parties_ok_upd(1) [OF s(2) w, of i k] parties_ok_upd(2) [OF w, of G i k]
    have "alert s1 w1 (G(i \<mapsto> (k, ?fut)))"
      unfolding pending(4) one_list
    proof (rule alert_waited [OF assms(1) _ _ up(1)])
      show "inv s0" using inv0 pending(2) by simp
      show "room l' (woken w1) (party_waits (G(i \<mapsto> (k, ?fut))))" unfolding up(2) using pending(5) by simp
      fix j m assume j: "j \<noteq> i" "party_waits (G(i \<mapsto> (k, ?fut))) j = Some m" "wl_queue (get_list s0) = []"
      from j(2) have "((party_waits G)(i \<mapsto> n)) j = Some m" unfolding up(2) .
      with j(1) room_inj [OF pending(5), of j n i] have "m \<noteq> n" by (metis fun_upd_same poll_context.select_convs(1))
      with j(3) pending(6) show "m \<notin> set (wl_queue l')" by (simp add: one_list)
    next
      show "s0 = s \<or> (\<exists>w2. step k s (deliver i c w) = (None, s0, w2))" using pending(2) by simp
      show "woken w - {i} \<subseteq> woken w1" using pending(8) by simp
      show "\<not> ws_is_complete (src k') s0" if "(G(i \<mapsto> (k, ?fut))) i = Some (k', Suspended f)" for k' f
        using pending(3) that by simp
    qed simp
    with pending show thesis by (intro that) (auto simp: poll_effect_def one_list)
  qed
qed

text \<open>A woken future whose condition holds finishes when it is polled, unless it was canceled.\<close>

lemma poll_complete:
  assumes "alert s w G" "G i = Some (k, Suspended f)" "ws_is_complete (src k) s"
    "\<not> wf_canceled (src k) f s" "ct_state c \<noteq> Aborted" "step k s (deliver i c w) = (Some a, s', w')"
  shows "await_poll (src k) (step k) cx (Suspended f) s (deliver i c w) =
    Some (Inr (PollReady (Inr a)), Finished, s', w')"
proof -
  obtain n where "f = \<lparr>wf_source = True, wf_wait_data = Some n\<rparr>"
    using parties_ok_waiting [OF alertD(2) [OF assms(1)] assms(2)] by blast
  from await_poll_complete [OF this, of "src k" s "deliver i c w"] assms(3-6) show ?thesis by simp
qed

end

end
