(* ===== verification/Async_Channel.thy ===== *)
theory Async_Channel
  imports Notify_All Kimojio_Errors
begin

text \<open>
  The channels of \<open>kimojio/src/async_channel.rs\<close>: the unbounded channel, whose receivers wait for
  an event, and the channel with one slot, whose senders and receivers wait on one list. Several
  handles share one channel; an operation of a handle acts on the shared record. Receiving is
  modelled without a deadline, where \<open>wait_with_deadline\<close> is the plain wait.
\<close>

section \<open>The unbounded channel\<close>

record 'm channel_unbounded =
  cu_items :: "'m list"
  cu_closed :: bool
  cu_has_items :: async_event
  cu_sender_count :: nat

definition cu_with_capacity :: "nat \<Rightarrow> nat \<Rightarrow> 'm channel_unbounded" where
  "cu_with_capacity i capacity =
     \<lparr>cu_items = [], cu_closed = False, cu_has_items = ev_new i, cu_sender_count = 1\<rparr>"

definition cu_new :: "nat \<Rightarrow> 'm channel_unbounded" where
  "cu_new i = cu_with_capacity i 0"

definition cu_push_back :: "'m \<Rightarrow> 'm channel_unbounded \<Rightarrow> ('m + unit) \<times> 'm channel_unbounded" where
  "cu_push_back message ch =
     (if cu_closed ch then (Inl message, ch) else (Inr (), ch\<lparr>cu_items := cu_items ch @ [message]\<rparr>))"

definition cu_send :: "'m \<Rightarrow> 'm channel_unbounded \<Rightarrow> world \<Rightarrow> ('m + unit) \<times> 'm channel_unbounded \<times> world" where
  "cu_send message ch w =
     (case cu_push_back message ch of
        (Inl m, ch1) \<Rightarrow> (Inl m, ch1, w)
      | (Inr _, ch1) \<Rightarrow>
          (case ev_set (cu_has_items ch1) w of (e, w1) \<Rightarrow> (Inr (), ch1\<lparr>cu_has_items := e\<rparr>, w1)))"

definition cu_is_empty :: "'m channel_unbounded \<Rightarrow> bool" where
  "cu_is_empty ch = (cu_items ch = [])"

definition cu_len :: "'m channel_unbounded \<Rightarrow> nat" where
  "cu_len ch = length (cu_items ch)"

definition cu_pop_front ::
    "'m channel_unbounded \<Rightarrow> world \<Rightarrow> (channel_error + 'm option) \<times> 'm channel_unbounded \<times> world" where
  "cu_pop_front ch w =
     (case cu_items ch of
        item # rest \<Rightarrow> (Inr (Some item), ch\<lparr>cu_items := rest\<rparr>, w)
      | [] \<Rightarrow>
          if cu_closed ch then (Inl ChannelClosed, ch, w)
          else (case ev_reset (cu_has_items ch) w of (e, w1) \<Rightarrow> (Inr None, ch\<lparr>cu_has_items := e\<rparr>, w1)))"

definition cu_try_recv ::
    "'m channel_unbounded \<Rightarrow> world \<Rightarrow> (channel_error + 'm option) \<times> 'm channel_unbounded \<times> world" where
  "cu_try_recv ch w = cu_pop_front ch w"

definition cu_close :: "'m channel_unbounded \<Rightarrow> world \<Rightarrow> 'm channel_unbounded \<times> world" where
  "cu_close ch w =
     (case ev_set (cu_has_items ch) w of (e, w1) \<Rightarrow> (ch\<lparr>cu_closed := True, cu_has_items := e\<rparr>, w1))"

definition cu_increment_sender_count :: "'m channel_unbounded \<Rightarrow> 'm channel_unbounded" where
  "cu_increment_sender_count ch = ch\<lparr>cu_sender_count := cu_sender_count ch + 1\<rparr>"

definition cu_decrement_sender_count ::
    "'m channel_unbounded \<Rightarrow> world \<Rightarrow> (panic + unit) \<times> 'm channel_unbounded \<times> world" where
  "cu_decrement_sender_count ch w =
     (case cu_sender_count ch of
        0 \<Rightarrow> (Inl (Panic ''attempt to subtract with overflow''), ch, w)
      | Suc sender_count \<Rightarrow>
          (let ch1 = ch\<lparr>cu_sender_count := sender_count\<rparr> in
           if sender_count = 0 then (case cu_close ch1 w of (ch2, w1) \<Rightarrow> (Inr (), ch2, w1))
           else (Inr (), ch1, w)))"

text \<open>\<open>recv\<close>: the step of its loop, the source it awaits, and the poll of its future.\<close>

definition cu_source :: "'m channel_unbounded wait_source" where
  "cu_source =
     \<lparr>ws_is_complete = (\<lambda>ch. ev_state (cu_has_items ch)),
      ws_list = (\<lambda>ch. ev_waiting_tasks (cu_has_items ch)),
      ws_set_list = (\<lambda>l ch. ch\<lparr>cu_has_items := (cu_has_items ch)\<lparr>ev_waiting_tasks := l\<rparr>\<rparr>)\<rparr>"

definition cu_recv_step :: "('m channel_unbounded, channel_error + 'm) await_step" where
  "cu_recv_step ch w =
     (case cu_pop_front ch w of
        (Inl e, ch1, w1) \<Rightarrow> (Some (Inl e), ch1, w1)
      | (Inr (Some value), ch1, w1) \<Rightarrow> (Some (Inr value), ch1, w1)
      | (Inr None, ch1, w1) \<Rightarrow> (None, ch1, w1))"

definition cu_recv_poll ::
    "poll_context \<Rightarrow> await_future \<Rightarrow> 'm channel_unbounded \<Rightarrow> world \<Rightarrow>
     (channel_error + 'm, await_future, 'm channel_unbounded) poll_result option" where
  "cu_recv_poll cx fut ch w =
     or_else (\<lambda>e. timeout_channel_error (canceled_timeout_error e))
       (await_poll cu_source cu_recv_step cx fut ch w)"

section \<open>The handles of the unbounded channel\<close>

definition async_channel_unbounded :: "nat \<Rightarrow> 'm channel_unbounded" where
  "async_channel_unbounded i = cu_new i"

definition async_channel_unbounded_with_capacity :: "nat \<Rightarrow> nat \<Rightarrow> 'm channel_unbounded" where
  "async_channel_unbounded_with_capacity i capacity = cu_with_capacity i capacity"

definition sender_unbounded_clone :: "'m channel_unbounded \<Rightarrow> 'm channel_unbounded" where
  "sender_unbounded_clone inner = cu_increment_sender_count inner"

definition sender_unbounded_drop ::
    "'m channel_unbounded \<Rightarrow> world \<Rightarrow> (panic + unit) \<times> 'm channel_unbounded \<times> world" where
  "sender_unbounded_drop inner w = cu_decrement_sender_count inner w"

definition receiver_unbounded_drop :: "'m channel_unbounded \<Rightarrow> world \<Rightarrow> 'm channel_unbounded \<times> world" where
  "receiver_unbounded_drop inner w = cu_close inner w"

section \<open>The channel with one slot\<close>

record 'm channel =
  ch_value :: "'m option"
  ch_closed :: bool
  ch_waiters :: wait_list
  ch_sender_count :: nat

datatype 'm send_error = SendClosed 'm | SendFull 'm

definition ch_new :: "nat \<Rightarrow> 'm channel" where
  "ch_new i = \<lparr>ch_value = None, ch_closed = False, ch_waiters = wl_new i, ch_sender_count = 1\<rparr>"

definition ch_wake_all :: "'m channel \<Rightarrow> world \<Rightarrow> 'm channel \<times> world" where
  "ch_wake_all ch w = (case wl_wake_all (ch_waiters ch) w of (l, w1) \<Rightarrow> (ch\<lparr>ch_waiters := l\<rparr>, w1))"

definition ch_try_send :: "'m \<Rightarrow> 'm channel \<Rightarrow> world \<Rightarrow> ('m send_error + unit) \<times> 'm channel \<times> world" where
  "ch_try_send message ch w =
     (if \<not> ch_closed ch then
        (if ch_value ch = None then
           (case ch_wake_all (ch\<lparr>ch_value := Some message\<rparr>) w of (ch1, w1) \<Rightarrow> (Inr (), ch1, w1))
         else (Inl (SendFull message), ch, w))
      else (Inl (SendClosed message), ch, w))"

definition ch_try_recv :: "'m channel \<Rightarrow> world \<Rightarrow> (channel_error + 'm option) \<times> 'm channel \<times> world" where
  "ch_try_recv ch w =
     (case ch_value ch of
        Some value \<Rightarrow>
          (case ch_wake_all (ch\<lparr>ch_value := None\<rparr>) w of (ch1, w1) \<Rightarrow> (Inr (Some value), ch1, w1))
      | None \<Rightarrow> if \<not> ch_closed ch then (Inr None, ch, w) else (Inl ChannelClosed, ch, w))"

definition ch_close :: "'m channel \<Rightarrow> world \<Rightarrow> 'm channel \<times> world" where
  "ch_close ch w = ch_wake_all (ch\<lparr>ch_closed := True\<rparr>) w"

definition ch_increment_sender_count :: "'m channel \<Rightarrow> 'm channel" where
  "ch_increment_sender_count ch = ch\<lparr>ch_sender_count := ch_sender_count ch + 1\<rparr>"

definition ch_decrement_sender_count :: "'m channel \<Rightarrow> world \<Rightarrow> (panic + unit) \<times> 'm channel \<times> world" where
  "ch_decrement_sender_count ch w =
     (case ch_sender_count ch of
        0 \<Rightarrow> (Inl (Panic ''attempt to subtract with overflow''), ch, w)
      | Suc sender_count \<Rightarrow>
          (let ch1 = ch\<lparr>ch_sender_count := sender_count\<rparr> in
           if sender_count = 0 then (case ch_close ch1 w of (ch2, w1) \<Rightarrow> (Inr (), ch2, w1))
           else (Inr (), ch1, w)))"

definition ch_send_source :: "'m channel wait_source" where
  "ch_send_source =
     \<lparr>ws_is_complete = (\<lambda>ch. ch_closed ch \<or> ch_value ch = None), ws_list = ch_waiters,
      ws_set_list = (\<lambda>l ch. ch\<lparr>ch_waiters := l\<rparr>)\<rparr>"

definition ch_recv_source :: "'m channel wait_source" where
  "ch_recv_source =
     \<lparr>ws_is_complete = (\<lambda>ch. ch_closed ch \<or> ch_value ch \<noteq> None), ws_list = ch_waiters,
      ws_set_list = (\<lambda>l ch. ch\<lparr>ch_waiters := l\<rparr>)\<rparr>"

text \<open>\<open>send\<close> and \<open>recv\<close>: the steps of their loops and the polls of their futures.\<close>

definition ch_send_step :: "'m \<Rightarrow> ('m channel, 'm + unit) await_step" where
  "ch_send_step message ch w =
     (case ch_try_send message ch w of
        (Inr _, ch1, w1) \<Rightarrow> (Some (Inr ()), ch1, w1)
      | (Inl (SendFull _), ch1, w1) \<Rightarrow> (None, ch1, w1)
      | (Inl (SendClosed m), ch1, w1) \<Rightarrow> (Some (Inl m), ch1, w1))"

definition ch_send_poll ::
    "'m \<Rightarrow> poll_context \<Rightarrow> await_future \<Rightarrow> 'm channel \<Rightarrow> world \<Rightarrow>
     ('m + unit, await_future, 'm channel) poll_result option" where
  "ch_send_poll message cx fut ch w =
     or_else (\<lambda>_. message) (await_poll ch_send_source (ch_send_step message) cx fut ch w)"

definition ch_recv_step :: "('m channel, channel_error + 'm) await_step" where
  "ch_recv_step ch w =
     (case ch_try_recv ch w of
        (Inl e, ch1, w1) \<Rightarrow> (Some (Inl e), ch1, w1)
      | (Inr (Some value), ch1, w1) \<Rightarrow> (Some (Inr value), ch1, w1)
      | (Inr None, ch1, w1) \<Rightarrow> (None, ch1, w1))"

definition ch_recv_poll ::
    "poll_context \<Rightarrow> await_future \<Rightarrow> 'm channel \<Rightarrow> world \<Rightarrow>
     (channel_error + 'm, await_future, 'm channel) poll_result option" where
  "ch_recv_poll cx fut ch w =
     or_else canceled_channel_error (await_poll ch_recv_source ch_recv_step cx fut ch w)"

section \<open>The handles of the channel with one slot\<close>

definition async_channel :: "nat \<Rightarrow> 'm channel" where
  "async_channel i = ch_new i"

definition sender_clone :: "'m channel \<Rightarrow> 'm channel" where
  "sender_clone inner = ch_increment_sender_count inner"

definition sender_drop :: "'m channel \<Rightarrow> world \<Rightarrow> (panic + unit) \<times> 'm channel \<times> world" where
  "sender_drop inner w = ch_decrement_sender_count inner w"

definition receiver_drop :: "'m channel \<Rightarrow> world \<Rightarrow> 'm channel \<times> world" where
  "receiver_drop inner w = ch_close inner w"

section \<open>The channels wake every waiter\<close>

definition cu_ok :: "'m channel_unbounded \<Rightarrow> bool" where
  "cu_ok ch \<longleftrightarrow> (cu_items ch \<noteq> [] \<or> cu_closed ch \<longrightarrow> ev_state (cu_has_items ch))"

lemma cu_source_simps [simp]:
  "ws_is_complete cu_source ch = ev_state (cu_has_items ch)"
  "ws_list cu_source ch = ev_waiting_tasks (cu_has_items ch)"
  "ws_set_list cu_source l ch = ch\<lparr>cu_has_items := (cu_has_items ch)\<lparr>ev_waiting_tasks := l\<rparr>\<rparr>"
  by (simp_all add: cu_source_def)

lemma cu_recv_step_cases:
  obtains (item) item rest where "cu_items ch = item # rest"
      "cu_recv_step ch w = (Some (Inr item), ch\<lparr>cu_items := rest\<rparr>, w)"
  | (closed) "cu_items ch = []" "cu_closed ch" "cu_recv_step ch w = (Some (Inl ChannelClosed), ch, w)"
  | (empty) e w1 where "cu_items ch = []" "\<not> cu_closed ch" "ev_reset (cu_has_items ch) w = (e, w1)"
      "cu_recv_step ch w = (None, ch\<lparr>cu_has_items := e\<rparr>, w1)"
proof (cases "cu_items ch")
  case Nil
  obtain e w1 where "ev_reset (cu_has_items ch) w = (e, w1)" by (cases "ev_reset (cu_has_items ch) w")
  with Nil show thesis by (cases "cu_closed ch") (simp_all add: cu_recv_step_def cu_pop_front_def closed empty)
qed (simp add: cu_recv_step_def cu_pop_front_def item)

interpretation cu_all: notify_all "\<lambda>_ :: unit. cu_source" "\<lambda>_. cu_recv_step" cu_ok
  "\<lambda>ch. ev_waiting_tasks (cu_has_items ch)"
  "\<lambda>l ch. ch\<lparr>cu_has_items := (cu_has_items ch)\<lparr>ev_waiting_tasks := l\<rparr>\<rparr>"
proof unfold_locales
  fix ch :: "'a channel_unbounded" and w r ch' w'
  assume ok: "cu_ok ch" and st: "cu_recv_step ch w = (r, ch', w')"
  show "cu_ok ch'"
    by (rule cu_recv_step_cases [of ch w]) (use ok st in \<open>auto simp: cu_ok_def\<close>)
  show "ev_waiting_tasks (cu_has_items ch') = ev_waiting_tasks (cu_has_items ch) \<and> w' = w \<and>
      (\<forall>j :: unit. ws_is_complete cu_source ch' \<longrightarrow> ws_is_complete cu_source ch) \<or>
    wl_wake_all (ev_waiting_tasks (cu_has_items ch)) w = (ev_waiting_tasks (cu_has_items ch'), w')"
    by (rule cu_recv_step_cases [of ch w]) (use st in \<open>auto simp: ev_reset_effect\<close>)
next
  fix ch :: "'a channel_unbounded" and w ch' w'
  assume "cu_recv_step ch w = (None, ch', w')"
  then show "\<not> ws_is_complete cu_source ch'"
    by (cases rule: cu_recv_step_cases [of ch w]) (auto simp: ev_reset_effect)
qed (simp_all add: cu_ok_def fun_eq_iff)

text \<open>The futures of the channel with one slot, with results in one type.\<close>

datatype 'm party = Sending 'm | Receiving

fun party_source :: "'m party \<Rightarrow> 'm channel wait_source" where
  "party_source (Sending _) = ch_send_source"
| "party_source Receiving = ch_recv_source"

fun party_step :: "'m party \<Rightarrow> ('m channel, ('m + unit) + (channel_error + 'm)) await_step" where
  "party_step (Sending m) = map_step Inl (ch_send_step m)"
| "party_step Receiving = map_step Inr ch_recv_step"

lemma ch_source_simps [simp]:
  "ws_is_complete ch_send_source ch \<longleftrightarrow> ch_closed ch \<or> ch_value ch = None"
  "ws_is_complete ch_recv_source ch \<longleftrightarrow> ch_closed ch \<or> ch_value ch \<noteq> None"
  "ws_list ch_send_source ch = ch_waiters ch" "ws_list ch_recv_source ch = ch_waiters ch"
  "ws_set_list ch_send_source l ch = ch\<lparr>ch_waiters := l\<rparr>" "ws_set_list ch_recv_source l ch = ch\<lparr>ch_waiters := l\<rparr>"
  by (simp_all add: ch_send_source_def ch_recv_source_def)

lemma ch_send_step_cases:
  obtains (sent) l w1 where "\<not> ch_closed ch" "ch_value ch = None" "wl_wake_all (ch_waiters ch) w = (l, w1)"
      "ch_send_step m ch w = (Some (Inr ()), ch\<lparr>ch_value := Some m, ch_waiters := l\<rparr>, w1)"
  | (closed) "ch_closed ch" "ch_send_step m ch w = (Some (Inl m), ch, w)"
  | (full) v where "\<not> ch_closed ch" "ch_value ch = Some v" "ch_send_step m ch w = (None, ch, w)"
proof -
  obtain l w1 where "wl_wake_all (ch_waiters ch) w = (l, w1)" by (cases "wl_wake_all (ch_waiters ch) w")
  then show thesis
    by (cases "ch_closed ch"; cases "ch_value ch")
      (auto simp: ch_send_step_def ch_try_send_def ch_wake_all_def intro: sent closed full)
qed

lemma ch_recv_step_cases:
  obtains (received) v l w1 where "ch_value ch = Some v" "wl_wake_all (ch_waiters ch) w = (l, w1)"
      "ch_recv_step ch w = (Some (Inr v), ch\<lparr>ch_value := None, ch_waiters := l\<rparr>, w1)"
  | (closed) "ch_closed ch" "ch_value ch = None" "ch_recv_step ch w = (Some (Inl ChannelClosed), ch, w)"
  | (empty) "\<not> ch_closed ch" "ch_value ch = None" "ch_recv_step ch w = (None, ch, w)"
proof -
  obtain l w1 where "wl_wake_all (ch_waiters ch) w = (l, w1)" by (cases "wl_wake_all (ch_waiters ch) w")
  then show thesis
    by (cases "ch_closed ch"; cases "ch_value ch")
      (auto simp: ch_recv_step_def ch_try_recv_def ch_wake_all_def intro: received closed empty)
qed

lemma party_source_simps [simp]:
  "ws_list (party_source k) = ch_waiters" "ws_set_list (party_source k) l ch = ch\<lparr>ch_waiters := l\<rparr>"
  "ws_is_complete (party_source k) (ch\<lparr>ch_waiters := l\<rparr>) = ws_is_complete (party_source k) ch"
  by (cases k; simp add: fun_eq_iff)+

interpretation ch_all: notify_all party_source party_step "\<lambda>_. True" ch_waiters "\<lambda>l ch. ch\<lparr>ch_waiters := l\<rparr>"
proof unfold_locales
  fix k :: "'a party" and ch w r ch' w'
  assume st: "party_step k ch w = (r, ch', w')"
  show "ch_waiters ch' = ch_waiters ch \<and> w' = w \<and>
      (\<forall>j. ws_is_complete (party_source j) ch' \<longrightarrow> ws_is_complete (party_source j) ch) \<or>
    wl_wake_all (ch_waiters ch) w = (ch_waiters ch', w')"
  proof (cases k)
    case (Sending m)
    show ?thesis by (rule ch_send_step_cases [of ch w m]) (use st Sending in \<open>auto simp: map_step_def\<close>)
  next
    case Receiving
    show ?thesis by (rule ch_recv_step_cases [of ch w]) (use st Receiving in \<open>auto simp: map_step_def\<close>)
  qed
next
  fix k :: "'a party" and ch w ch' w'
  assume st: "party_step k ch w = (None, ch', w')"
  show "\<not> ws_is_complete (party_source k) ch'"
  proof (cases k)
    case (Sending m)
    show ?thesis by (rule ch_send_step_cases [of ch w m]) (use st Sending in \<open>auto simp: map_step_def\<close>)
  next
    case Receiving
    show ?thesis by (rule ch_recv_step_cases [of ch w]) (use st Receiving in \<open>auto simp: map_step_def\<close>)
  qed
qed (simp_all add: fun_eq_iff)

end
