(* ===== verification/Channel_Runs.thy ===== *)
theory Channel_Runs
  imports Async_Channel
begin

text \<open>
  Runs of the channels: any number of handles, futures of \<open>send\<close> and \<open>recv\<close> in tasks of their
  own, and polls, drops, cancellations and synchronous operations in any order. A run records
  the messages that were accepted and the messages that were handed out.
\<close>

section \<open>Runs of the unbounded channel\<close>

record 'm cu_run =
  cr_channel :: "'m channel_unbounded"
  cr_world :: world
  cr_futures :: "unit parties"
  cr_senders :: nat
  cr_receiver :: bool
  cr_sent :: "'m list"
  cr_received :: "'m list"

definition got :: "(channel_error + 'm) poll \<Rightarrow> 'm list" where
  "got p = (case p of PollReady (Inr v) \<Rightarrow> [v] | _ \<Rightarrow> [])"

inductive cu_step :: "'m cu_run \<Rightarrow> 'm cu_run \<Rightarrow> bool" where
  send: "0 < cr_senders y \<Longrightarrow> cu_send m (cr_channel y) (cr_world y) = (r, ch', w') \<Longrightarrow>
    cu_step y (y\<lparr>cr_channel := ch', cr_world := w', cr_sent := cr_sent y @ (if r = Inr () then [m] else [])\<rparr>)"
| close: "0 < cr_senders y \<Longrightarrow> cu_close (cr_channel y) (cr_world y) = (ch', w') \<Longrightarrow>
    cu_step y (y\<lparr>cr_channel := ch', cr_world := w'\<rparr>)"
| clone: "0 < cr_senders y \<Longrightarrow>
    cu_step y (y\<lparr>cr_channel := sender_unbounded_clone (cr_channel y), cr_senders := cr_senders y + 1\<rparr>)"
| drop_sender: "0 < cr_senders y \<Longrightarrow> sender_unbounded_drop (cr_channel y) (cr_world y) = (r, ch', w') \<Longrightarrow>
    cu_step y (y\<lparr>cr_channel := ch', cr_world := w', cr_senders := cr_senders y - 1\<rparr>)"
| try_recv: "cr_receiver y \<Longrightarrow> cu_try_recv (cr_channel y) (cr_world y) = (r, ch', w') \<Longrightarrow>
    cu_step y (y\<lparr>cr_channel := ch', cr_world := w',
      cr_received := cr_received y @ (case r of Inr (Some v) \<Rightarrow> [v] | _ \<Rightarrow> [])\<rparr>)"
| recv: "cr_receiver y \<Longrightarrow> cr_futures y i = None \<Longrightarrow>
    cu_step y (y\<lparr>cr_futures := (cr_futures y)(i \<mapsto> ((), Unstarted))\<rparr>)"
| poll: "cr_futures y i = Some ((), fut) \<Longrightarrow>
    cu_recv_poll \<lparr>cx_waker = i, cx_tag = g\<rparr> fut (cr_channel y) (deliver i c (cr_world y)) =
      Some (r, fut', ch', w') \<Longrightarrow>
    cu_step y (y\<lparr>cr_channel := ch', cr_world := w',
      cr_futures := (if r = Inr PollPending then (cr_futures y)(i \<mapsto> ((), fut')) else (cr_futures y)(i := None)),
      cr_received := cr_received y @ (case r of Inr p \<Rightarrow> got p | Inl _ \<Rightarrow> [])\<rparr>)"
| leave: "cr_futures y i = Some ((), fut) \<Longrightarrow>
    await_drop cu_source fut (cr_channel y) (cr_world y) = (ch', w') \<Longrightarrow>
    cu_step y (y\<lparr>cr_channel := ch', cr_world := w', cr_futures := (cr_futures y)(i := None)\<rparr>)"
| cancel: "cr_futures y i = Some ((), Suspended f) \<Longrightarrow> wf_wait_data f = Some n \<Longrightarrow>
    cancel_wait n (ws_list cu_source (cr_channel y)) (cr_world y) = (l', w') \<Longrightarrow>
    cu_step y (y\<lparr>cr_channel := ws_set_list cu_source l' (cr_channel y), cr_world := w'\<rparr>)"
| drop_receiver: "cr_receiver y \<Longrightarrow> cr_futures y = Map.empty \<Longrightarrow>
    receiver_unbounded_drop (cr_channel y) (cr_world y) = (ch', w') \<Longrightarrow>
    cu_step y (y\<lparr>cr_channel := ch', cr_world := w', cr_receiver := False\<rparr>)"

definition cu_start :: "nat \<Rightarrow> world \<Rightarrow> 'm cu_run" where
  "cu_start i w = \<lparr>cr_channel = async_channel_unbounded i, cr_world = w, cr_futures = Map.empty, cr_senders = 1,
     cr_receiver = True, cr_sent = [], cr_received = []\<rparr>"

definition cu_inv :: "'m cu_run \<Rightarrow> bool" where
  "cu_inv y \<longleftrightarrow> cu_all.alert (cr_channel y) (cr_world y) (cr_futures y) \<and>
     cr_sent y = cr_received y @ cu_items (cr_channel y) \<and>
     cu_sender_count (cr_channel y) = cr_senders y \<and>
     (cr_senders y = 0 \<or> \<not> cr_receiver y \<longrightarrow> cu_closed (cr_channel y))"

lemma cu_inv_start: "cu_inv (cu_start i w)"
  by (simp add: cu_inv_def cu_start_def async_channel_unbounded_def cu_new_def cu_with_capacity_def
    cu_all.alert_def cu_ok_def ev_new_def ev_with_state_def)

lemma cu_alert_set:
  fixes ch ch' :: "'m channel_unbounded"
  assumes "cu_all.alert ch w G" "ev_set (cu_has_items ch) w = (e, w')" "cu_has_items ch' = e"
  shows "cu_all.alert ch' w' G"
  by (rule cu_all.alert_act [OF assms(1)]) (use assms(2,3) in \<open>auto simp: cu_ok_def ev_set_effect\<close>)

lemma cu_send_effect:
  assumes "cu_all.alert ch w G" "cu_send m ch w = (r, ch', w')"
  shows "cu_all.alert ch' w' G \<and> cu_sender_count ch' = cu_sender_count ch \<and> cu_closed ch' = cu_closed ch \<and>
    cu_items ch' = cu_items ch @ (if r = Inr () then [m] else [])"
proof (cases "cu_closed ch")
  case False
  obtain e w1 where "ev_set (cu_has_items ch) w = (e, w1)" by (cases "ev_set (cu_has_items ch) w")
  with False assms show ?thesis by (auto simp: cu_send_def cu_push_back_def intro: cu_alert_set)
qed (use assms in \<open>auto simp: cu_send_def cu_push_back_def\<close>)

lemma cu_close_effect:
  assumes "cu_all.alert ch w G" "cu_close ch w = (ch', w')"
  shows "cu_all.alert ch' w' G \<and> cu_sender_count ch' = cu_sender_count ch \<and> cu_closed ch' \<and> cu_items ch' = cu_items ch"
proof -
  obtain e w1 where "ev_set (cu_has_items ch) w = (e, w1)" by (cases "ev_set (cu_has_items ch) w")
  with assms show ?thesis by (auto simp: cu_close_def intro: cu_alert_set)
qed

lemma cu_alert_count:
  "cu_all.alert ch w G \<Longrightarrow> cu_all.alert (ch\<lparr>cu_sender_count := n\<rparr>) w G"
  by (simp add: cu_all.alert_def cu_ok_def)

lemma cu_drop_sender_effect:
  assumes "cu_all.alert ch w G" "cu_decrement_sender_count ch w = (r, ch', w')" "0 < cu_sender_count ch"
  shows "cu_all.alert ch' w' G \<and> cu_sender_count ch' = cu_sender_count ch - 1 \<and> cu_items ch' = cu_items ch \<and>
    cu_closed ch' = (cu_closed ch \<or> cu_sender_count ch = 1)"
proof -
  from assms(3) obtain n where n: "cu_sender_count ch = Suc n" by (cases "cu_sender_count ch") auto
  let ?ch = "ch\<lparr>cu_sender_count := n\<rparr>"
  have al: "cu_all.alert ?ch w G" using cu_alert_count [OF assms(1)] .
  obtain ch2 w2 where cl: "cu_close ?ch w = (ch2, w2)" by (cases "cu_close ?ch w")
  from assms(2) n al cu_close_effect [OF al cl] cl show ?thesis
    by (auto simp: cu_decrement_sender_count_def Let_def split: if_splits)
qed

lemma cu_try_recv_effect:
  assumes "cu_all.alert ch w G" "cu_try_recv ch w = (r, ch', w')"
  shows "cu_all.alert ch' w' G \<and> cu_sender_count ch' = cu_sender_count ch \<and> cu_closed ch' = cu_closed ch \<and>
    cu_items ch = (case r of Inr (Some v) \<Rightarrow> [v] | _ \<Rightarrow> []) @ cu_items ch'"
proof -
  obtain a where st: "cu_recv_step ch w = (a, ch', w')"
    using assms(2) by (cases "cu_recv_step ch w")
      (auto simp: cu_recv_step_def cu_try_recv_def split: sum.splits option.splits)
  note s = cu_all.alertD [OF assms(1)]
  have "cu_all.alert ch' w' G"
    using cu_all.alert_act [OF assms(1)] cu_all.step_keeps [OF s(1) st] cu_all.step_notifies [OF s(1) st] by blast
  then show ?thesis using assms(2)
    by (cases "cu_items ch"; cases "cu_closed ch") (auto simp: cu_try_recv_def cu_pop_front_def split: prod.splits)
qed

lemma no_result:
  "\<nexists>a. r = Inr (PollReady (Inr a)) \<Longrightarrow>
     (\<exists>p. r = Inl p) \<or> r = Inr PollPending \<or> (\<exists>e. r = Inr (PollReady (Inl e)))"
  by (metis poll.exhaust sum.exhaust)

text \<open>A poll of \<open>recv\<close> takes the oldest message or none.\<close>

lemma cu_poll_effect:
  assumes "cu_all.alert ch w G" "G i = Some ((), fut)"
    "cu_recv_poll \<lparr>cx_waker = i, cx_tag = g\<rparr> fut ch (deliver i c w) = Some (r, fut', ch', w')"
  shows "cu_all.alert ch' w' (if r = Inr PollPending then G(i \<mapsto> ((), fut')) else G(i := None)) \<and>
    cu_sender_count ch' = cu_sender_count ch \<and> cu_closed ch' = cu_closed ch \<and>
    cu_items ch = (case r of Inr p \<Rightarrow> got p | Inl _ \<Rightarrow> []) @ cu_items ch' \<and>
    (r = Inr (PollReady (Inl ChannelClosed)) \<longrightarrow> cu_closed ch \<and> cu_items ch = [])"
proof -
  from cu_all.alert_poll [OF assms(1,2), of g c] obtain r0 fut0 s0 w0 where p:
    "await_poll cu_source cu_recv_step \<lparr>cx_waker = i, cx_tag = g\<rparr> fut ch (deliver i c w) = Some (r0, fut0, s0, w0)"
    "cu_all.alert s0 w0 (if r0 = Inr PollPending then G(i \<mapsto> ((), fut0)) else G(i := None))"
    "cu_all.poll_effect () ch (deliver i c w) r0 s0 w0" by blast
  from p(1) assms(3) have eq: "fut' = fut0" "ch' = s0" "w' = w0"
    and r: "r = map_sum id (map_poll (case_sum (\<lambda>e. Inl ChannelCanceled) id)) r0"
    by (auto simp: cu_recv_poll_def or_else_def)
  have pend: "r = Inr PollPending \<longleftrightarrow> r0 = Inr PollPending"
    unfolding r by (cases r0; cases "projr r0") auto
  show ?thesis
  proof (cases "\<exists>a. r0 = Inr (PollReady (Inr a))")
    case True
    with p(3) obtain a where a: "r0 = Inr (PollReady (Inr a))" "cu_recv_step ch (deliver i c w) = (Some a, s0, w0)"
      by (auto simp: cu_all.poll_effect_def)
    from a(2) show ?thesis
      by (cases rule: cu_recv_step_cases [of ch "deliver i c w"]) (use p(2) eq r a(1) in \<open>auto simp: got_def\<close>)
  next
    case False
    with p(3) obtain l s1 where s1: "s0 = s1\<lparr>cu_has_items := (cu_has_items s1)\<lparr>ev_waiting_tasks := l\<rparr>\<rparr>"
      "s1 = ch \<or> (\<exists>w1. cu_recv_step ch (deliver i c w) = (None, s1, w1))" by (auto simp: cu_all.poll_effect_def)
    have "cu_items s1 = cu_items ch \<and> cu_closed s1 = cu_closed ch \<and> cu_sender_count s1 = cu_sender_count ch"
      by (rule cu_recv_step_cases [of ch "deliver i c w"]) (use s1(2) in auto)
    moreover have "(case r of Inr p \<Rightarrow> got p | Inl _ \<Rightarrow> []) = []" "r \<noteq> Inr (PollReady (Inl ChannelClosed))"
      using no_result [of r0] False unfolding r by (auto simp: got_def)
    ultimately show ?thesis using p(2) unfolding eq pend by (simp add: s1(1))
  qed
qed

lemma cu_inv_step:
  assumes "cu_step y y'" "cu_inv y"
  shows "cu_inv y'"
  using assms
proof (cases rule: cu_step.cases)
  case (send m r ch' w')
  with assms(2) cu_send_effect [of "cr_channel y" "cr_world y" "cr_futures y" m r ch' w'] show ?thesis
    by (auto simp: cu_inv_def)
next
  case (close ch' w')
  with assms(2) cu_close_effect [of "cr_channel y" "cr_world y" "cr_futures y" ch' w'] show ?thesis
    by (auto simp: cu_inv_def)
next
  case clone
  with assms(2) show ?thesis
    by (auto simp: cu_inv_def sender_unbounded_clone_def cu_increment_sender_count_def cu_alert_count)
next
  case (drop_sender r ch' w')
  with assms(2) cu_drop_sender_effect [of "cr_channel y" "cr_world y" "cr_futures y" r ch' w'] show ?thesis
    by (auto simp: cu_inv_def sender_unbounded_drop_def)
next
  case (try_recv r ch' w')
  with assms(2) cu_try_recv_effect [of "cr_channel y" "cr_world y" "cr_futures y" r ch' w'] show ?thesis
    by (auto simp: cu_inv_def)
next
  case (recv i)
  with assms(2) cu_all.alert_start show ?thesis by (auto simp: cu_inv_def)
next
  case (poll i fut g c r fut' ch' w')
  with assms(2) cu_poll_effect [of "cr_channel y" "cr_world y" "cr_futures y" i fut g c r fut' ch' w'] show ?thesis
    by (auto simp: cu_inv_def)
next
  case (leave i fut ch' w')
  with assms(2) cu_all.alert_drop [of "cr_channel y" "cr_world y" "cr_futures y" i "()" fut ch' w'] show ?thesis
    by (auto simp: cu_inv_def)
next
  case (cancel i f n l' w')
  with assms(2) cu_all.alert_cancel [of "cr_channel y" "cr_world y" "cr_futures y" i "()" f n l' w'] show ?thesis
    by (auto simp: cu_inv_def)
next
  case (drop_receiver ch' w')
  with assms(2) cu_close_effect [of "cr_channel y" "cr_world y" "cr_futures y" ch' w'] show ?thesis
    by (auto simp: cu_inv_def receiver_unbounded_drop_def)
qed

lemma cu_inv_reachable: "cu_step\<^sup>*\<^sup>* (cu_start i w) y \<Longrightarrow> cu_inv y"
  by (induction rule: rtranclp_induct) (auto intro: cu_inv_start cu_inv_step)

text \<open>
  C8: The unbounded channel neither loses, duplicates nor reorders messages. However senders and
  receivers are interleaved, and however receivers are canceled or give up, the messages accepted
  by \<open>send\<close> are the messages handed out followed by those still queued, in order. The channel is
  closed once the senders or the receiver are gone, \<open>send\<close> succeeds exactly on an open channel,
  and \<open>recv\<close> reports a closed channel only after every accepted message was handed out.
\<close>

theorem unbounded_channel_fifo:
  assumes "cu_step\<^sup>*\<^sup>* (cu_start k w0) y"
  shows "cr_sent y = cr_received y @ cu_items (cr_channel y) \<and>
    (cr_senders y = 0 \<or> \<not> cr_receiver y \<longrightarrow> cu_closed (cr_channel y)) \<and>
    (fst (cu_send m (cr_channel y) (cr_world y)) = Inr () \<longleftrightarrow> \<not> cu_closed (cr_channel y)) \<and>
    (cr_futures y i = Some ((), fut) \<and>
     cu_recv_poll \<lparr>cx_waker = i, cx_tag = g\<rparr> fut (cr_channel y) (deliver i c (cr_world y)) =
       Some (Inr (PollReady (Inl ChannelClosed)), fut', ch', w') \<longrightarrow> cr_received y = cr_sent y)"
proof -
  have inv: "cu_inv y" by (rule cu_inv_reachable [OF assms])
  have "fst (cu_send m (cr_channel y) (cr_world y)) = Inr () \<longleftrightarrow> \<not> cu_closed (cr_channel y)"
    by (simp add: cu_send_def cu_push_back_def split: prod.splits)
  with inv cu_poll_effect [of "cr_channel y" "cr_world y" "cr_futures y" i fut g c "Inr (PollReady (Inl ChannelClosed))" fut' ch' w']
  show ?thesis by (auto simp: cu_inv_def)
qed

text \<open>
  C9: No wake-up of the unbounded channel is lost. In every reachable state, while a message is
  queued or the channel is closed, the task of every suspended \<open>recv\<close> has been woken, and polling
  it, unless it was canceled or its task aborted, returns the oldest message, or the closed error
  when there is none.
\<close>

theorem unbounded_channel_no_lost_wakeup:
  assumes "cu_step\<^sup>*\<^sup>* (cu_start k w0) y" "cr_futures y i = Some ((), Suspended f)"
    "cu_items (cr_channel y) \<noteq> [] \<or> cu_closed (cr_channel y)"
  shows "i \<in> woken (cr_world y) \<and>
    (\<not> wf_canceled cu_source f (cr_channel y) \<and> ct_state c \<noteq> Aborted \<longrightarrow>
      map_option fst (cu_recv_poll \<lparr>cx_waker = i, cx_tag = g\<rparr> (Suspended f) (cr_channel y) (deliver i c (cr_world y))) =
        Some (Inr (PollReady (case cu_items (cr_channel y) of [] \<Rightarrow> Inl ChannelClosed | m # _ \<Rightarrow> Inr m))))"
proof -
  have al: "cu_all.alert (cr_channel y) (cr_world y) (cr_futures y)"
    using cu_inv_reachable [OF assms(1)] by (simp add: cu_inv_def)
  have set: "ws_is_complete cu_source (cr_channel y)" using cu_all.alertD(1) [OF al] assms(3) by (simp add: cu_ok_def)
  have "map_option fst (cu_recv_poll \<lparr>cx_waker = i, cx_tag = g\<rparr> (Suspended f) (cr_channel y) (deliver i c (cr_world y))) =
        Some (Inr (PollReady (case cu_items (cr_channel y) of [] \<Rightarrow> Inl ChannelClosed | m # _ \<Rightarrow> Inr m)))"
    if "\<not> wf_canceled cu_source f (cr_channel y)" "ct_state c \<noteq> Aborted"
    by (rule cu_recv_step_cases [of "cr_channel y" "deliver i c (cr_world y)"])
      (use assms(3) cu_all.poll_complete [OF al assms(2) set that] in \<open>auto simp: cu_recv_poll_def or_else_def\<close>)
  with cu_all.alertD(4) [OF al assms(2) set] show ?thesis by blast
qed

text \<open>A run in which a task waits in \<open>recv\<close> while a message is sent.\<close>

definition cu_waiting :: "nat cu_run" where
  "cu_waiting = \<lparr>cr_channel = \<lparr>cu_items = [], cu_closed = False, cu_has_items = \<lparr>ev_state = False,
       ev_waiting_tasks = \<lparr>wl_id = 0, wl_nodes = [\<lparr>wd_activity_id = 0, wd_waker = Some 7, wd_task_id = 1,
         wd_canceled = False, wd_tag = 5, wd_linked = True\<rparr>], wl_queue = [0]\<rparr>\<rparr>, cu_sender_count = 1\<rparr>,
     cr_world = idle_world\<lparr>w_trace := [(1, AsyncWaitStart 5 0)]\<rparr>,
     cr_futures = Map.empty(7 \<mapsto> ((), Suspended \<lparr>wf_source = True, wf_wait_data = Some 0\<rparr>)),
     cr_senders = 1, cr_receiver = True, cr_sent = [], cr_received = []\<rparr>"

definition cu_woken :: "nat cu_run" where
  "cu_woken = (case cu_send 3 (cr_channel cu_waiting) (cr_world cu_waiting) of
     (_, ch, w) \<Rightarrow> cu_waiting\<lparr>cr_channel := ch, cr_world := w, cr_sent := [3]\<rparr>)"

lemma cu_woken_reachable: "cu_step\<^sup>*\<^sup>* (cu_start 0 idle_world) cu_woken"
proof -
  let ?y = "(cu_start 0 idle_world :: nat cu_run)\<lparr>cr_futures := Map.empty(7 \<mapsto> ((), Unstarted))\<rparr>"
  have "cu_step\<^sup>*\<^sup>* (cu_start 0 idle_world) ?y"
    using cu_step.recv [of "cu_start 0 idle_world :: nat cu_run" 7] by (simp add: cu_start_def r_into_rtranclp)
  also have "cu_step ?y cu_waiting"
    using cu_step.poll [of ?y 7 Unstarted 5 idle_task "Inr PollPending"
      "Suspended \<lparr>wf_source = True, wf_wait_data = Some 0\<rparr>" "cr_channel cu_waiting" "cr_world cu_waiting"]
    by (simp add: cu_start_def cu_waiting_def cu_recv_poll_def or_else_def async_channel_unbounded_def cu_new_def
      cu_with_capacity_def cu_recv_step_def cu_pop_front_def ev_reset_def ev_wake_all_def ev_new_def
      wl_wake_all.simps got_def wf_poll_def wf_canceled_def wf_new_def deliver_def idle_world_def idle_task_def
      ev_with_state_def wf_new_wait_def ws_register_def wl_register_def wl_new_def wl_update_def Let_def
      register_wait_def write_event_def wl_wake_one_def await_wait.simps await_poll_def)
  also have "cu_step cu_waiting cu_woken"
  proof -
    obtain r ch w where sd: "cu_send 3 (cr_channel cu_waiting) (cr_world cu_waiting) = (r, ch, w)"
      by (cases "cu_send 3 (cr_channel cu_waiting) (cr_world cu_waiting)")
    moreover from sd have "r = Inr ()"
      by (auto simp: cu_send_def cu_push_back_def cu_waiting_def split: prod.splits)
    ultimately show ?thesis using cu_step.send [OF _ sd] by (simp add: cu_woken_def) (simp add: cu_waiting_def)
  qed
  finally show ?thesis .
qed

theorem unbounded_channel_fifo_witness:
  "cr_sent cu_woken = [3] \<and> cr_received cu_woken = [] \<and> cu_items (cr_channel cu_woken) = [3]"
proof -
  have "cr_sent cu_woken = [3]" "cr_received cu_woken = []"
    by (auto simp: cu_woken_def cu_waiting_def split: prod.splits)
  with unbounded_channel_fifo [OF cu_woken_reachable] show ?thesis by simp
qed

theorem unbounded_channel_no_lost_wakeup_witness:
  "7 \<in> woken (cr_world cu_woken)"
proof -
  have "cr_futures cu_woken 7 = Some ((), Suspended \<lparr>wf_source = True, wf_wait_data = Some 0\<rparr>)"
    "cu_items (cr_channel cu_woken) \<noteq> []"
    by (auto simp: cu_woken_def cu_waiting_def cu_send_def cu_push_back_def split: prod.splits)
  with unbounded_channel_no_lost_wakeup [OF cu_woken_reachable] show ?thesis by blast
qed

end
