(* ===== verification/Slot_Channel_Runs.thy ===== *)
theory Slot_Channel_Runs
  imports Channel_Runs
begin

text \<open>
  Runs of the channel with one slot. Futures of \<open>send\<close> carry their message; futures of \<open>send\<close> and
  of \<open>recv\<close> wait on the same list, for opposite conditions.
\<close>

section \<open>Runs\<close>

record 'm ch_run =
  hr_channel :: "'m channel"
  hr_world :: world
  hr_futures :: "'m party parties"
  hr_senders :: nat
  hr_receiver :: bool
  hr_sent :: "'m list"
  hr_received :: "'m list"

definition slot :: "'m channel \<Rightarrow> 'm list" where
  "slot ch = (case ch_value ch of Some v \<Rightarrow> [v] | None \<Rightarrow> [])"

definition resume :: "'k parties \<Rightarrow> nat \<Rightarrow> 'k \<Rightarrow> (panic + 'a poll) \<Rightarrow> await_future \<Rightarrow> 'k parties" where
  "resume G i k r fut = (if r = Inr PollPending then G(i \<mapsto> (k, fut)) else G(i := None))"

inductive ch_step :: "'m ch_run \<Rightarrow> 'm ch_run \<Rightarrow> bool" where
  try_send: "0 < hr_senders y \<Longrightarrow> ch_try_send m (hr_channel y) (hr_world y) = (r, ch', w') \<Longrightarrow>
    ch_step y (y\<lparr>hr_channel := ch', hr_world := w', hr_sent := hr_sent y @ (if r = Inr () then [m] else [])\<rparr>)"
| clone: "0 < hr_senders y \<Longrightarrow>
    ch_step y (y\<lparr>hr_channel := sender_clone (hr_channel y), hr_senders := hr_senders y + 1\<rparr>)"
| drop_sender: "0 < hr_senders y \<Longrightarrow> sender_drop (hr_channel y) (hr_world y) = (r, ch', w') \<Longrightarrow>
    ch_step y (y\<lparr>hr_channel := ch', hr_world := w', hr_senders := hr_senders y - 1\<rparr>)"
| try_recv: "hr_receiver y \<Longrightarrow> ch_try_recv (hr_channel y) (hr_world y) = (r, ch', w') \<Longrightarrow>
    ch_step y (y\<lparr>hr_channel := ch', hr_world := w',
      hr_received := hr_received y @ (case r of Inr (Some v) \<Rightarrow> [v] | _ \<Rightarrow> [])\<rparr>)"
| drop_receiver: "hr_receiver y \<Longrightarrow> receiver_drop (hr_channel y) (hr_world y) = (ch', w') \<Longrightarrow>
    ch_step y (y\<lparr>hr_channel := ch', hr_world := w', hr_receiver := False\<rparr>)"
| start: "hr_futures y i = None \<Longrightarrow> ch_step y (y\<lparr>hr_futures := (hr_futures y)(i \<mapsto> (k, Unstarted))\<rparr>)"
| poll_send: "hr_futures y i = Some (Sending m, fut) \<Longrightarrow>
    ch_send_poll m \<lparr>cx_waker = i, cx_tag = g\<rparr> fut (hr_channel y) (deliver i c (hr_world y)) =
      Some (r, fut', ch', w') \<Longrightarrow>
    ch_step y (y\<lparr>hr_channel := ch', hr_world := w', hr_futures := resume (hr_futures y) i (Sending m) r fut',
      hr_sent := hr_sent y @ (if r = Inr (PollReady (Inr ())) then [m] else [])\<rparr>)"
| poll_recv: "hr_futures y i = Some (Receiving, fut) \<Longrightarrow>
    ch_recv_poll \<lparr>cx_waker = i, cx_tag = g\<rparr> fut (hr_channel y) (deliver i c (hr_world y)) =
      Some (r, fut', ch', w') \<Longrightarrow>
    ch_step y (y\<lparr>hr_channel := ch', hr_world := w', hr_futures := resume (hr_futures y) i Receiving r fut',
      hr_received := hr_received y @ (case r of Inr p \<Rightarrow> got p | Inl _ \<Rightarrow> [])\<rparr>)"
| leave: "hr_futures y i = Some (k, fut) \<Longrightarrow>
    await_drop (party_source k) fut (hr_channel y) (hr_world y) = (ch', w') \<Longrightarrow>
    ch_step y (y\<lparr>hr_channel := ch', hr_world := w', hr_futures := (hr_futures y)(i := None)\<rparr>)"
| cancel: "hr_futures y i = Some (k, Suspended f) \<Longrightarrow> wf_wait_data f = Some n \<Longrightarrow>
    cancel_wait n (ch_waiters (hr_channel y)) (hr_world y) = (l', w') \<Longrightarrow>
    ch_step y (y\<lparr>hr_channel := (hr_channel y)\<lparr>ch_waiters := l'\<rparr>, hr_world := w'\<rparr>)"

definition ch_start :: "nat \<Rightarrow> world \<Rightarrow> 'm ch_run" where
  "ch_start i w = \<lparr>hr_channel = async_channel i, hr_world = w, hr_futures = Map.empty, hr_senders = 1,
     hr_receiver = True, hr_sent = [], hr_received = []\<rparr>"

definition ch_inv :: "'m ch_run \<Rightarrow> bool" where
  "ch_inv y \<longleftrightarrow> ch_all.alert (hr_channel y) (hr_world y) (hr_futures y) \<and>
     hr_sent y = hr_received y @ slot (hr_channel y) \<and>
     ch_sender_count (hr_channel y) = hr_senders y \<and>
     (hr_senders y = 0 \<or> \<not> hr_receiver y \<longrightarrow> ch_closed (hr_channel y))"

lemma ch_inv_start: "ch_inv (ch_start i w)"
  by (simp add: ch_inv_def ch_start_def async_channel_def ch_new_def ch_all.alert_def slot_def)

section \<open>The operations\<close>

lemma ch_alert_wake:
  fixes ch ch' :: "'m channel"
  assumes "ch_all.alert ch w G" "wl_wake_all (ch_waiters ch) w = (ch_waiters ch', w')"
  shows "ch_all.alert ch' w' G"
  by (rule ch_all.alert_act [OF assms(1)]) (use assms(2) in auto)

lemma ch_wake_all_effect:
  fixes ch ch0 ch' :: "'m channel"
  assumes "ch_all.alert ch w G" "ch_wake_all ch0 w = (ch', w')" "ch_waiters ch0 = ch_waiters ch"
  shows "ch_all.alert ch' w' G" "ch' = ch0\<lparr>ch_waiters := ch_waiters ch'\<rparr>"
  using assms ch_alert_wake [OF assms(1)] by (auto simp: ch_wake_all_def split: prod.splits)

lemma ch_try_send_effect:
  assumes "ch_all.alert ch w G" "ch_try_send m ch w = (r, ch', w')"
  shows "ch_all.alert ch' w' G \<and> ch_sender_count ch' = ch_sender_count ch \<and> ch_closed ch' = ch_closed ch \<and>
    slot ch' = slot ch @ (if r = Inr () then [m] else [])"
proof -
  obtain ch1 w1 where wk: "ch_wake_all (ch\<lparr>ch_value := Some m\<rparr>) w = (ch1, w1)"
    by (cases "ch_wake_all (ch\<lparr>ch_value := Some m\<rparr>) w")
  note e = ch_wake_all_effect [OF assms(1) wk]
  have "ch_sender_count ch1 = ch_sender_count ch" "ch_closed ch1 = ch_closed ch" "ch_value ch1 = Some m"
    using arg_cong [OF e(2), of ch_sender_count] arg_cong [OF e(2), of ch_closed] arg_cong [OF e(2), of ch_value]
    by simp_all
  with assms(2) wk e(1) assms(1) show ?thesis
    by (auto simp: ch_try_send_def slot_def split: if_splits)
qed

lemma ch_try_recv_effect:
  assumes "ch_all.alert ch w G" "ch_try_recv ch w = (r, ch', w')"
  shows "ch_all.alert ch' w' G \<and> ch_sender_count ch' = ch_sender_count ch \<and> ch_closed ch' = ch_closed ch \<and>
    slot ch = (case r of Inr (Some v) \<Rightarrow> [v] | _ \<Rightarrow> []) @ slot ch'"
proof -
  obtain ch1 w1 where wk: "ch_wake_all (ch\<lparr>ch_value := None\<rparr>) w = (ch1, w1)"
    by (cases "ch_wake_all (ch\<lparr>ch_value := None\<rparr>) w")
  note e = ch_wake_all_effect [OF assms(1) wk]
  have "ch_sender_count ch1 = ch_sender_count ch" "ch_closed ch1 = ch_closed ch" "ch_value ch1 = None"
    using arg_cong [OF e(2), of ch_sender_count] arg_cong [OF e(2), of ch_closed] arg_cong [OF e(2), of ch_value]
    by simp_all
  with assms(2) wk e(1) assms(1) show ?thesis
    by (auto simp: ch_try_recv_def slot_def split: if_splits option.splits)
qed

lemma ch_close_effect:
  assumes "ch_all.alert ch w G" "ch_close ch w = (ch', w')"
  shows "ch_all.alert ch' w' G \<and> ch_sender_count ch' = ch_sender_count ch \<and> ch_closed ch' \<and> slot ch' = slot ch"
proof -
  note e = ch_wake_all_effect [OF assms(1) assms(2) [unfolded ch_close_def]]
  then show ?thesis
    using arg_cong [OF e(2), of ch_sender_count] arg_cong [OF e(2), of ch_closed] arg_cong [OF e(2), of ch_value]
    by (simp add: slot_def)
qed

lemma ch_alert_count:
  assumes "ch_all.alert ch w G"
  shows "ch_all.alert (ch\<lparr>ch_sender_count := n\<rparr>) w G"
proof (rule ch_all.alert_act [OF assms])
  have "ws_is_complete (party_source j) (ch\<lparr>ch_sender_count := n\<rparr>) = ws_is_complete (party_source j) ch" for j
    by (cases j) simp_all
  then show "ch_waiters (ch\<lparr>ch_sender_count := n\<rparr>) = ch_waiters ch \<and> w = w \<and>
      (\<forall>j. ws_is_complete (party_source j) (ch\<lparr>ch_sender_count := n\<rparr>) \<longrightarrow> ws_is_complete (party_source j) ch) \<or>
    wl_wake_all (ch_waiters ch) w = (ch_waiters (ch\<lparr>ch_sender_count := n\<rparr>), w)" by simp
qed simp

lemma ch_drop_sender_effect:
  assumes "ch_all.alert ch w G" "ch_decrement_sender_count ch w = (r, ch', w')" "0 < ch_sender_count ch"
  shows "ch_all.alert ch' w' G \<and> ch_sender_count ch' = ch_sender_count ch - 1 \<and> slot ch' = slot ch \<and>
    ch_closed ch' = (ch_closed ch \<or> ch_sender_count ch = 1)"
proof -
  from assms(3) obtain n where n: "ch_sender_count ch = Suc n" by (cases "ch_sender_count ch") auto
  let ?ch = "ch\<lparr>ch_sender_count := n\<rparr>"
  have al: "ch_all.alert ?ch w G" using ch_alert_count [OF assms(1)] .
  obtain ch2 w2 where cl: "ch_close ?ch w = (ch2, w2)" by (cases "ch_close ?ch w")
  from assms(2) n al ch_close_effect [OF al cl] cl show ?thesis
    by (auto simp: ch_decrement_sender_count_def Let_def slot_def split: if_splits)
qed

section \<open>The futures\<close>

lemma map_result_pending: "map_sum (\<lambda>x. x) (map_poll (map_sum (\<lambda>x. x) h)) r = Inr PollPending \<longleftrightarrow> r = Inr PollPending"
  by (cases r; cases "projr r") auto

lemma or_else_result:
  assumes "or_else conv (Some (r0, fut0, s0, w0)) = Some (r, fut, s, w)"
  shows "fut = fut0" "s = s0" "w = w0" "r = map_sum id (map_poll (case_sum (\<lambda>e. Inl (conv e)) id)) r0"
    "r = Inr PollPending \<longleftrightarrow> r0 = Inr PollPending"
proof -
  show r: "r = map_sum id (map_poll (case_sum (\<lambda>e. Inl (conv e)) id)) r0"
    using assms by (simp add: or_else_def)
  show "r = Inr PollPending \<longleftrightarrow> r0 = Inr PollPending"
    unfolding r by (cases r0; cases "projr r0") auto
qed (use assms in \<open>simp_all add: or_else_def\<close>)

lemma party_poll_step:
  fixes step :: "('m channel, 'a) await_step" and h :: "'a \<Rightarrow> ('m + unit) + (channel_error + 'm)"
  assumes "ch_all.alert ch w G" "G i = Some (k, fut)" "party_step k = map_step h step" "inj h"
    "\<forall>s0 w0. step ch (deliver i c w) = (None, s0, w0) \<longrightarrow> s0 = ch"
  obtains r fut' ch' w' where
    "await_poll (party_source k) step \<lparr>cx_waker = i, cx_tag = g\<rparr> fut ch (deliver i c w) = Some (r, fut', ch', w')"
    "ch_all.alert ch' w' (resume G i k r fut')"
    "(\<exists>a. r = Inr (PollReady (Inr a)) \<and> step ch (deliver i c w) = (Some a, ch', w')) \<or>
     (\<nexists>a. r = Inr (PollReady (Inr a))) \<and> (\<exists>l. ch' = ch\<lparr>ch_waiters := l\<rparr>)"
proof -
  obtain r0 fut' ch' w' where p:
    "await_poll (party_source k) (party_step k) \<lparr>cx_waker = i, cx_tag = g\<rparr> fut ch (deliver i c w) =
       Some (r0, fut', ch', w')"
    "ch_all.alert ch' w' (if r0 = Inr PollPending then G(i \<mapsto> (k, fut')) else G(i := None))"
    "ch_all.poll_effect k ch (deliver i c w) r0 ch' w'" using ch_all.alert_poll [OF assms(1,2), of g c] by blast
  from p(1) obtain r where r: "r0 = map_sum (\<lambda>x. x) (map_poll (map_sum (\<lambda>x. x) h)) r"
    "await_poll (party_source k) step \<lparr>cx_waker = i, cx_tag = g\<rparr> fut ch (deliver i c w) = Some (r, fut', ch', w')"
    unfolding assms(3) await_poll_map_step by auto
  have "ch_all.alert ch' w' (resume G i k r fut')"
    using p(2) unfolding r(1) map_result_pending by (simp add: resume_def)
  moreover have "(\<exists>a. r = Inr (PollReady (Inr a)) \<and> step ch (deliver i c w) = (Some a, ch', w')) \<or>
     (\<nexists>a. r = Inr (PollReady (Inr a))) \<and> (\<exists>l. ch' = ch\<lparr>ch_waiters := l\<rparr>)"
  proof (cases "\<exists>a. r = Inr (PollReady (Inr a))")
    case True
    with p(3) r(1) injD [OF assms(4)] show ?thesis
      by (cases "step ch (deliver i c w)") (auto simp: ch_all.poll_effect_def assms(3) map_step_def)
  next
    case False
    from no_result [OF False] have "\<nexists>b. r0 = Inr (PollReady (Inr b))" unfolding r(1) by auto
    with p(3) obtain l s0 where s0: "ch' = s0\<lparr>ch_waiters := l\<rparr>"
      "s0 = ch \<or> (\<exists>w0. map_step h step ch (deliver i c w) = (None, s0, w0))"
      by (auto simp: ch_all.poll_effect_def assms(3))
    with assms(5) have "s0 = ch" by (cases "step ch (deliver i c w)") (auto simp: map_step_def)
    with s0(1) False show ?thesis by blast
  qed
  ultimately show thesis using that r(2) by blast
qed

lemma ch_send_poll_effect:
  assumes "ch_all.alert ch w G" "G i = Some (Sending m, fut)"
    "ch_send_poll m \<lparr>cx_waker = i, cx_tag = g\<rparr> fut ch (deliver i c w) = Some (r, fut', ch', w')"
  shows "ch_all.alert ch' w' (resume G i (Sending m) r fut') \<and> ch_sender_count ch' = ch_sender_count ch \<and>
    ch_closed ch' = ch_closed ch \<and> slot ch' = slot ch @ (if r = Inr (PollReady (Inr ())) then [m] else [])"
proof -
  have quiet: "\<forall>s0 w0. ch_send_step m ch (deliver i c w) = (None, s0, w0) \<longrightarrow> s0 = ch"
    by (rule ch_send_step_cases [of ch "deliver i c w" m]) auto
  obtain r0 fut0 ch0 w0 where p:
    "await_poll ch_send_source (ch_send_step m) \<lparr>cx_waker = i, cx_tag = g\<rparr> fut ch (deliver i c w) = Some (r0, fut0, ch0, w0)"
    "ch_all.alert ch0 w0 (resume G i (Sending m) r0 fut0)"
    "(\<exists>a. r0 = Inr (PollReady (Inr a)) \<and> ch_send_step m ch (deliver i c w) = (Some a, ch0, w0)) \<or>
     (\<nexists>a. r0 = Inr (PollReady (Inr a))) \<and> (\<exists>l. ch0 = ch\<lparr>ch_waiters := l\<rparr>)"
    by (rule party_poll_step [OF assms(1,2) party_step.simps(1) inj_Inl quiet, where g = g, unfolded party_source.simps])
  note e = or_else_result [OF assms(3) [unfolded ch_send_poll_def p(1)]]
  have "resume G i (Sending m) r fut' = resume G i (Sending m) r0 fut0" using e(1,5) by (simp add: resume_def)
  moreover have "ch_sender_count ch' = ch_sender_count ch \<and> ch_closed ch' = ch_closed ch \<and>
      slot ch' = slot ch @ (if r = Inr (PollReady (Inr ())) then [m] else [])"
    using p(3)
  proof
    assume "\<exists>a. r0 = Inr (PollReady (Inr a)) \<and> ch_send_step m ch (deliver i c w) = (Some a, ch0, w0)"
    then show ?thesis
      by (cases rule: ch_send_step_cases [of ch "deliver i c w" m]) (use e in \<open>auto simp: slot_def\<close>)
  next
    assume a: "(\<nexists>a. r0 = Inr (PollReady (Inr a))) \<and> (\<exists>l. ch0 = ch\<lparr>ch_waiters := l\<rparr>)"
    with no_result [of r0] e(4) have "r \<noteq> Inr (PollReady (Inr ()))" by auto
    with a e(2) show ?thesis by (auto simp: slot_def)
  qed
  ultimately show ?thesis using p(2) e(2,3) by simp
qed

lemma ch_recv_poll_effect:
  assumes "ch_all.alert ch w G" "G i = Some (Receiving, fut)"
    "ch_recv_poll \<lparr>cx_waker = i, cx_tag = g\<rparr> fut ch (deliver i c w) = Some (r, fut', ch', w')"
  shows "ch_all.alert ch' w' (resume G i Receiving r fut') \<and> ch_sender_count ch' = ch_sender_count ch \<and>
    ch_closed ch' = ch_closed ch \<and> slot ch = (case r of Inr p \<Rightarrow> got p | Inl _ \<Rightarrow> []) @ slot ch'"
proof -
  have quiet: "\<forall>s0 w0. ch_recv_step ch (deliver i c w) = (None, s0, w0) \<longrightarrow> s0 = ch"
    by (rule ch_recv_step_cases [of ch "deliver i c w"]) auto
  obtain r0 fut0 ch0 w0 where p:
    "await_poll ch_recv_source ch_recv_step \<lparr>cx_waker = i, cx_tag = g\<rparr> fut ch (deliver i c w) = Some (r0, fut0, ch0, w0)"
    "ch_all.alert ch0 w0 (resume G i Receiving r0 fut0)"
    "(\<exists>a. r0 = Inr (PollReady (Inr a)) \<and> ch_recv_step ch (deliver i c w) = (Some a, ch0, w0)) \<or>
     (\<nexists>a. r0 = Inr (PollReady (Inr a))) \<and> (\<exists>l. ch0 = ch\<lparr>ch_waiters := l\<rparr>)"
    by (rule party_poll_step [OF assms(1,2) party_step.simps(2) inj_Inr quiet, where g = g, unfolded party_source.simps])
  note e = or_else_result [OF assms(3) [unfolded ch_recv_poll_def p(1)]]
  have "resume G i Receiving r fut' = resume G i Receiving r0 fut0" using e(1,5) by (simp add: resume_def)
  moreover have "ch_sender_count ch' = ch_sender_count ch \<and> ch_closed ch' = ch_closed ch \<and>
      slot ch = (case r of Inr p \<Rightarrow> got p | Inl _ \<Rightarrow> []) @ slot ch'"
    using p(3)
  proof
    assume "\<exists>a. r0 = Inr (PollReady (Inr a)) \<and> ch_recv_step ch (deliver i c w) = (Some a, ch0, w0)"
    then show ?thesis
      by (cases rule: ch_recv_step_cases [of ch "deliver i c w"]) (use e in \<open>auto simp: slot_def got_def\<close>)
  next
    assume a: "(\<nexists>a. r0 = Inr (PollReady (Inr a))) \<and> (\<exists>l. ch0 = ch\<lparr>ch_waiters := l\<rparr>)"
    with no_result [of r0] e(4) have "(case r of Inr p \<Rightarrow> got p | Inl _ \<Rightarrow> []) = []" by (auto simp: got_def)
    with a e(2) show ?thesis by (auto simp: slot_def)
  qed
  ultimately show ?thesis using p(2) e(2,3) by simp
qed

lemma ch_inv_step:
  assumes "ch_step y y'" "ch_inv y"
  shows "ch_inv y'"
  using assms
proof (cases rule: ch_step.cases)
  case (try_send m r ch' w')
  with assms(2) ch_try_send_effect [of "hr_channel y" "hr_world y" "hr_futures y" m r ch' w'] show ?thesis
    by (auto simp: ch_inv_def)
next
  case clone
  with assms(2) show ?thesis
    by (auto simp: ch_inv_def sender_clone_def ch_increment_sender_count_def ch_alert_count slot_def)
next
  case (drop_sender r ch' w')
  with assms(2) ch_drop_sender_effect [of "hr_channel y" "hr_world y" "hr_futures y" r ch' w'] show ?thesis
    by (auto simp: ch_inv_def sender_drop_def)
next
  case (try_recv r ch' w')
  with assms(2) ch_try_recv_effect [of "hr_channel y" "hr_world y" "hr_futures y" r ch' w'] show ?thesis
    by (auto simp: ch_inv_def)
next
  case (drop_receiver ch' w')
  with assms(2) ch_close_effect [of "hr_channel y" "hr_world y" "hr_futures y" ch' w'] show ?thesis
    by (auto simp: ch_inv_def receiver_drop_def)
next
  case (start i k)
  with assms(2) show ?thesis by (auto simp: ch_inv_def intro: ch_all.alert_start)
next
  case (poll_send i m fut g c r fut' ch' w')
  with assms(2) ch_send_poll_effect [of "hr_channel y" "hr_world y" "hr_futures y" i m fut g c r fut' ch' w']
  show ?thesis by (auto simp: ch_inv_def)
next
  case (poll_recv i fut g c r fut' ch' w')
  with assms(2) ch_recv_poll_effect [of "hr_channel y" "hr_world y" "hr_futures y" i fut g c r fut' ch' w']
  show ?thesis by (auto simp: ch_inv_def)
next
  case (leave i k fut ch' w')
  with assms(2) ch_all.alert_drop [of "hr_channel y" "hr_world y" "hr_futures y" i k fut ch' w'] show ?thesis
    by (auto simp: ch_inv_def slot_def)
next
  case (cancel i k f n l' w')
  with assms(2) ch_all.alert_cancel [of "hr_channel y" "hr_world y" "hr_futures y" i k f n l' w'] show ?thesis
    by (auto simp: ch_inv_def slot_def)
qed

lemma ch_inv_reachable: "ch_step\<^sup>*\<^sup>* (ch_start i w) y \<Longrightarrow> ch_inv y"
  by (induction rule: rtranclp_induct) (auto intro: ch_inv_start ch_inv_step)

section \<open>Messages and wake-ups\<close>

text \<open>
  C10: The channel with one slot neither loses, duplicates nor reorders messages. However futures
  of \<open>send\<close> and \<open>recv\<close> are polled, canceled and dropped, the messages accepted are the messages
  handed out followed by the one in the slot; \<open>try_send\<close> succeeds exactly on an open channel with an
  empty slot, and the channel is closed once the senders or the receiver are gone.
\<close>

theorem slot_channel_fifo:
  assumes "ch_step\<^sup>*\<^sup>* (ch_start k w0) y"
  shows "hr_sent y = hr_received y @ (case ch_value (hr_channel y) of Some v \<Rightarrow> [v] | None \<Rightarrow> []) \<and>
    (hr_senders y = 0 \<or> \<not> hr_receiver y \<longrightarrow> ch_closed (hr_channel y)) \<and>
    (fst (ch_try_send m (hr_channel y) (hr_world y)) = Inr () \<longleftrightarrow>
      \<not> ch_closed (hr_channel y) \<and> ch_value (hr_channel y) = None)"
proof -
  have "fst (ch_try_send m (hr_channel y) (hr_world y)) = Inr () \<longleftrightarrow>
      \<not> ch_closed (hr_channel y) \<and> ch_value (hr_channel y) = None"
    by (simp add: ch_try_send_def split: prod.splits)
  with ch_inv_reachable [OF assms] show ?thesis by (simp add: ch_inv_def slot_def)
qed

text \<open>
  C11: No wake-up of the channel with one slot is lost. In every reachable state, while the channel
  is closed or the slot is empty the task of every suspended \<open>send\<close> has been woken, and while it is
  closed or the slot is full the task of every suspended \<open>recv\<close> has been woken. Polled then, a
  future that was not canceled, in a task that was not aborted, returns: \<open>send\<close> with success or,
  on a closed channel, with its message; \<open>recv\<close> with the message or the closed error.
\<close>

theorem slot_channel_no_lost_wakeup:
  assumes "ch_step\<^sup>*\<^sup>* (ch_start k0 w0) y" "hr_futures y i = Some (k, Suspended f)"
    "ch_closed (hr_channel y) \<or> (ch_value (hr_channel y) = None \<longleftrightarrow> k \<noteq> Receiving)"
  shows "i \<in> woken (hr_world y) \<and>
    (\<not> wf_canceled (party_source k) f (hr_channel y) \<and> ct_state c \<noteq> Aborted \<longrightarrow>
      (case k of
         Sending m \<Rightarrow>
           map_option fst (ch_send_poll m \<lparr>cx_waker = i, cx_tag = g\<rparr> (Suspended f) (hr_channel y) (deliver i c (hr_world y))) =
             Some (Inr (PollReady (if ch_closed (hr_channel y) then Inl m else Inr ())))
       | Receiving \<Rightarrow>
           map_option fst (ch_recv_poll \<lparr>cx_waker = i, cx_tag = g\<rparr> (Suspended f) (hr_channel y) (deliver i c (hr_world y))) =
             Some (Inr (PollReady (case ch_value (hr_channel y) of None \<Rightarrow> Inl ChannelClosed | Some v \<Rightarrow> Inr v)))))"
proof -
  have al: "ch_all.alert (hr_channel y) (hr_world y) (hr_futures y)"
    using ch_inv_reachable [OF assms(1)] by (simp add: ch_inv_def)
  have complete: "ws_is_complete (party_source k) (hr_channel y)" using assms(3) by (cases k) auto
  obtain n where f: "f = \<lparr>wf_source = True, wf_wait_data = Some n\<rparr>"
    using parties_ok_waiting [OF ch_all.alertD(2) [OF al] assms(2)] by blast
  note returns = await_poll_complete [OF f]
  have "i \<in> woken (hr_world y)" by (rule ch_all.alertD(4) [OF al assms(2) complete])
  moreover have "case k of
         Sending m \<Rightarrow>
           map_option fst (ch_send_poll m \<lparr>cx_waker = i, cx_tag = g\<rparr> (Suspended f) (hr_channel y) (deliver i c (hr_world y))) =
             Some (Inr (PollReady (if ch_closed (hr_channel y) then Inl m else Inr ())))
       | Receiving \<Rightarrow>
           map_option fst (ch_recv_poll \<lparr>cx_waker = i, cx_tag = g\<rparr> (Suspended f) (hr_channel y) (deliver i c (hr_world y))) =
             Some (Inr (PollReady (case ch_value (hr_channel y) of None \<Rightarrow> Inl ChannelClosed | Some v \<Rightarrow> Inr v)))"
    if live: "\<not> wf_canceled (party_source k) f (hr_channel y)" "ct_state c \<noteq> Aborted"
  proof (cases k)
    case (Sending m)
    show ?thesis
      by (rule ch_send_step_cases [of "hr_channel y" "deliver i c (hr_world y)" m])
        (use Sending live complete returns [of ch_send_source "hr_channel y" "deliver i c (hr_world y)" "ch_send_step m"]
          in \<open>auto simp: ch_send_poll_def or_else_def\<close>)
  next
    case Receiving
    show ?thesis
      by (rule ch_recv_step_cases [of "hr_channel y" "deliver i c (hr_world y)"])
        (use Receiving live complete returns [of ch_recv_source "hr_channel y" "deliver i c (hr_world y)" ch_recv_step]
          in \<open>auto simp: ch_recv_poll_def or_else_def\<close>)
  qed
  ultimately show ?thesis by blast
qed

text \<open>A run in which a message is sent while no task receives, and a second one has to wait.\<close>

definition ch_full :: "nat ch_run" where
  "ch_full = \<lparr>hr_channel = \<lparr>ch_value = Some 3, ch_closed = False, ch_waiters = wl_new 0, ch_sender_count = 1\<rparr>,
     hr_world = idle_world, hr_futures = Map.empty, hr_senders = 1, hr_receiver = True, hr_sent = [3], hr_received = []\<rparr>"

definition ch_waiting :: "nat ch_run" where
  "ch_waiting = ch_full\<lparr>hr_channel := (hr_channel ch_full)\<lparr>ch_waiters := \<lparr>wl_id = 0, wl_nodes =
         [\<lparr>wd_activity_id = 0, wd_waker = Some 7, wd_task_id = 1, wd_canceled = False, wd_tag = 5, wd_linked = True\<rparr>],
         wl_queue = [0]\<rparr>\<rparr>,
     hr_world := idle_world\<lparr>w_trace := [(1, AsyncWaitStart 5 0)]\<rparr>,
     hr_futures := Map.empty(7 \<mapsto> (Sending 4, Suspended \<lparr>wf_source = True, wf_wait_data = Some 0\<rparr>))\<rparr>"

definition ch_taken :: "nat ch_run" where
  "ch_taken = (case ch_try_recv (hr_channel ch_waiting) (hr_world ch_waiting) of
     (_, ch, w) \<Rightarrow> ch_waiting\<lparr>hr_channel := ch, hr_world := w, hr_received := [3]\<rparr>)"

lemma ch_full_reachable: "ch_step\<^sup>*\<^sup>* (ch_start 0 idle_world) ch_full"
  using ch_step.try_send [of "ch_start 0 idle_world :: nat ch_run" 3 "Inr ()" "hr_channel ch_full" idle_world]
  by (intro r_into_rtranclp) (simp add: ch_start_def ch_full_def async_channel_def ch_new_def ch_try_send_def
    ch_wake_all_def wl_wake_all.simps wl_wake_one_def)

lemma ch_taken_reachable: "ch_step\<^sup>*\<^sup>* (ch_start 0 idle_world) ch_taken"
proof -
  let ?y = "ch_full\<lparr>hr_futures := Map.empty(7 \<mapsto> (Sending 4, Unstarted))\<rparr>"
  note ch_full_reachable
  also have "ch_step ch_full ?y" using ch_step.start [of ch_full 7 "Sending 4"] by (simp add: ch_full_def)
  also have "ch_step ?y ch_waiting"
    using ch_step.poll_send [of ?y 7 4 Unstarted 5 idle_task "Inr PollPending"
      "Suspended \<lparr>wf_source = True, wf_wait_data = Some 0\<rparr>" "hr_channel ch_waiting" "hr_world ch_waiting"]
    by (simp add: ch_full_def ch_waiting_def ch_send_poll_def or_else_def ch_send_step_def ch_try_send_def resume_def
      wf_poll_def wf_canceled_def wf_new_def deliver_def idle_world_def idle_task_def wf_new_wait_def ws_register_def
      wl_register_def wl_new_def wl_update_def Let_def register_wait_def write_event_def await_wait.simps await_poll_def)
  also have "ch_step ch_waiting ch_taken"
  proof -
    obtain r ch w where rv: "ch_try_recv (hr_channel ch_waiting) (hr_world ch_waiting) = (r, ch, w)"
      by (cases "ch_try_recv (hr_channel ch_waiting) (hr_world ch_waiting)")
    moreover from rv have "r = Inr (Some 3)"
      by (auto simp: ch_try_recv_def ch_waiting_def ch_full_def split: prod.splits)
    ultimately show ?thesis using ch_step.try_recv [OF _ rv]
      by (simp add: ch_taken_def) (simp add: ch_waiting_def ch_full_def)
  qed
  finally show ?thesis .
qed

theorem slot_channel_fifo_witness:
  "hr_sent ch_full = [3] \<and> hr_received ch_full = [] \<and> fst (ch_try_send 4 (hr_channel ch_full) (hr_world ch_full)) \<noteq> Inr ()"
  using slot_channel_fifo [OF ch_full_reachable, of 4] by (simp add: ch_full_def)

theorem slot_channel_no_lost_wakeup_witness:
  "7 \<in> woken (hr_world ch_taken)"
proof -
  have "hr_futures ch_taken 7 = Some (Sending 4, Suspended \<lparr>wf_source = True, wf_wait_data = Some 0\<rparr>)"
    "ch_value (hr_channel ch_taken) = None"
    by (auto simp: ch_taken_def ch_waiting_def ch_full_def ch_try_recv_def ch_wake_all_def split: prod.splits)
  with slot_channel_no_lost_wakeup [OF ch_taken_reachable] show ?thesis by blast
qed

end
