(* ===== verification/Async_Oneshot.thy ===== *)
theory Async_Oneshot
  imports Channel_Runs
begin

text \<open>
  The oneshot channel of \<open>kimojio/src/async_oneshot.rs\<close>. \<open>send\<close> and \<open>recv\<close> consume their handle,
  which is dropped, and closes the channel, when they return or are dropped.
\<close>

section \<open>\<open>OneshotChannel\<close>\<close>

record 'm oneshot_channel =
  on_value :: "'m option"
  on_has_value :: async_event
  on_closed :: bool

definition on_new :: "nat \<Rightarrow> 'm oneshot_channel" where
  "on_new i = \<lparr>on_value = None, on_has_value = ev_new i, on_closed = False\<rparr>"

definition on_send :: "'m \<Rightarrow> 'm oneshot_channel \<Rightarrow> world \<Rightarrow> ('m + unit) \<times> 'm oneshot_channel \<times> world" where
  "on_send value ch w =
     (if on_closed ch then (Inl value, ch, w)
      else (case ev_set (on_has_value ch) w of
              (e, w1) \<Rightarrow> (Inr (), ch\<lparr>on_value := Some value, on_has_value := e\<rparr>, w1)))"

definition on_try_recv :: "'m oneshot_channel \<Rightarrow> (channel_error + 'm option) \<times> 'm oneshot_channel" where
  "on_try_recv ch =
     (case on_value ch of
        Some value \<Rightarrow> (Inr (Some value), ch\<lparr>on_value := None\<rparr>)
      | None \<Rightarrow> if on_closed ch then (Inl ChannelClosed, ch) else (Inr None, ch))"

definition on_close :: "'m oneshot_channel \<Rightarrow> world \<Rightarrow> 'm oneshot_channel \<times> world" where
  "on_close ch w =
     (case ev_set (on_has_value ch) w of (e, w1) \<Rightarrow> (ch\<lparr>on_closed := True, on_has_value := e\<rparr>, w1))"

definition on_source :: "'m oneshot_channel wait_source" where
  "on_source =
     \<lparr>ws_is_complete = (\<lambda>ch. ev_state (on_has_value ch)),
      ws_list = (\<lambda>ch. ev_waiting_tasks (on_has_value ch)),
      ws_set_list = (\<lambda>l ch. ch\<lparr>on_has_value := (on_has_value ch)\<lparr>ev_waiting_tasks := l\<rparr>\<rparr>)\<rparr>"

definition on_recv_step :: "('m oneshot_channel, channel_error + 'm) await_step" where
  "on_recv_step ch w =
     (case on_try_recv ch of
        (Inl e, ch1) \<Rightarrow> (Some (Inl e), ch1, w)
      | (Inr (Some value), ch1) \<Rightarrow> (Some (Inr value), ch1, w)
      | (Inr None, ch1) \<Rightarrow> (None, ch1, w))"

definition on_recv_poll ::
    "poll_context \<Rightarrow> await_future \<Rightarrow> 'm oneshot_channel \<Rightarrow> world \<Rightarrow>
     (channel_error + 'm, await_future, 'm oneshot_channel) poll_result option" where
  "on_recv_poll cx fut ch w = or_else canceled_channel_error (await_poll on_source on_recv_step cx fut ch w)"

section \<open>The handles\<close>

definition oneshot :: "nat \<Rightarrow> 'm oneshot_channel" where
  "oneshot i = on_new i"

definition sender_oneshot_drop :: "'m oneshot_channel \<Rightarrow> world \<Rightarrow> 'm oneshot_channel \<times> world" where
  "sender_oneshot_drop ch w = on_close ch w"

definition sender_oneshot_send ::
    "'m \<Rightarrow> 'm oneshot_channel \<Rightarrow> world \<Rightarrow> ('m + unit) \<times> 'm oneshot_channel \<times> world" where
  "sender_oneshot_send value ch w =
     (case on_send value ch w of
        (r, ch1, w1) \<Rightarrow> (case sender_oneshot_drop ch1 w1 of (ch2, w2) \<Rightarrow> (r, ch2, w2)))"

definition receiver_oneshot_drop :: "'m oneshot_channel \<Rightarrow> world \<Rightarrow> 'm oneshot_channel \<times> world" where
  "receiver_oneshot_drop ch w = on_close ch w"

definition receiver_oneshot_recv_poll ::
    "poll_context \<Rightarrow> await_future \<Rightarrow> 'm oneshot_channel \<Rightarrow> world \<Rightarrow>
     (channel_error + 'm, await_future, 'm oneshot_channel) poll_result option" where
  "receiver_oneshot_recv_poll cx fut ch w =
     (case on_recv_poll cx fut ch w of
        Some (r, fut', ch1, w1) \<Rightarrow>
          if r = Inr PollPending then Some (r, fut', ch1, w1)
          else (case receiver_oneshot_drop ch1 w1 of (ch2, w2) \<Rightarrow> Some (r, fut', ch2, w2))
      | None \<Rightarrow> None)"

definition receiver_oneshot_recv_drop ::
    "await_future \<Rightarrow> 'm oneshot_channel \<Rightarrow> world \<Rightarrow> 'm oneshot_channel \<times> world" where
  "receiver_oneshot_recv_drop fut ch w =
     (case await_drop on_source fut ch w of (ch1, w1) \<Rightarrow> receiver_oneshot_drop ch1 w1)"

section \<open>The receiver is woken\<close>

text \<open>Between operations of the handles a value is there only once the sender is gone.\<close>

definition on_ok :: "'m oneshot_channel \<Rightarrow> bool" where
  "on_ok ch \<longleftrightarrow> (ev_state (on_has_value ch) \<longleftrightarrow> on_closed ch) \<and> (on_value ch \<noteq> None \<longrightarrow> on_closed ch)"

lemma on_source_simps [simp]:
  "ws_is_complete on_source ch = ev_state (on_has_value ch)"
  "ws_list on_source ch = ev_waiting_tasks (on_has_value ch)"
  "ws_set_list on_source l ch = ch\<lparr>on_has_value := (on_has_value ch)\<lparr>ev_waiting_tasks := l\<rparr>\<rparr>"
  by (simp_all add: on_source_def)

lemma on_recv_step_eq:
  "on_recv_step ch w =
     (case on_value ch of
        Some v \<Rightarrow> (Some (Inr v), ch\<lparr>on_value := None\<rparr>, w)
      | None \<Rightarrow> if on_closed ch then (Some (Inl ChannelClosed), ch, w) else (None, ch, w))"
  by (simp add: on_recv_step_def on_try_recv_def split: option.splits)

interpretation on_all: notify_all "\<lambda>_ :: unit. on_source" "\<lambda>_. on_recv_step" on_ok
  "\<lambda>ch. ev_waiting_tasks (on_has_value ch)"
  "\<lambda>l ch. ch\<lparr>on_has_value := (on_has_value ch)\<lparr>ev_waiting_tasks := l\<rparr>\<rparr>"
  by unfold_locales (auto simp: on_ok_def on_recv_step_eq fun_eq_iff split: option.splits if_splits)

section \<open>Runs\<close>

record 'm on_run =
  nr_channel :: "'m oneshot_channel"
  nr_world :: world
  nr_futures :: "unit parties"
  nr_sender :: bool
  nr_receiver :: bool
  nr_sent :: "'m option"
  nr_received :: "'m option"

definition first_of :: "'m option \<Rightarrow> 'm option \<Rightarrow> 'm option" where
  "first_of a b = (case a of Some v \<Rightarrow> Some v | None \<Rightarrow> b)"

inductive on_step :: "'m on_run \<Rightarrow> 'm on_run \<Rightarrow> bool" where
  send: "nr_sender y \<Longrightarrow> sender_oneshot_send m (nr_channel y) (nr_world y) = (r, ch', w') \<Longrightarrow>
    on_step y (y\<lparr>nr_channel := ch', nr_world := w', nr_sender := False,
      nr_sent := (if r = Inr () then Some m else None)\<rparr>)"
| drop_sender: "nr_sender y \<Longrightarrow> sender_oneshot_drop (nr_channel y) (nr_world y) = (ch', w') \<Longrightarrow>
    on_step y (y\<lparr>nr_channel := ch', nr_world := w', nr_sender := False\<rparr>)"
| try_recv: "nr_receiver y \<Longrightarrow> on_try_recv (nr_channel y) = (r, ch') \<Longrightarrow>
    on_step y (y\<lparr>nr_channel := ch',
      nr_received := first_of (nr_received y) (case r of Inr v \<Rightarrow> v | Inl _ \<Rightarrow> None)\<rparr>)"
| drop_receiver: "nr_receiver y \<Longrightarrow> receiver_oneshot_drop (nr_channel y) (nr_world y) = (ch', w') \<Longrightarrow>
    on_step y (y\<lparr>nr_channel := ch', nr_world := w', nr_receiver := False\<rparr>)"
| recv: "nr_receiver y \<Longrightarrow>
    on_step y (y\<lparr>nr_receiver := False, nr_futures := Map.empty(i \<mapsto> ((), Unstarted))\<rparr>)"
| poll: "nr_futures y i = Some ((), fut) \<Longrightarrow>
    receiver_oneshot_recv_poll \<lparr>cx_waker = i, cx_tag = g\<rparr> fut (nr_channel y) (deliver i c (nr_world y)) =
      Some (r, fut', ch', w') \<Longrightarrow>
    on_step y (y\<lparr>nr_channel := ch', nr_world := w',
      nr_futures := (if r = Inr PollPending then (nr_futures y)(i \<mapsto> ((), fut')) else (nr_futures y)(i := None)),
      nr_received := first_of (nr_received y) (case r of Inr (PollReady (Inr v)) \<Rightarrow> Some v | _ \<Rightarrow> None)\<rparr>)"
| leave: "nr_futures y i = Some ((), fut) \<Longrightarrow>
    receiver_oneshot_recv_drop fut (nr_channel y) (nr_world y) = (ch', w') \<Longrightarrow>
    on_step y (y\<lparr>nr_channel := ch', nr_world := w', nr_futures := (nr_futures y)(i := None)\<rparr>)"
| cancel: "nr_futures y i = Some ((), Suspended f) \<Longrightarrow> wf_wait_data f = Some n \<Longrightarrow>
    cancel_wait n (ws_list on_source (nr_channel y)) (nr_world y) = (l', w') \<Longrightarrow>
    on_step y (y\<lparr>nr_channel := ws_set_list on_source l' (nr_channel y), nr_world := w'\<rparr>)"

definition on_start :: "nat \<Rightarrow> world \<Rightarrow> 'm on_run" where
  "on_start i w = \<lparr>nr_channel = oneshot i, nr_world = w, nr_futures = Map.empty, nr_sender = True,
     nr_receiver = True, nr_sent = None, nr_received = None\<rparr>"

definition on_inv :: "'m on_run \<Rightarrow> bool" where
  "on_inv y \<longleftrightarrow> on_all.alert (nr_channel y) (nr_world y) (nr_futures y) \<and>
     (nr_receiver y \<longrightarrow> nr_futures y = Map.empty) \<and>
     (nr_sender y \<longrightarrow> nr_sent y = None) \<and> (\<not> nr_sender y \<longrightarrow> on_closed (nr_channel y)) \<and>
     nr_sent y = first_of (nr_received y) (on_value (nr_channel y)) \<and>
     (nr_received y \<noteq> None \<longrightarrow> on_value (nr_channel y) = None)"

lemma on_inv_start: "on_inv (on_start i w)"
  by (simp add: on_inv_def on_start_def oneshot_def on_new_def on_all.alert_def on_ok_def ev_new_def ev_with_state_def
    first_of_def)

lemma on_alert_set:
  fixes ch ch' :: "'m oneshot_channel"
  assumes "on_all.alert ch w G" "ev_set (on_has_value ch) w = (e, w')" "on_has_value ch' = e" "on_closed ch'"
  shows "on_all.alert ch' w' G"
  by (rule on_all.alert_act [OF assms(1)]) (use assms(2-4) in \<open>auto simp: on_ok_def ev_set_effect\<close>)

lemma on_close_effect:
  assumes "on_all.alert ch w G" "on_close ch w = (ch', w')"
  shows "on_all.alert ch' w' G \<and> on_closed ch' \<and> on_value ch' = on_value ch"
proof -
  obtain e w1 where "ev_set (on_has_value ch) w = (e, w1)" by (cases "ev_set (on_has_value ch) w")
  with assms show ?thesis by (auto simp: on_close_def intro: on_alert_set)
qed

text \<open>Setting the event twice is setting it once.\<close>

lemma on_sender_send_effect:
  assumes "on_all.alert ch w G" "sender_oneshot_send m ch w = (r, ch', w')"
  shows "on_all.alert ch' w' G \<and> on_closed ch' \<and> (r = Inr () \<longleftrightarrow> \<not> on_closed ch) \<and>
    on_value ch' = (if r = Inr () then Some m else on_value ch)"
proof (cases "on_closed ch")
  case True
  obtain ch1 w1 where "on_close ch w = (ch1, w1)" by (cases "on_close ch w")
  with True assms on_close_effect [OF assms(1) this] show ?thesis
    by (auto simp: sender_oneshot_send_def on_send_def sender_oneshot_drop_def)
next
  case False
  obtain e w1 where set: "ev_set (on_has_value ch) w = (e, w1)" by (cases "ev_set (on_has_value ch) w")
  have "on_all.alert (ch\<lparr>on_value := Some m, on_has_value := e, on_closed := True\<rparr>) w1 G"
    by (rule on_alert_set [OF assms(1) set]) simp_all
  moreover obtain ch2 w2 where "on_close (ch\<lparr>on_value := Some m, on_has_value := e\<rparr>) w1 = (ch2, w2)"
    by (cases "on_close (ch\<lparr>on_value := Some m, on_has_value := e\<rparr>) w1")
  moreover have "on_close (ch\<lparr>on_value := Some m, on_has_value := e\<rparr>) w1 =
      on_close (ch\<lparr>on_value := Some m, on_has_value := e, on_closed := True\<rparr>) w1" by (simp add: on_close_def)
  ultimately show ?thesis
    using False assms(2) set on_close_effect [of "ch\<lparr>on_value := Some m, on_has_value := e, on_closed := True\<rparr>" w1 G ch2 w2]
    by (auto simp: sender_oneshot_send_def on_send_def sender_oneshot_drop_def)
qed

lemma on_poll_effect:
  assumes "on_all.alert ch w G" "G i = Some ((), fut)"
    "receiver_oneshot_recv_poll \<lparr>cx_waker = i, cx_tag = g\<rparr> fut ch (deliver i c w) = Some (r, fut', ch', w')"
  shows "on_all.alert ch' w' (if r = Inr PollPending then G(i \<mapsto> ((), fut')) else G(i := None)) \<and>
    (on_closed ch \<longrightarrow> on_closed ch') \<and>
    (case r of
       Inr (PollReady (Inr v)) \<Rightarrow> on_value ch = Some v \<and> on_value ch' = None
     | _ \<Rightarrow> on_value ch' = on_value ch)"
proof -
  from on_all.alert_poll [OF assms(1,2), of g c] obtain r0 fut0 s0 w0 where p:
    "await_poll on_source on_recv_step \<lparr>cx_waker = i, cx_tag = g\<rparr> fut ch (deliver i c w) = Some (r0, fut0, s0, w0)"
    "on_all.alert s0 w0 (if r0 = Inr PollPending then G(i \<mapsto> ((), fut0)) else G(i := None))"
    "on_all.poll_effect () ch (deliver i c w) r0 s0 w0" by blast
  let ?r = "map_sum id (map_poll (case_sum (\<lambda>e. Inl ChannelCanceled) id)) r0"
  have inner: "on_recv_poll \<lparr>cx_waker = i, cx_tag = g\<rparr> fut ch (deliver i c w) = Some (?r, fut0, s0, w0)"
    by (simp add: on_recv_poll_def or_else_def p(1))
  have pend: "?r = Inr PollPending \<longleftrightarrow> r0 = Inr PollPending" by (cases r0; cases "projr r0") auto
  have val: "on_closed s0 = on_closed ch \<and>
    (case ?r of Inr (PollReady (Inr v)) \<Rightarrow> on_value ch = Some v \<and> on_value s0 = None | _ \<Rightarrow> on_value s0 = on_value ch)"
  proof (cases "\<exists>a. r0 = Inr (PollReady (Inr a))")
    case True
    with p(3) show ?thesis by (auto simp: on_all.poll_effect_def on_recv_step_eq split: option.splits if_splits)
  next
    case False
    with p(3) have "on_closed s0 = on_closed ch \<and> on_value s0 = on_value ch"
      by (auto simp: on_all.poll_effect_def on_recv_step_eq split: option.splits if_splits)
    with no_result [OF False] show ?thesis by auto
  qed
  obtain ch2 w2 where cl: "on_close s0 w0 = (ch2, w2)" by (cases "on_close s0 w0")
  show ?thesis
  proof (cases "?r = Inr PollPending")
    case True
    with assms(3) inner have "r = Inr PollPending" "fut' = fut0" "ch' = s0" "w' = w0"
      by (auto simp: receiver_oneshot_recv_poll_def)
    with p(2) pend True val show ?thesis by simp
  next
    case False
    with assms(3) inner cl have eq: "r = ?r" "ch' = ch2" "w' = w2"
      by (auto simp: receiver_oneshot_recv_poll_def receiver_oneshot_drop_def)
    have "on_all.alert s0 w0 (G(i := None))" using p(2) pend False by simp
    note close = on_close_effect [OF this cl]
    then have "on_value s0 = on_value ch2" by simp
    with val have "case ?r of Inr (PollReady (Inr v)) \<Rightarrow> on_value ch = Some v \<and> on_value ch2 = None | _ \<Rightarrow> on_value ch2 = on_value ch"
      by (simp only:)
    with close False show ?thesis unfolding eq by simp
  qed
qed

lemma on_inv_step:
  assumes "on_step y y'" "on_inv y"
  shows "on_inv y'"
  using assms
proof (cases rule: on_step.cases)
  case (send m r ch' w')
  with assms(2) on_sender_send_effect [of "nr_channel y" "nr_world y" "nr_futures y" m r ch' w'] show ?thesis
    by (auto simp: on_inv_def first_of_def split: option.splits if_splits)
next
  case (drop_sender ch' w')
  with assms(2) on_close_effect [of "nr_channel y" "nr_world y" "nr_futures y" ch' w'] show ?thesis
    by (auto simp: on_inv_def sender_oneshot_drop_def)
next
  case (try_recv r ch')
  with assms(2) show ?thesis
    by (cases "on_value (nr_channel y)")
      (auto simp: on_inv_def on_try_recv_def first_of_def on_all.alert_def on_ok_def split: option.splits if_splits)
next
  case (drop_receiver ch' w')
  with assms(2) on_close_effect [of "nr_channel y" "nr_world y" "nr_futures y" ch' w'] show ?thesis
    by (auto simp: on_inv_def receiver_oneshot_drop_def)
next
  case (recv i)
  with assms(2) on_all.alert_start [of "nr_channel y" "nr_world y" "nr_futures y" i "()"] show ?thesis
    by (auto simp: on_inv_def)
next
  case (poll i fut g c r fut' ch' w')
  with assms(2) on_poll_effect [of "nr_channel y" "nr_world y" "nr_futures y" i fut g c r fut' ch' w'] show ?thesis
    by (auto simp: on_inv_def first_of_def split: option.splits sum.splits poll.splits)
next
  case (leave i fut ch' w')
  obtain ch1 w1 where dr: "await_drop on_source fut (nr_channel y) (nr_world y) = (ch1, w1)"
    by (cases "await_drop on_source fut (nr_channel y) (nr_world y)")
  have "on_all.alert (nr_channel y) (nr_world y) (nr_futures y)" using assms(2) by (simp add: on_inv_def)
  note al = on_all.alert_drop [OF this leave(2) dr]
  from al(2) have "on_value ch1 = on_value (nr_channel y)" by auto
  with leave assms(2) dr on_close_effect [OF al(1), of ch' w'] show ?thesis
    by (auto simp: on_inv_def receiver_oneshot_recv_drop_def receiver_oneshot_drop_def)
next
  case (cancel i f n l' w')
  with assms(2) on_all.alert_cancel [of "nr_channel y" "nr_world y" "nr_futures y" i "()" f n l' w'] show ?thesis
    by (auto simp: on_inv_def)
qed

lemma on_inv_reachable: "on_step\<^sup>*\<^sup>* (on_start i w) y \<Longrightarrow> on_inv y"
  by (induction rule: rtranclp_induct) (auto intro: on_inv_start on_inv_step)


definition on_sent :: "nat on_run" where
  "on_sent = (case sender_oneshot_send 3 (nr_channel (on_start 0 idle_world)) idle_world of
     (_, ch, w) \<Rightarrow> (on_start 0 idle_world)\<lparr>nr_channel := ch, nr_world := w, nr_sender := False, nr_sent := Some 3\<rparr>)"

lemma on_sent_reachable: "on_step\<^sup>*\<^sup>* (on_start 0 idle_world) on_sent"
proof (rule r_into_rtranclp)
  obtain r ch w where sd: "sender_oneshot_send 3 (nr_channel (on_start 0 idle_world :: nat on_run))
      (nr_world (on_start 0 idle_world :: nat on_run)) = (r, ch, w)"
    by (cases "sender_oneshot_send 3 (nr_channel (on_start 0 idle_world :: nat on_run)) (nr_world (on_start 0 idle_world :: nat on_run))")
  moreover from sd have "r = Inr ()"
    by (auto simp: sender_oneshot_send_def on_send_def on_start_def oneshot_def on_new_def split: prod.splits)
  ultimately show "on_step (on_start 0 idle_world) on_sent"
    using on_step.send [OF _ sd] by (simp add: on_sent_def on_start_def)
qed


end
