(* ===== verification/Cancellation_Token.thy ===== *)
theory Cancellation_Token
  imports Event_Runs
begin

text \<open>\<open>kimojio/src/cancellation_token.rs\<close>: an event that is set once and never reset.\<close>

record cancellation_token =
  tok_event :: async_event

definition tok_new :: "nat \<Rightarrow> cancellation_token" where
  "tok_new i = \<lparr>tok_event = ev_new i\<rparr>"

definition is_cancelled :: "cancellation_token \<Rightarrow> bool" where
  "is_cancelled t = ev_is_set (tok_event t)"

definition tok_cancel :: "cancellation_token \<Rightarrow> world \<Rightarrow> cancellation_token \<times> world" where
  "tok_cancel t w = (case ev_set (tok_event t) w of (e, w') \<Rightarrow> (t\<lparr>tok_event := e\<rparr>, w'))"

definition cancelled :: wait_future where
  "cancelled = ev_wait"

definition cancelled_poll ::
    "poll_context \<Rightarrow> wait_future \<Rightarrow> cancellation_token \<Rightarrow> world \<Rightarrow>
     (canceled_error + unit, wait_future, cancellation_token) poll_result" where
  "cancelled_poll cx f t w =
     (case ev_wait_poll True cx f (tok_event t) w of (r, f', e, w') \<Rightarrow> (r, f', t\<lparr>tok_event := e\<rparr>, w'))"

text \<open>Runs of a token are runs of its event in which nobody resets it.\<close>

record token_run =
  kr_token :: cancellation_token
  kr_world :: world
  kr_futures :: "nat \<rightharpoonup> wait_future"

inductive token_step :: "token_run \<Rightarrow> token_run \<Rightarrow> bool" where
  wait: "kr_futures y i = None \<Longrightarrow> token_step y (y\<lparr>kr_futures := (kr_futures y)(i \<mapsto> cancelled)\<rparr>)"
| pend: "kr_futures y i = Some f \<Longrightarrow>
    cancelled_poll \<lparr>cx_waker = i, cx_tag = g\<rparr> f (kr_token y) (deliver i c (kr_world y)) = (Inr PollPending, f', t', w') \<Longrightarrow>
    token_step y (y\<lparr>kr_token := t', kr_world := w', kr_futures := (kr_futures y)(i \<mapsto> f')\<rparr>)"
| finish: "kr_futures y i = Some f \<Longrightarrow>
    cancelled_poll \<lparr>cx_waker = i, cx_tag = g\<rparr> f (kr_token y) (deliver i c (kr_world y)) = (r, f', t1, w1) \<Longrightarrow>
    r \<noteq> Inr PollPending \<Longrightarrow> wf_drop (event_source True) f' (tok_event t1) w1 = (e', w') \<Longrightarrow>
    token_step y (y\<lparr>kr_token := t1\<lparr>tok_event := e'\<rparr>, kr_world := w', kr_futures := (kr_futures y)(i := None)\<rparr>)"
| leave: "kr_futures y i = Some f \<Longrightarrow>
    wf_drop (event_source True) f (tok_event (kr_token y)) (kr_world y) = (e', w') \<Longrightarrow>
    token_step y (y\<lparr>kr_token := (kr_token y)\<lparr>tok_event := e'\<rparr>, kr_world := w', kr_futures := (kr_futures y)(i := None)\<rparr>)"
| cancel_wait: "kr_futures y i = Some f \<Longrightarrow> wf_wait_data f = Some n \<Longrightarrow>
    cancel_wait n (ev_waiting_tasks (tok_event (kr_token y))) (kr_world y) = (l', w') \<Longrightarrow>
    token_step y (y\<lparr>kr_token := (kr_token y)\<lparr>tok_event := (tok_event (kr_token y))\<lparr>ev_waiting_tasks := l'\<rparr>\<rparr>, kr_world := w'\<rparr>)"
| cancel: "tok_cancel (kr_token y) (kr_world y) = (t', w') \<Longrightarrow> token_step y (y\<lparr>kr_token := t', kr_world := w'\<rparr>)"

definition kr_start :: "nat \<Rightarrow> world \<Rightarrow> token_run" where
  "kr_start i w = \<lparr>kr_token = tok_new i, kr_world = w, kr_futures = Map.empty\<rparr>"

definition as_event :: "token_run \<Rightarrow> event_run" where
  "as_event y = \<lparr>er_event = tok_event (kr_token y), er_world = kr_world y,
     er_futures = (\<lambda>i. map_option (Pair True) (kr_futures y i))\<rparr>"

lemma as_event_upd [simp]:
  "(\<lambda>j. map_option (Pair True) (if j = i then Some f else G j)) = (\<lambda>j. map_option (Pair True) (G j))(i \<mapsto> (True, f))"
  "(\<lambda>j. map_option (Pair True) (if j = i then None else G j)) = (\<lambda>j. map_option (Pair True) (G j))(i := None)"
  "(\<lambda>j. map_option (Pair True) ((G(i := None)) j)) = (\<lambda>j. map_option (Pair True) (G j))(i := None)"
  by auto

lemma token_step_event: "token_step y y' \<Longrightarrow> event_step (as_event y) (as_event y')"
proof (induction rule: token_step.induct)
  case (wait y i)
  then show ?case using event_step.wait [of "as_event y" i True] by (simp add: as_event_def cancelled_def)
next
  case (pend y i f g c f' t' w')
  then show ?case using event_step.pend [of "as_event y" i True f g c f' "tok_event t'" w']
    by (simp add: as_event_def cancelled_poll_def split: prod.splits) auto
next
  case (finish y i f g c r f' t1 w1 e' w')
  then show ?case using event_step.finish [of "as_event y" i True f g c r f' "tok_event t1" w1 e' w']
    by (simp add: as_event_def cancelled_poll_def split: prod.splits) auto
next
  case (leave y i f e' w')
  then show ?case using event_step.leave [of "as_event y" i True f e' w'] by (simp add: as_event_def)
next
  case (cancel_wait y i f n l' w')
  then show ?case using event_step.cancel [of "as_event y" i True f n l' w'] by (simp add: as_event_def)
next
  case (cancel y t' w')
  then show ?case using event_step.set [of "as_event y" "tok_event t'" w']
    by (simp add: as_event_def tok_cancel_def split: prod.splits) auto
qed

lemma wf_drop_state: "wf_drop (event_source b) f e w = (e', w') \<Longrightarrow> ev_state e' = ev_state e"
  by (auto simp: wf_drop_def unregister_canceled_wait_def ws_unregister_def ws_wake_all_def Let_def
    split: option.splits if_splits prod.splits)

lemma wf_poll_state: "wf_poll (event_source b) cx f e w = (r, f', e', w') \<Longrightarrow> ev_state e' = ev_state e"
  by (auto simp: wf_poll_def unregister_canceled_wait_def ws_unregister_def ws_wake_all_def ws_register_def
    wf_wait_again_def wf_new_wait_def Let_def split: option.splits if_splits prod.splits)

lemma token_step_stays: "token_step y y' \<Longrightarrow> is_cancelled (kr_token y) \<Longrightarrow> is_cancelled (kr_token y')"
  by (induction rule: token_step.induct)
    (auto simp: is_cancelled_def ev_is_set_def cancelled_poll_def ev_wait_poll_eq tok_cancel_def ev_set_effect
      dest!: wf_poll_state wf_drop_state split: prod.splits)

lemma token_stays: "token_step\<^sup>*\<^sup>* y y' \<Longrightarrow> is_cancelled (kr_token y) \<Longrightarrow> is_cancelled (kr_token y')"
  by (induction rule: rtranclp_induct) (auto intro: token_step_stays)

lemma token_reachable_event: "token_step\<^sup>*\<^sup>* (kr_start i w) y \<Longrightarrow> er_inv (as_event y)"
proof (induction rule: rtranclp_induct)
  case base
  have "as_event (kr_start i w) = er_start i False w"
    by (simp add: as_event_def kr_start_def er_start_def tok_new_def ev_new_def)
  then show ?case by (simp add: er_inv_start)
next
  case (step y z)
  then show ?case using er_inv_step token_step_event by blast
qed

text \<open>
  C26: Cancellation is final and reaches everybody. Once \<open>cancel\<close> was called in a run,
  \<open>is_cancelled\<close> holds in every later state; \<open>cancel\<close> wakes the task of every future of
  \<open>cancelled\<close> that waits; and from then on polling such a future, old or new, returns \<open>Ok\<close>, unless
  its wait was canceled with the I/O scope of the task or the task was aborted.
\<close>

theorem cancellation_is_final:
  assumes "token_step\<^sup>*\<^sup>* (kr_start k w0) y" "tok_cancel (kr_token y) (kr_world y) = (t, w)"
    "token_step\<^sup>*\<^sup>* (y\<lparr>kr_token := t, kr_world := w\<rparr>) z"
  shows "is_cancelled (kr_token z) \<and>
    (kr_futures y i = Some f \<and> wf_wait_data f = Some n \<longrightarrow> i \<in> woken w) \<and>
    (kr_futures z j = Some g \<and> \<not> wf_canceled (event_source True) g (tok_event (kr_token z)) \<and> ct_state c \<noteq> Aborted \<longrightarrow>
      fst (cancelled_poll cx g (kr_token z) (deliver j c (kr_world z))) = Inr (PollReady (Inr ())))"
proof (intro conjI impI)
  have set: "ev_set (tok_event (kr_token y)) (kr_world y) = (tok_event t, w)"
    using assms(2) by (auto simp: tok_cancel_def split: prod.splits)
  then have "is_cancelled t" by (simp add: is_cancelled_def ev_is_set_def ev_set_effect)
  then show z: "is_cancelled (kr_token z)" using token_stays [OF assms(3)] by simp
  have reach: "token_step\<^sup>*\<^sup>* (kr_start k w0) z"
    using assms(1) token_step.cancel [OF assms(2)] assms(3) by (metis (no_types) rtranclp.rtrancl_into_rtrancl rtranclp_trans)
  { assume "kr_futures y i = Some f \<and> wf_wait_data f = Some n"
    then have F: "er_waiting (er_futures (as_event y)) i = Some n" by (simp add: as_event_def er_waiting_def)
    have room: "room (ev_waiting_tasks (tok_event (kr_token y))) (woken (kr_world y)) (er_waiting (er_futures (as_event y)))"
      using token_reachable_event [OF assms(1)] by (simp add: er_inv_def as_event_def)
    have wake: "wl_wake_all (ev_waiting_tasks (tok_event (kr_token y))) (kr_world y) = (ev_waiting_tasks (tok_event t), w)"
      using set by (simp add: ev_set_effect)
    show "i \<in> woken w"
      using room_D(3) [OF room_wake_all(1) [OF room wake refl] F] room_wake_all(2) [OF room wake refl] by simp }
  assume g: "kr_futures z j = Some g \<and> \<not> wf_canceled (event_source True) g (tok_event (kr_token z)) \<and> ct_state c \<noteq> Aborted"
  then have "wf_source g" using token_reachable_event [OF reach] by (auto simp: er_inv_def as_event_def)
  with g z show "fst (cancelled_poll cx g (kr_token z) (deliver j c (kr_world z))) = Inr (PollReady (Inr ()))"
    by (auto simp: cancelled_poll_def ev_wait_poll_eq wf_poll_def is_cancelled_def ev_is_set_def split: prod.splits)
qed

theorem cancellation_is_final_witness:
  "is_cancelled (fst (tok_cancel (tok_new 0) idle_world))"
proof -
  obtain t w where t: "tok_cancel (tok_new 0) idle_world = (t, w)" by (cases "tok_cancel (tok_new 0) idle_world")
  then have "tok_cancel (kr_token (kr_start 0 idle_world)) (kr_world (kr_start 0 idle_world)) = (t, w)"
    by (simp add: kr_start_def)
  from cancellation_is_final [OF rtranclp.rtrancl_refl this rtranclp.rtrancl_refl] t show ?thesis by simp
qed

end
