(* ===== verification/Spec2Isabelle.thy ===== *)
theory Spec2Isabelle
  imports Handle_Table Varlink_Correct Prefix_Buffer Event_Runs Task_Pool Async_Lock Rw_Lock_Runs Sleep_Runs Resolver_Correct Slot_Channel_Runs Async_Oneshot Cancellation_Token
begin

text \<open>
  Verification of kimojio.
\<close>

end
